(* ===== verification/Prelude.thy ===== *)
theory Prelude
  imports Complex_Main "HOL-Library.Word" "HOL-Library.AList"
begin

text \<open>
  The prelude of the development: names for the machine types of the Rust sources, the
  collections of facts the component theories add to, and the lemmas on association lists
  that every component with a hash map shares.

  A Rust \<open>HashMap\<close> is an association list with distinct keys. Its iteration order is not
  specified by the standard library, so a state of the model stands for one order, and the
  theorems hold for every list, hence for every order. \<open>get\<close> is \<open>map_of\<close>, \<open>insert\<close> is
  \<open>AList.update\<close>, \<open>remove\<close> is \<open>AList.delete\<close>, a write through \<open>get_mut\<close> is
  \<open>AList.map_entry\<close> and \<open>retain\<close> is \<open>filter\<close>.
\<close>

type_synonym u32 = "32 word"
type_synonym u64 = "64 word"

text \<open>A \<open>Duration\<close> or an \<open>Instant\<close> is a number of nanoseconds.\<close>

type_synonym duration = nat
type_synonym instant = nat

text \<open>\<open>SystemTime\<close> counts nanoseconds from the Unix epoch and may lie before it.\<close>

type_synonym system_time = int

named_theorems inv_intros "introduction rules for the components' invariants"
named_theorems op_simps "equations of the components' operations"

abbreviation from_secs :: "nat \<Rightarrow> duration" where
  "from_secs s \<equiv> s * 1000000000"

abbreviation from_millis :: "nat \<Rightarrow> duration" where
  "from_millis ms \<equiv> ms * 1000000"

text \<open>\<open>Instant::duration_since\<close> is zero when the argument is later.\<close>

definition duration_since :: "instant \<Rightarrow> instant \<Rightarrow> duration" where
  "duration_since now earlier = now - earlier"


section \<open>Association lists as hash maps\<close>

abbreviation keys :: "('k \<times> 'v) list \<Rightarrow> 'k list" where
  "keys m \<equiv> map fst m"

abbreviation wf_map :: "('k \<times> 'v) list \<Rightarrow> bool" where
  "wf_map m \<equiv> distinct (keys m)"

text \<open>States are compared through \<open>map_of\<close>, so it is not rewritten to membership.\<close>

declare map_of_eq_Some_iff [simp del] Some_eq_map_of_iff [simp del]

lemma keys_map_entry [simp]: "keys (AList.map_entry k f m) = keys m"
  by (induction m) auto

lemma map_of_map_entry [simp]:
  "map_of (AList.map_entry k f m) k' = (if k' = k then map_option f (map_of m k) else map_of m k')"
  by (induction m) auto

lemma map_of_update [simp]:
  "map_of (AList.update k v m) k' = (if k' = k then Some v else map_of m k')"
  by (simp add: AList.update_conv')

lemma map_of_delete [simp]:
  "map_of (AList.delete k m) k' = (if k' = k then None else map_of m k')"
  by (simp add: AList.delete_conv')

lemma keys_filter_subset: "set (keys (filter P m)) \<subseteq> set (keys m)"
  by auto

lemma wf_map_filter [simp]: "wf_map m \<Longrightarrow> wf_map (filter P m)"
  by (induction m) auto

lemma wf_map_delete [simp]: "wf_map m \<Longrightarrow> wf_map (AList.delete k m)"
  by (rule AList.distinct_delete)

lemma wf_map_update [simp]: "wf_map m \<Longrightarrow> wf_map (AList.update k v m)"
  by (rule AList.distinct_update)

lemma map_of_filter:
  "wf_map m \<Longrightarrow> map_of (filter P m) k = (case map_of m k of None \<Rightarrow> None
     | Some v \<Rightarrow> if P (k, v) then Some v else None)"
proof (induction m)
  case (Cons a m)
  then have "fst a = k \<Longrightarrow> map_of m k = None"
    by (auto simp: map_of_eq_None_iff)
  with Cons show ?case by (cases a) (auto split: option.splits)
qed simp

lemma length_update:
  "length (AList.update k v m) = (if k \<in> set (keys m) then length m else Suc (length m))"
  by (induction m) auto

lemma length_map_entry [simp]: "length (AList.map_entry k f m) = length m"
  by (induction m) auto

lemma map_entry_id: "map_of m k = None \<Longrightarrow> AList.map_entry k f m = m"
  by (induction m) (auto split: if_splits)

lemma map_of_Some_in_keys: "map_of m k = Some v \<Longrightarrow> k \<in> set (keys m)"
  by (force dest: map_of_SomeD)

end
