(* ===== verification/Transition.thy ===== *)
theory Transition
  imports Prelude
begin

text \<open>
  Labelled transition systems. Parts of the program are several tasks that act on shared state
  one lock-protected operation at a time; they are modelled as step relations, and a history is
  a list of labels. This theory holds the runs of a step relation and the three ways the
  development reasons about them: an invariant, the view of one component of the state as a run
  of its own operations, and a measure that bounds the steps of one participant.
\<close>

section \<open>Runs\<close>

inductive steps :: "('s \<Rightarrow> 'l \<Rightarrow> 's \<Rightarrow> bool) \<Rightarrow> 's \<Rightarrow> 'l list \<Rightarrow> 's \<Rightarrow> bool" for step where
  stop: "steps step s [] s"
| then_: "step s l s' \<Longrightarrow> steps step s' ls s'' \<Longrightarrow> steps step s (l # ls) s''"

inductive_simps steps_Nil [simp]: "steps step s [] s'"
inductive_simps steps_Cons: "steps step s (l # ls) s'"

lemma steps_ConsE:
  assumes "steps step s (l # ls) s''"
  obtains s' where "step s l s'" "steps step s' ls s''"
  using assms by (auto simp: steps_Cons)

lemma steps_append: "steps step s (ls @ ls') s'' \<longleftrightarrow> (\<exists>s'. steps step s ls s' \<and> steps step s' ls' s'')"
  by (induction ls arbitrary: s) (auto simp: steps_Cons)

lemma steps_snoc: "steps step s (ls @ [l]) s'' \<longleftrightarrow> (\<exists>s'. steps step s ls s' \<and> step s' l s'')"
  by (simp add: steps_append steps_Cons)

section \<open>Invariants\<close>

locale invariant_system =
  fixes step :: "'s \<Rightarrow> 'l \<Rightarrow> 's \<Rightarrow> bool"
    and inv :: "'s \<Rightarrow> bool"
  assumes step_inv: "inv s \<Longrightarrow> step s l s' \<Longrightarrow> inv s'"
begin

lemma steps_inv: "steps step s ls s' \<Longrightarrow> inv s \<Longrightarrow> inv s'"
  by (induction rule: steps.induct) (auto intro: step_inv)

text \<open>What every step does from a state of the invariant holds between the ends of a run.\<close>

lemma steps_rel:
  assumes "\<And>s. R s [] s" "\<And>s l s' ls s''. inv s \<Longrightarrow> step s l s' \<Longrightarrow> R s' ls s'' \<Longrightarrow> R s (l # ls) s''"
  shows "steps step s ls s' \<Longrightarrow> inv s \<Longrightarrow> R s ls s'"
  by (induction rule: steps.induct) (auto intro: assms step_inv)

end

section \<open>One component of the state\<close>

text \<open>
  A projection that every label changes by operations the label shows: the component sees a run
  of its own operations, whatever the tasks behind them.
\<close>

locale component_view =
  fixes step :: "'s \<Rightarrow> 'l \<Rightarrow> 's \<Rightarrow> bool"
    and proj :: "'s \<Rightarrow> 'c"
    and exec :: "'o \<Rightarrow> 'c \<Rightarrow> 'c"
    and ops :: "'l \<Rightarrow> 'o list"
  assumes step_view: "step s l s' \<Longrightarrow> proj s' = fold exec (ops l) (proj s)"
begin

lemma steps_view: "steps step s ls s' \<Longrightarrow> proj s' = fold exec (concat (map ops ls)) (proj s)"
  by (induction rule: steps.induct) (auto simp: step_view)

end

section \<open>Participants whose own steps are bounded\<close>

locale bounded_participants =
  fixes step :: "'s \<Rightarrow> 'l \<Rightarrow> 's \<Rightarrow> bool"
    and owner :: "'l \<Rightarrow> 'i option"
    and work :: "'i \<Rightarrow> 's \<Rightarrow> nat option"
    and inv :: "'s \<Rightarrow> bool"
  assumes keeps: "inv s \<Longrightarrow> step s l s' \<Longrightarrow> inv s'"
    and own_step: "inv s \<Longrightarrow> step s l s' \<Longrightarrow> owner l = Some i \<Longrightarrow> work i s = Some n
      \<Longrightarrow> \<exists>m < n. work i s' = Some m"
    and other_step: "inv s \<Longrightarrow> step s l s' \<Longrightarrow> owner l \<noteq> Some i \<Longrightarrow> work i s = Some n \<Longrightarrow> work i s' = Some n"
begin

lemma own_steps_bounded:
  "steps step s ls s' \<Longrightarrow> inv s \<Longrightarrow> work i s = Some n
   \<Longrightarrow> \<exists>m. work i s' = Some m \<and> length (filter (\<lambda>l. owner l = Some i) ls) + m \<le> n"
proof (induction arbitrary: n rule: steps.induct)
  case (then_ s l s' ls s'')
  show ?case
  proof (cases "owner l = Some i")
    case True
    with own_step [OF then_.prems(1) then_.hyps(1)] then_.prems(2) obtain m where "m < n" "work i s' = Some m" by blast
    with then_.IH [of m] keeps [OF then_.prems(1) then_.hyps(1)] True show ?thesis by fastforce
  next
    case False
    with other_step [OF then_.prems(1) then_.hyps(1)] then_.prems(2) have "work i s' = Some n" by blast
    with then_.IH [of n] keeps [OF then_.prems(1) then_.hyps(1)] False show ?thesis by simp
  qed
qed simp

end

section \<open>Counting labels\<close>

definition count_labels :: "('l \<Rightarrow> bool) \<Rightarrow> 'l list \<Rightarrow> nat" where
  "count_labels P ls = length (filter P ls)"

lemma count_labels_simps [simp]:
  "count_labels P [] = 0" "count_labels P (a # ls) = of_bool (P a) + count_labels P ls"
  by (simp_all add: count_labels_def)

end
