(* ===== verification/F64.thy ===== *)
theory F64
  imports Prelude
begin

text \<open>
  IEEE 754 binary64 numbers, the \<open>f64\<close> of the Rust sources. A finite number is the rational
  it denotes (the two zeros are one: nothing in the sources observes the sign of a zero), and
  an operation is the exact rational operation followed by \<open>rnd\<close>, round to nearest with ties
  to even at 53 bits of precision, with gradual underflow and overflow to an infinity.
  The functions are executable; the lemmas give monotonicity of rounding and exactness on the
  integers up to \<open>2 ^ 53\<close>.
\<close>

datatype f64 = Fin rat | PInf | NInf | NaN

section \<open>Rounding\<close>

text \<open>Round half to even, to an integer.\<close>

definition rne :: "rat \<Rightarrow> int" where
  "rne x = (let f = \<lfloor>x\<rfloor>; d = x - of_int f in
     if d < 1 / 2 then f else if d > 1 / 2 then f + 1
     else if even f then f else f + 1)"

text \<open>The binary logarithm of a positive natural number, rounded down.\<close>

fun flog2 :: "nat \<Rightarrow> nat" where
  "flog2 n = (if n < 2 then 0 else Suc (flog2 (n div 2)))"

declare flog2.simps [simp del]

text \<open>The smallest \<open>k\<close> with \<open>n \<le> 2 ^ k\<close>.\<close>

definition clog2 :: "nat \<Rightarrow> nat" where
  "clog2 n = (if n \<le> 1 then 0 else Suc (flog2 (n - 1)))"

text \<open>The exponent of the binade of a positive rational: \<open>2 powi e \<le> x < 2 powi (e + 1)\<close>.\<close>

definition bexp :: "rat \<Rightarrow> int" where
  "bexp x = (if x \<ge> 1 then int (flog2 (nat \<lfloor>x\<rfloor>)) else - int (clog2 (nat \<lceil>1 / x\<rceil>)))"

text \<open>The exponent of the last place of the format at \<open>x\<close>; \<open>-1074\<close> is the subnormals'.\<close>

definition uexp :: "rat \<Rightarrow> int" where
  "uexp x = max (bexp \<bar>x\<bar> - 52) (- 1074)"

text \<open>Rounding without the overflow check.\<close>

definition rr :: "rat \<Rightarrow> rat" where
  "rr x = (if x = 0 then 0 else of_int (rne (x / 2 powi uexp x)) * 2 powi uexp x)"

definition f_big :: rat where
  "f_big = 2 ^ 1024"

definition rnd :: "rat \<Rightarrow> f64" where
  "rnd x = (let y = rr x in
     if f_big \<le> y then PInf else if y \<le> - f_big then NInf else Fin y)"

lemma rne_of_int [simp]: "rne (of_int n) = n"
  by (simp add: rne_def Let_def)

lemma rne_numeral [simp]: "rne (numeral n) = numeral n" "rne 0 = 0" "rne 1 = 1"
  using rne_of_int [of "numeral n"] rne_of_int [of 0] rne_of_int [of 1] by simp_all

lemma rne_bounds: "\<lfloor>x\<rfloor> \<le> rne x" "rne x \<le> \<lfloor>x\<rfloor> + 1"
  by (auto simp: rne_def Let_def)

lemma rne_error: "\<bar>of_int (rne x) - x\<bar> \<le> 1 / 2"
proof -
  have "of_int \<lfloor>x\<rfloor> \<le> x" "x < of_int \<lfloor>x\<rfloor> + 1" by linarith+
  then show ?thesis by (auto simp: rne_def Let_def)
qed

lemma rne_mono: "x \<le> y \<Longrightarrow> rne x \<le> rne y"
proof -
  assume xy: "x \<le> y"
  then have "\<lfloor>x\<rfloor> \<le> \<lfloor>y\<rfloor>" by (rule floor_mono)
  then consider "\<lfloor>x\<rfloor> + 1 \<le> \<lfloor>y\<rfloor>" | "\<lfloor>x\<rfloor> = \<lfloor>y\<rfloor>" by linarith
  then show "rne x \<le> rne y"
  proof cases
    case 1
    with rne_bounds(2) [of x] rne_bounds(1) [of y] show ?thesis by linarith
  next
    case 2
    with xy show ?thesis by (auto simp: rne_def Let_def)
  qed
qed

lemma rne_le_int: "x \<le> of_int n \<Longrightarrow> rne x \<le> n"
  using rne_mono [of x "of_int n"] by simp

lemma int_le_rne: "of_int n \<le> x \<Longrightarrow> n \<le> rne x"
  using rne_mono [of "of_int n" x] by simp

lemma rne_minus: "rne (- x) = - rne x"
proof (cases "x = of_int \<lfloor>x\<rfloor>")
  case True
  then show ?thesis by (metis rne_of_int of_int_minus)
next
  case False
  then have "\<lfloor>- x\<rfloor> = - \<lfloor>x\<rfloor> - 1"
    by (metis ceiling_def ceiling_diff_floor_le_1 floor_minus add.inverse_inverse
        ceiling_altdef diff_minus_eq_add minus_add_distrib add_uminus_conv_diff)
  then show ?thesis by (auto simp: rne_def Let_def)
qed

lemma flog2_bounds: "0 < n \<Longrightarrow> 2 ^ flog2 n \<le> n \<and> n < 2 ^ Suc (flog2 n)"
proof (induction n rule: flog2.induct)
  case (1 n)
  show ?case
  proof (cases "n < 2")
    case True
    with 1 show ?thesis by (subst (1 2) flog2.simps) auto
  next
    case False
    with 1 have "2 ^ flog2 (n div 2) \<le> n div 2" "n div 2 < 2 ^ Suc (flog2 (n div 2))" by auto
    moreover from False have "flog2 n = Suc (flog2 (n div 2))" by (subst flog2.simps) simp
    ultimately show ?thesis by auto
  qed
qed

lemma clog2_bounds: "1 < n \<Longrightarrow> n \<le> 2 ^ clog2 n \<and> 2 ^ clog2 n < 2 * n"
  using flog2_bounds [of "n - 1"] by (auto simp: clog2_def)

lemma powi_2_pos [simp]: "0 < (2::rat) powi k"
  by simp

lemma bexp_bounds:
  assumes "0 < x"
  shows "2 powi bexp x \<le> x" "x < 2 powi (bexp x + 1)"
proof -
  have "2 powi bexp x \<le> x \<and> x < 2 powi (bexp x + 1)"
  proof (cases "1 \<le> x")
    case True
    let ?n = "nat \<lfloor>x\<rfloor>"
    from True have n: "0 < ?n" "of_nat ?n \<le> x" "x < of_nat ?n + 1" by linarith+
    from flog2_bounds [OF n(1)] have "2 ^ flog2 ?n \<le> ?n" "?n + 1 \<le> 2 ^ Suc (flog2 ?n)" by auto
    then have "(of_nat (2 ^ flog2 ?n) :: rat) \<le> of_nat ?n"
        "(of_nat (?n + 1) :: rat) \<le> of_nat (2 ^ Suc (flog2 ?n))"
      by (blast intro: of_nat_mono)+
    then have "(2::rat) ^ flog2 ?n \<le> of_nat ?n" "of_nat ?n + 1 \<le> (2::rat) ^ Suc (flog2 ?n)"
      by simp_all
    with n have "2 ^ flog2 ?n \<le> x" "x < 2 ^ Suc (flog2 ?n)" by linarith+
    moreover from True have "bexp x = int (flog2 ?n)" by (simp add: bexp_def)
    ultimately show ?thesis by (simp add: power_int_add)
  next
    case False
    let ?n = "nat \<lceil>1 / x\<rceil>"
    from False assms have "1 < 1 / x" by simp
    then have n: "1 < ?n" "1 / x \<le> of_nat ?n" "of_nat ?n < 1 / x + 1" by linarith+
    from n(1) have le: "?n \<le> 2 ^ clog2 ?n" and lt: "2 ^ (clog2 ?n - 1) \<le> ?n - 1" "clog2 ?n > 0"
      using clog2_bounds [OF n(1)] flog2_bounds [of "?n - 1"] by (auto simp: clog2_def)
    from lt(1) n(1) have "2 ^ (clog2 ?n - 1) + 1 \<le> ?n" by linarith
    then have "(of_nat (2 ^ (clog2 ?n - 1) + 1) :: rat) \<le> of_nat ?n" by (rule of_nat_mono)
    then have "(2::rat) ^ (clog2 ?n - 1) + 1 \<le> of_nat ?n" by (simp only: of_nat_add of_nat_1 of_nat_power of_nat_numeral)
    with n(3) have up: "(2::rat) ^ (clog2 ?n - 1) < 1 / x" by linarith
    have "(of_nat ?n :: rat) \<le> of_nat (2 ^ clog2 ?n)" using le by (rule of_nat_mono)
    then have "(of_nat ?n :: rat) \<le> 2 ^ clog2 ?n" by (simp only: of_nat_power of_nat_numeral)
    with n(2) have lo: "1 / x \<le> (2::rat) ^ clog2 ?n" by linarith
    from False have b: "bexp x = - int (clog2 ?n)" by (simp add: bexp_def)
    from lt(2) have b1: "bexp x + 1 = - int (clog2 ?n - 1)" by (simp add: b)
    from lo up assms show ?thesis
      unfolding b1 by (simp add: b power_int_minus field_simps)
  qed
  then show "2 powi bexp x \<le> x" "x < 2 powi (bexp x + 1)" by auto
qed

lemma powi_2_mono: "k \<le> l \<Longrightarrow> (2::rat) powi k \<le> 2 powi l"
  by (rule power_int_increasing) auto

lemma powi_2_less: "(2::rat) powi k < 2 powi l \<Longrightarrow> k < l"
  using powi_2_mono [of l k] by (meson not_le)

lemma bexp_unique:
  assumes "2 powi e \<le> x" "x < 2 powi (e + 1)"
  shows "bexp x = e"
proof -
  have "0 < x" using assms(1) powi_2_pos [of e] by linarith
  note b = bexp_bounds [OF this]
  have "e < bexp x + 1" "bexp x < e + 1"
    using assms b by (meson order_le_less_trans powi_2_less)+
  then show ?thesis by simp
qed

lemma bexp_mono: "0 < x \<Longrightarrow> x \<le> y \<Longrightarrow> bexp x \<le> bexp y"
proof -
  assume xy: "0 < x" "x \<le> y"
  then have "2 powi bexp x \<le> x" "y < 2 powi (bexp y + 1)" by (simp_all add: bexp_bounds)
  with xy have "(2::rat) powi bexp x < 2 powi (bexp y + 1)" by linarith
  then show ?thesis using powi_2_less by fastforce
qed

lemma rr_0 [simp]: "rr 0 = 0"
  by (simp add: rr_def)

lemma rr_minus: "rr (- x) = - rr x"
  by (simp add: rr_def uexp_def rne_minus flip: minus_divide_left)

lemma uexp_mono: "0 < x \<Longrightarrow> x \<le> y \<Longrightarrow> uexp x \<le> uexp y"
  using bexp_mono [of x y] by (simp add: uexp_def)

lemma less_powi_uexp: "0 < x \<Longrightarrow> x < 2 powi (uexp x + 53)"
proof -
  assume x: "0 < x"
  have "bexp x + 1 \<le> uexp x + 53" using x by (simp add: uexp_def)
  then have "(2::rat) powi (bexp x + 1) \<le> 2 powi (uexp x + 53)" by (rule powi_2_mono)
  with bexp_bounds(2) [OF x] show ?thesis by linarith
qed

lemma rr_nonneg: "0 \<le> x \<Longrightarrow> 0 \<le> rr x"
  using int_le_rne [of 0 "x / 2 powi uexp x"] by (auto simp: rr_def)

lemma rr_le_powi: "0 < x \<Longrightarrow> rr x \<le> 2 powi (uexp x + 53)"
proof -
  assume x: "0 < x"
  have "x / 2 powi uexp x \<le> of_int (2 ^ 53)"
    using less_powi_uexp [OF x] by (simp add: power_int_add field_simps)
  then have "rne (x / 2 powi uexp x) \<le> 2 ^ 53" by (rule rne_le_int)
  then have "(of_int (rne (x / 2 powi uexp x)) :: rat) \<le> of_int (2 ^ 53)"
    by (simp only: of_int_le_iff)
  with x show ?thesis by (simp add: rr_def power_int_add)
qed

lemma powi_le_rr:
  assumes "0 < x" "- 1074 < uexp x"
  shows "2 powi (uexp x + 52) \<le> rr x"
proof -
  from assms have "bexp x = uexp x + 52" by (auto simp: uexp_def)
  with bexp_bounds(1) [OF assms(1)] have "of_int (2 ^ 52) \<le> x / 2 powi uexp x"
    by (simp add: power_int_add field_simps)
  then have "2 ^ 52 \<le> rne (x / 2 powi uexp x)" by (rule int_le_rne)
  then have "(of_int (2 ^ 52) :: rat) \<le> of_int (rne (x / 2 powi uexp x))"
    by (simp only: of_int_le_iff)
  with assms show ?thesis by (simp add: rr_def power_int_add)
qed

lemma rr_mono_pos:
  assumes "0 < x" "x \<le> y"
  shows "rr x \<le> rr y"
proof (cases "uexp x = uexp y")
  case True
  then have "rne (x / 2 powi uexp x) \<le> rne (y / 2 powi uexp y)"
    using assms(2) by (intro rne_mono) (simp add: divide_right_mono)
  then show ?thesis using assms True by (simp add: rr_def mult_right_mono)
next
  case False
  with uexp_mono [OF assms] have "uexp x < uexp y" by simp
  moreover then have "- 1074 < uexp y" by (simp add: uexp_def)
  ultimately have "rr x \<le> 2 powi (uexp x + 53)" "2 powi (uexp x + 53) \<le> (2::rat) powi (uexp y + 52)"
      "2 powi (uexp y + 52) \<le> rr y"
    using assms by (auto intro: rr_le_powi powi_le_rr powi_2_mono)
  then show ?thesis by linarith
qed

lemma rr_mono: "x \<le> y \<Longrightarrow> rr x \<le> rr y"
proof (cases "0 < x")
  case False
  assume xy: "x \<le> y"
  show ?thesis
  proof (cases "y < 0")
    case True
    then have "rr (- y) \<le> rr (- x)" using xy by (intro rr_mono_pos) auto
    then show ?thesis by (simp add: rr_minus)
  next
    case yn: False
    have "0 \<le> rr (- x)" using False by (intro rr_nonneg) simp
    then show ?thesis using rr_nonneg [of y] yn by (simp add: rr_minus)
  qed
qed (rule rr_mono_pos)

text \<open>Numbers of the format are fixed by rounding.\<close>

lemma rr_exact:
  assumes "\<bar>m\<bar> \<le> 2 ^ 53" "- 1074 \<le> k"
  shows "rr (of_int m * 2 powi k) = of_int m * 2 powi k"
proof (cases "m = 0")
  case False
  let ?x = "of_int m * (2::rat) powi k"
  have pos: "0 < \<bar>?x\<bar>" using False by simp
  have "(of_int \<bar>m\<bar> :: rat) \<le> of_int (2 ^ 53)" using assms(1) by (simp only: of_int_le_iff)
  then have le: "\<bar>?x\<bar> \<le> 2 powi (k + 53)" by (simp add: abs_mult power_int_add)
  show ?thesis
  proof (cases "\<bar>m\<bar> = 2 ^ 53")
    case True
    then have "\<bar>?x\<bar> = 2 powi (k + 53)"
      by (simp add: abs_mult power_int_add flip: of_int_abs)
    then have "bexp \<bar>?x\<bar> = k + 53" by (intro bexp_unique) (simp_all add: power_int_add)
    then have u: "uexp ?x = k + 1" using assms(2) by (simp add: uexp_def)
    from True have "even m" by (metis abs_if even_minus dvd_refl even_power zero_less_numeral)
    then obtain n where n: "m = 2 * n" by blast
    have "?x / 2 powi uexp ?x = of_int n" unfolding u by (simp add: n power_int_add)
    then have "rr ?x = of_int n * 2 powi uexp ?x" using False by (simp add: rr_def)
    also have "\<dots> = ?x" unfolding u by (simp add: n power_int_add)
    finally show ?thesis .
  next
    case m: False
    then have "(of_int \<bar>m\<bar> :: rat) < of_int (2 ^ 53)" using assms(1) by (simp only: of_int_less_iff)
    then have "\<bar>?x\<bar> < 2 powi (k + 53)" by (simp add: abs_mult power_int_add)
    then have "bexp \<bar>?x\<bar> \<le> k + 52"
      using bexp_bounds(1) [OF pos] powi_2_less [of "bexp \<bar>?x\<bar>" "k + 53"] by linarith
    then have u: "uexp ?x \<le> k" using assms(2) by (simp add: uexp_def)
    define j where "j = nat (k - uexp ?x)"
    have k: "(2::rat) powi k = 2 ^ j * 2 powi uexp ?x"
      using u by (simp add: j_def flip: power_int_of_nat power_int_add)
    have "?x / 2 powi uexp ?x = of_int m * (2 powi k / 2 powi uexp ?x)" by simp
    also have "2 powi k / 2 powi uexp ?x = (2::rat) ^ j" by (subst k) simp
    finally have "?x / 2 powi uexp ?x = of_int (m * 2 ^ j)" by simp
    then have "rne (?x / 2 powi uexp ?x) = m * 2 ^ j" by (simp only: rne_of_int)
    moreover have "rr ?x = of_int (rne (?x / 2 powi uexp ?x)) * 2 powi uexp ?x"
      using False by (simp add: rr_def)
    ultimately have "rr ?x = of_int (m * 2 ^ j) * 2 powi uexp ?x" by (simp only:)
    also have "\<dots> = of_int m * (2 ^ j * 2 powi uexp ?x)" by simp
    also have "\<dots> = ?x" by (simp only: k [symmetric])
    finally show ?thesis .
  qed
qed simp

lemma rr_of_int: "\<bar>n\<bar> \<le> 2 ^ 53 \<Longrightarrow> rr (of_int n) = of_int n"
  using rr_exact [of n 0] by simp

lemma rr_of_nat: "n \<le> 2 ^ 53 \<Longrightarrow> rr (of_nat n) = of_nat n"
  using rr_of_int [of "int n"] by simp

lemma rr_powi: "- 1074 \<le> k \<Longrightarrow> rr (2 powi k) = 2 powi k"
  using rr_exact [of 1 k] by simp

lemma rr_nonpos: "x \<le> 0 \<Longrightarrow> rr x \<le> 0"
  using rr_mono [of x 0] by simp

lemma rr_idem: "rr (rr x) = rr x"
proof (cases "x = 0")
  case False
  let ?m = "rne (x / 2 powi uexp x)"
  have x: "0 < \<bar>x\<bar>" using False by simp
  have u: "uexp \<bar>x\<bar> = uexp x" by (simp add: uexp_def)
  have "\<bar>x\<bar> / 2 powi uexp x \<le> 2 ^ 53"
    using less_powi_uexp [OF x] by (simp add: u power_int_add field_simps)
  moreover have "x / 2 powi uexp x \<le> \<bar>x\<bar> / 2 powi uexp x"
      "(- \<bar>x\<bar>) / 2 powi uexp x \<le> x / 2 powi uexp x"
    by (intro divide_right_mono; simp)+
  ultimately have "x / 2 powi uexp x \<le> of_int (2 ^ 53)" "of_int (- (2 ^ 53)) \<le> x / 2 powi uexp x"
    by simp_all
  then have "?m \<le> 2 ^ 53" "- (2 ^ 53) \<le> ?m" using rne_le_int int_le_rne by blast+
  moreover have "- 1074 \<le> uexp x" by (simp add: uexp_def)
  ultimately have "rr (of_int ?m * 2 powi uexp x) = of_int ?m * 2 powi uexp x"
    by (intro rr_exact) auto
  then show ?thesis using False by (simp add: rr_def)
qed simp


section \<open>The operations of the language\<close>

lemma rnd_Fin: "\<bar>rr x\<bar> < f_big \<Longrightarrow> rnd x = Fin (rr x)"
  by (auto simp: rnd_def Let_def)

lemma rnd_cases:
  obtains "rnd x = Fin (rr x)" | "rnd x = PInf" "f_big \<le> rr x" | "rnd x = NInf" "rr x \<le> - f_big"
proof -
  consider "f_big \<le> rr x" | "\<not> f_big \<le> rr x" "rr x \<le> - f_big"
    | "\<not> f_big \<le> rr x" "\<not> rr x \<le> - f_big" by blast
  then show thesis by cases (use that in \<open>simp_all add: rnd_def\<close>)
qed

lemma rnd_of_int: "\<bar>n\<bar> \<le> 2 ^ 53 \<Longrightarrow> rnd (of_int n) = Fin (of_int n)"
proof -
  assume n: "\<bar>n\<bar> \<le> 2 ^ 53"
  then have "(of_int \<bar>n\<bar> :: rat) \<le> of_int (2 ^ 53)" by (simp only: of_int_le_iff)
  moreover have "(of_int (2 ^ 53) :: rat) < f_big" by (simp add: f_big_def)
  ultimately have "\<bar>rr (of_int n)\<bar> < f_big" using rr_of_int [OF n] by simp
  then show ?thesis using rr_of_int [OF n] by (simp add: rnd_Fin)
qed

lemma rnd_of_nat: "n \<le> 2 ^ 53 \<Longrightarrow> rnd (of_nat n) = Fin (of_nat n)"
  using rnd_of_int [of "int n"] by simp

lemma rnd_numeral [simp]:
  "rnd 0 = Fin 0" "rnd 1 = Fin 1"
  "(numeral k :: int) \<le> 2 ^ 53 \<Longrightarrow> rnd (numeral k) = Fin (numeral k)"
  using rnd_of_int [of 0] rnd_of_int [of 1] rnd_of_int [of "numeral k"] by simp_all

fun f_neg :: "f64 \<Rightarrow> f64" where
  "f_neg (Fin x) = Fin (- x)"
| "f_neg PInf = NInf"
| "f_neg NInf = PInf"
| "f_neg NaN = NaN"

fun f_add :: "f64 \<Rightarrow> f64 \<Rightarrow> f64" where
  "f_add NaN b = NaN"
| "f_add a NaN = NaN"
| "f_add (Fin x) (Fin y) = rnd (x + y)"
| "f_add (Fin x) b = b"
| "f_add a (Fin y) = a"
| "f_add a b = (if a = b then a else NaN)"

definition f_sub :: "f64 \<Rightarrow> f64 \<Rightarrow> f64" where
  "f_sub a b = f_add a (f_neg b)"

text \<open>The sign of a number that is not a NaN: -1, 0 or 1; and the infinity of a sign.\<close>

fun f_sgn :: "f64 \<Rightarrow> rat" where
  "f_sgn (Fin x) = sgn x"
| "f_sgn PInf = 1"
| "f_sgn NInf = - 1"
| "f_sgn NaN = 0"

definition f_inf :: "rat \<Rightarrow> f64" where
  "f_inf s = (if s = 0 then NaN else if s > 0 then PInf else NInf)"

fun f_mul :: "f64 \<Rightarrow> f64 \<Rightarrow> f64" where
  "f_mul NaN b = NaN"
| "f_mul a NaN = NaN"
| "f_mul (Fin x) (Fin y) = rnd (x * y)"
| "f_mul a b = f_inf (f_sgn a * f_sgn b)"

text \<open>Division; \<open>x / 0\<close> is an infinity of the sign of \<open>x\<close>, \<open>0 / 0\<close> a NaN.\<close>

fun f_div :: "f64 \<Rightarrow> f64 \<Rightarrow> f64" where
  "f_div NaN b = NaN"
| "f_div a NaN = NaN"
| "f_div (Fin x) (Fin y) = (if y = 0 then f_inf (sgn x) else rnd (x / y))"
| "f_div (Fin x) b = Fin 0"
| "f_div a (Fin y) = (if y < 0 then f_neg a else a)"
| "f_div a b = NaN"

text \<open>Comparisons are false on a NaN.\<close>

fun f_le :: "f64 \<Rightarrow> f64 \<Rightarrow> bool" where
  "f_le NaN b = False"
| "f_le a NaN = False"
| "f_le (Fin x) (Fin y) = (x \<le> y)"
| "f_le NInf b = True"
| "f_le a PInf = True"
| "f_le a b = False"

definition f_lt :: "f64 \<Rightarrow> f64 \<Rightarrow> bool" where
  "f_lt a b = (f_le a b \<and> a \<noteq> b)"

text \<open>\<open>f64::min\<close> returns the other argument when one is a NaN.\<close>

definition f_min :: "f64 \<Rightarrow> f64 \<Rightarrow> f64" where
  "f_min a b = (if a = NaN then b else if b = NaN then a else if f_le a b then a else b)"

fun f_ceil :: "f64 \<Rightarrow> f64" where
  "f_ceil (Fin x) = rnd (of_int \<lceil>x\<rceil>)"
| "f_ceil a = a"

text \<open>\<open>n as f64\<close> rounds; \<open>x as u64\<close> truncates and saturates, with 0 for a NaN.\<close>

definition f_of_nat :: "nat \<Rightarrow> f64" where
  "f_of_nat n = rnd (of_nat n)"

fun f_to_nat :: "nat \<Rightarrow> f64 \<Rightarrow> nat" where
  "f_to_nat w (Fin x) = min (nat \<lfloor>x\<rfloor>) (2 ^ w - 1)"
| "f_to_nat w PInf = 2 ^ w - 1"
| "f_to_nat w NInf = 0"
| "f_to_nat w NaN = 0"

definition f_to_u64 :: "f64 \<Rightarrow> u64" where
  "f_to_u64 x = of_nat (f_to_nat 64 x)"

definition f_to_u32 :: "f64 \<Rightarrow> u32" where
  "f_to_u32 x = of_nat (f_to_nat 32 x)"

text \<open>
  \<open>f64::powi\<close> is the compiler's repeated squaring, with a reciprocal for a negative exponent
  (the standard library leaves its precision open; this is the sequence of roundings of the
  LLVM run-time routine, and it is exact whenever all the powers are representable).
\<close>

fun powi_loop :: "f64 \<Rightarrow> nat \<Rightarrow> f64 \<Rightarrow> f64" where
  "powi_loop a n r = (let r' = (if odd n then f_mul r a else r) in
     if n div 2 = 0 then r' else powi_loop (f_mul a a) (n div 2) r')"

declare powi_loop.simps [simp del]

definition f_powi :: "f64 \<Rightarrow> int \<Rightarrow> f64" where
  "f_powi a b = (let r = powi_loop a (nat \<bar>b\<bar>) (Fin 1) in if b < 0 then f_div (Fin 1) r else r)"

text \<open>
  \<open>Duration::as_secs_f64\<close>, and \<open>Duration::from_secs_f64\<close>, which panics (\<open>None\<close>) on a
  negative number, a NaN and a number of seconds that does not fit in 64 bits.
\<close>

definition as_secs_f64 :: "duration \<Rightarrow> f64" where
  "as_secs_f64 d = f_add (f_of_nat (d div 1000000000))
     (f_div (f_of_nat (d mod 1000000000)) (Fin 1000000000))"

fun from_secs_f64 :: "f64 \<Rightarrow> duration option" where
  "from_secs_f64 (Fin x) = (if x < 0 \<or> 2 ^ 64 \<le> x then None else
     let ns = nat (rne (x * 1000000000)) in
     if 2 ^ 64 * 1000000000 \<le> ns then None else Some ns)"
| "from_secs_f64 a = None"


section \<open>Order\<close>

lemma f_le_refl_Fin [simp]: "f_le (Fin x) (Fin x)" by simp

lemma f_le_trans: "f_le a b \<Longrightarrow> f_le b c \<Longrightarrow> f_le a c"
  by (cases a; cases b; cases c) auto

lemma f_le_PInf [simp]: "f_le a PInf \<longleftrightarrow> a \<noteq> NaN" by (cases a) auto

lemma rnd_not_NaN [simp]: "rnd x \<noteq> NaN" by (simp add: rnd_def Let_def)

lemma f_le_rnd: "x \<le> y \<Longrightarrow> f_le (rnd x) (rnd y)"
proof -
  assume "x \<le> y"
  then have *: "rr x \<le> rr y" by (rule rr_mono)
  have big: "0 < f_big" by (simp add: f_big_def)
  from * big show ?thesis by (auto simp: rnd_def Let_def)
qed

lemma rnd_ge_Fin: "rr z = z \<Longrightarrow> \<bar>z\<bar> < f_big \<Longrightarrow> z \<le> x \<Longrightarrow> f_le (Fin z) (rnd x)"
  using f_le_rnd [of z x] by (simp add: rnd_Fin)

lemma rnd_le_Fin: "rr z = z \<Longrightarrow> \<bar>z\<bar> < f_big \<Longrightarrow> x \<le> z \<Longrightarrow> f_le (rnd x) (Fin z)"
  using f_le_rnd [of x z] by (simp add: rnd_Fin)

lemma of_nat_less_f_big: "n \<le> 2 ^ 53 \<Longrightarrow> (of_nat n :: rat) < f_big"
proof -
  assume "n \<le> 2 ^ 53"
  then have "(of_nat n :: rat) \<le> of_nat (2 ^ 53)" by (rule of_nat_mono)
  moreover have "(of_nat (2 ^ 53) :: rat) < f_big" by (simp add: f_big_def)
  ultimately show ?thesis by simp
qed

lemma rnd_ge_nat: "n \<le> 2 ^ 53 \<Longrightarrow> of_nat n \<le> x \<Longrightarrow> f_le (Fin (of_nat n)) (rnd x)"
  by (rule rnd_ge_Fin) (simp_all add: rr_of_nat of_nat_less_f_big)

lemma f_min_eq_right: "f_le b a \<Longrightarrow> f_min a b = b"
  by (cases a; cases b) (auto simp: f_min_def)

text \<open>Rounding errors.\<close>

lemma rr_error: "\<bar>rr x - x\<bar> \<le> 2 powi uexp x / 2"
proof (cases "x = 0")
  case False
  let ?u = "2 powi uexp x :: rat"
  have u: "0 < ?u" by simp
  have "rr x - x = (of_int (rne (x / ?u)) - x / ?u) * ?u"
    using False u by (simp add: rr_def field_simps)
  then have "\<bar>rr x - x\<bar> = \<bar>of_int (rne (x / ?u)) - x / ?u\<bar> * ?u" by (simp add: abs_mult)
  also have "\<dots> \<le> 1 / 2 * ?u" by (rule mult_right_mono [OF rne_error]) simp
  finally show ?thesis by simp
qed simp

lemma rr_error_lt:
  assumes "\<bar>x\<bar> < 2 powi k" "- 1020 \<le> k"
  shows "\<bar>rr x - x\<bar> \<le> 2 powi (k - 54)"
proof (cases "x = 0")
  case False
  then have "2 powi bexp \<bar>x\<bar> \<le> \<bar>x\<bar>" by (intro bexp_bounds) simp
  then have "(2::rat) powi bexp \<bar>x\<bar> < 2 powi k" using assms(1) by simp
  then have "bexp \<bar>x\<bar> < k" by (rule powi_2_less)
  then have "uexp x \<le> k - 53" using assms(2) by (simp add: uexp_def)
  then have "(2::rat) powi uexp x \<le> 2 powi (k - 53)" by (rule powi_2_mono)
  also have "(2::rat) powi (k - 53) = 2 * 2 powi (k - 54)" 
    using power_int_add [of "2::rat" "k - 54" 1] by (simp add: algebra_simps)
  finally show ?thesis using rr_error [of x] by simp
qed simp

lemma rr_rel_error:
  assumes "2 powi (- 1000) \<le> x"
  shows "\<bar>rr x - x\<bar> \<le> x * 2 powi (- 53)"
proof -
  have pos: "0 < x" using assms powi_2_pos [of "-1000"] by linarith
  have "(2::rat) powi (- 1000) < 2 powi (bexp x + 1)" using assms bexp_bounds(2) [OF pos] by linarith
  then have "- 1000 < bexp x + 1" by (rule powi_2_less)
  then have "uexp x = bexp x - 52" using pos by (simp add: uexp_def)
  then have "(2::rat) powi uexp x = 2 powi bexp x * 2 powi (- 52)"
    using power_int_add [of "2::rat" "bexp x" "-52"] by simp
  also have "\<dots> \<le> x * 2 powi (- 52)" using bexp_bounds(1) [OF pos] by (intro mult_right_mono) auto
  finally show ?thesis using rr_error [of x] by (simp add: power_int_minus field_simps)
qed

text \<open>Durations in seconds.\<close>

abbreviation secs_of :: "duration \<Rightarrow> rat" where
  "secs_of d \<equiv> of_nat d / 1000000000"

lemma nanos_fraction:
  obtains p where "f_div (f_of_nat (d mod 1000000000)) (Fin 1000000000) = Fin p"
    "p = rr (of_nat (d mod 1000000000) / 1000000000)" "0 \<le> p" "p \<le> 1"
proof -
  let ?f = "d mod 1000000000" and ?q = "of_nat (d mod 1000000000) / 1000000000 :: rat"
  have "(of_nat ?f :: rat) \<le> of_nat 1000000000" by (intro of_nat_mono) simp
  then have q: "0 \<le> ?q" "?q \<le> 1" by simp_all
  have "rr ?q \<le> rr 1" using q(2) by (rule rr_mono)
  then have p: "0 \<le> rr ?q" "rr ?q \<le> 1" using q(1) rr_of_nat [of 1] by (simp_all add: rr_nonneg)
  then have "rnd ?q = Fin (rr ?q)" by (intro rnd_Fin) (simp add: f_big_def)
  moreover have "f_of_nat ?f = Fin (of_nat ?f)" unfolding f_of_nat_def by (rule rnd_of_nat) simp
  ultimately show thesis using p by (intro that) simp_all
qed

lemma as_secs_exact_whole:
  assumes "d < 2 ^ 53 * 1000000000"
  obtains p where "as_secs_f64 d = rnd (of_nat (d div 1000000000) + p)"
    "p = rr (of_nat (d mod 1000000000) / 1000000000)" "0 \<le> p" "p \<le> 1"
proof -
  obtain p where p: "f_div (f_of_nat (d mod 1000000000)) (Fin 1000000000) = Fin p"
    "p = rr (of_nat (d mod 1000000000) / 1000000000)" "0 \<le> p" "p \<le> 1" by (rule nanos_fraction)
  have "d div 1000000000 \<le> 2 ^ 53" using assms by auto
  then have "f_of_nat (d div 1000000000) = Fin (of_nat (d div 1000000000))"
    unfolding f_of_nat_def by (rule rnd_of_nat)
  with p show thesis by (intro that [of p]) (simp_all add: as_secs_f64_def)
qed

lemma as_secs_large:
  assumes "2 ^ 53 * 1000000000 \<le> d"
  shows "f_le (Fin (2 ^ 53)) (as_secs_f64 d)"
proof -
  obtain p where p: "f_div (f_of_nat (d mod 1000000000)) (Fin 1000000000) = Fin p" "0 \<le> p"
    by (rule nanos_fraction)
  have "2 ^ 53 \<le> d div 1000000000" using assms by (simp add: less_eq_div_iff_mult_less_eq)
  then have "(of_nat (2 ^ 53) :: rat) \<le> of_nat (d div 1000000000)" by (rule of_nat_mono)
  then have s: "f_le (Fin (of_nat (2 ^ 53))) (f_of_nat (d div 1000000000))"
    unfolding f_of_nat_def by (intro rnd_ge_nat) simp_all
  show ?thesis
  proof (cases "f_of_nat (d div 1000000000)")
    case (Fin x)
    then have "(2::rat) ^ 53 \<le> x" using s by simp
    with p(2) have "of_nat (2 ^ 53) \<le> x + p" by simp
    then have "f_le (Fin (of_nat (2 ^ 53))) (rnd (x + p))" by (intro rnd_ge_nat) simp
    then show ?thesis by (simp add: as_secs_f64_def p Fin)
  qed (use s in \<open>simp_all add: as_secs_f64_def p\<close>)
qed

lemma as_secs_mono:
  assumes "d \<le> e" "d < 2 ^ 53 * 1000000000"
  shows "f_le (as_secs_f64 d) (as_secs_f64 e)"
proof -
  let ?s = "d div 1000000000" and ?t = "e div 1000000000"
  obtain p where p: "as_secs_f64 d = rnd (of_nat ?s + p)"
    "p = rr (of_nat (d mod 1000000000) / 1000000000)" "0 \<le> p" "p \<le> 1"
    using assms(2) by (rule as_secs_exact_whole)
  show ?thesis
  proof (cases "e < 2 ^ 53 * 1000000000")
    case False
    have "?s + 1 \<le> 2 ^ 53" using assms(2) by auto
    then have "(of_nat (?s + 1) :: rat) \<le> of_nat (2 ^ 53)" by (rule of_nat_mono)
    then have "of_nat ?s + p \<le> 2 ^ 53" using p(4) by simp
    then have "f_le (as_secs_f64 d) (rnd (of_nat (2 ^ 53)))" unfolding p by (intro f_le_rnd) simp
    moreover have "f_le (Fin (2 ^ 53)) (as_secs_f64 e)" using False by (intro as_secs_large) simp
    moreover have "rnd (of_nat (2 ^ 53)) = Fin (of_nat (2 ^ 53))" by (rule rnd_of_nat) simp
    ultimately show ?thesis by (simp add: f_le_trans)
  next
    case True
    obtain q where q: "as_secs_f64 e = rnd (of_nat ?t + q)"
      "q = rr (of_nat (e mod 1000000000) / 1000000000)" "0 \<le> q" "q \<le> 1"
      using True by (rule as_secs_exact_whole)
    have le: "?s \<le> ?t" using assms(1) by (rule div_le_mono)
    have "of_nat ?s + p \<le> of_nat ?t + q"
    proof (cases "?s = ?t")
      case True
      have "e = 1000000000 * ?t + e mod 1000000000" "d = 1000000000 * ?s + d mod 1000000000"
        by (simp_all only: mult_div_mod_eq)
      then have "d mod 1000000000 \<le> e mod 1000000000" using assms(1) True by linarith
      then have "(of_nat (d mod 1000000000) :: rat) \<le> of_nat (e mod 1000000000)" by (rule of_nat_mono)
      then have "p \<le> q" unfolding p(2) q(2) by (intro rr_mono divide_right_mono) auto
      then show ?thesis by (simp add: True)
    next
      case False
      then have "?s + 1 \<le> ?t" using le by simp
      then have "(of_nat (?s + 1) :: rat) \<le> of_nat ?t" by (rule of_nat_mono)
      then show ?thesis using p(4) q(3) by simp
    qed
    then show ?thesis unfolding p(1) q(1) by (rule f_le_rnd)
  qed
qed

lemma as_secs_0 [simp]: "as_secs_f64 0 = Fin 0"
  by (simp add: as_secs_f64_def f_of_nat_def)

lemma rr_upper: "\<bar>x\<bar> < 2 powi k \<Longrightarrow> - 1020 \<le> k \<Longrightarrow> rr x \<le> x + 2 powi (k - 54)"
  using rr_error_lt [of x k] by linarith

section \<open>Powers of two and conversions\<close>

text \<open>The double for a power of two, with overflow to infinity.\<close>

definition pow2f :: "nat \<Rightarrow> f64" where
  "pow2f e = (if e < 1024 then Fin (2 ^ e) else PInf)"

lemma rr_int_pow2: "\<bar>m\<bar> \<le> 2 ^ 53 \<Longrightarrow> rr (of_int m * 2 ^ e) = of_int m * 2 ^ e"
  using rr_exact [of m "int e"] by simp

lemma rnd_pow2: "rnd (2 ^ e) = pow2f e"
proof (cases "e < 1024")
  case True
  then have "(2::rat) ^ e < f_big" unfolding f_big_def by (rule power_strict_increasing) simp
  moreover have "rr (2 ^ e) = 2 ^ e" using rr_int_pow2 [of 1 e] by simp
  ultimately show ?thesis using True by (simp add: rnd_Fin pow2f_def)
next
  case False
  then have "f_big \<le> (2::rat) ^ e" unfolding f_big_def by (intro power_increasing) auto
  moreover have "rr (2 ^ e) = 2 ^ e" using rr_int_pow2 [of 1 e] by simp
  ultimately show ?thesis using False by (simp add: rnd_def pow2f_def)
qed

lemma f_mul_pow2f: "f_mul (pow2f a) (pow2f b) = pow2f (a + b)"
proof (cases "a < 1024 \<and> b < 1024")
  case True
  then show ?thesis using rnd_pow2 [of "a + b"] by (simp add: pow2f_def [of a] pow2f_def [of b] power_add)
next
  case False
  then show ?thesis by (auto simp: pow2f_def f_inf_def sgn_1_pos)
qed

lemma powi_loop_pow2f: "powi_loop (pow2f a) n (pow2f r) = pow2f (r + a * n)"
proof (induction n arbitrary: a r rule: less_induct)
  case (less n)
  let ?r = "if odd n then r + a else r"
  have r: "(if odd n then f_mul (pow2f r) (pow2f a) else pow2f r) = pow2f ?r"
    by (simp add: f_mul_pow2f)
  show ?case
  proof (cases "n div 2 = 0")
    case True
    then have "n = 0 \<or> n = 1" by auto
    then show ?thesis by (subst powi_loop.simps) (auto simp: f_mul_pow2f)
  next
    case False
    then have "powi_loop (pow2f (a + a)) (n div 2) (pow2f ?r) = pow2f (?r + (a + a) * (n div 2))"
      by (intro less.IH) auto
    moreover have "?r + (a + a) * (n div 2) = r + a * n"
      by (cases "odd n") (auto elim!: oddE evenE simp: algebra_simps)
    moreover have "powi_loop (pow2f a) n (pow2f r) = powi_loop (pow2f (a + a)) (n div 2) (pow2f ?r)"
      using False by (subst powi_loop.simps) (simp add: f_mul_pow2f)
    ultimately show ?thesis by simp
  qed
qed

lemma f_powi_2: "f_powi (Fin 2) (int n) = pow2f n"
proof -
  have "pow2f 1 = Fin 2" "pow2f 0 = Fin 1" by (simp_all add: pow2f_def)
  then show ?thesis using powi_loop_pow2f [of 1 n 0] by (simp add: f_powi_def)
qed

lemma f_of_nat_small: "b \<le> 2 ^ 53 \<Longrightarrow> f_of_nat b = Fin (of_nat b)"
  by (simp only: f_of_nat_def rnd_of_nat)

lemma pow64_le: "64 \<le> e \<Longrightarrow> 0 < b \<Longrightarrow> (2::nat) ^ 64 \<le> b * 2 ^ e"
proof -
  assume "64 \<le> e" "0 < b"
  then have "(2::nat) ^ 64 \<le> 1 * 2 ^ e" "1 * 2 ^ e \<le> b * 2 ^ e"
    by (simp only: mult_1 power_increasing, intro mult_le_mono1) auto
  then show ?thesis by linarith
qed

lemma f_to_nat_mul_pow2f:
  assumes b: "b \<le> 2 ^ 53"
  shows "f_to_nat 64 (f_mul (f_of_nat b) (pow2f e)) = min (b * 2 ^ e) (2 ^ 64 - 1)"
proof (cases "b = 0")
  case True
  then show ?thesis by (simp add: f_of_nat_def pow2f_def f_inf_def)
next
  case False
  then have pos: "0 < b" by simp
  show ?thesis
  proof (cases "e < 1024")
    case e: True
    let ?x = "of_nat b * (2::rat) ^ e"
    have rr: "rr ?x = ?x" using b rr_int_pow2 [of "int b" e] by simp
    have m: "f_mul (f_of_nat b) (pow2f e) = rnd ?x" by (simp only: f_of_nat_small [OF b] pow2f_def e if_True f_mul.simps)
    show ?thesis
    proof (cases "?x < f_big")
      case True
      then have "rnd ?x = Fin ?x" using rr by (intro rnd_Fin [of ?x, unfolded rr]) (simp add: abs_mult)
      moreover have "\<lfloor>?x\<rfloor> = int (b * 2 ^ e)" by (metis floor_of_nat of_nat_mult of_nat_numeral of_nat_power)
      ultimately show ?thesis by (simp only: m f_to_nat.simps nat_int)
    next
      case False
      then have "rnd ?x = PInf" by (simp add: rnd_def rr)
      have "2 ^ 1024 \<le> b * 2 ^ e"
      proof -
        have "(of_nat (2 ^ 1024) :: rat) \<le> of_nat (b * 2 ^ e)"
          using False by (simp only: f_big_def not_less of_nat_mult of_nat_power of_nat_numeral)
        then show ?thesis by (simp only: of_nat_le_iff)
      qed
      moreover have "(2::nat) ^ 64 \<le> 2 ^ 1024" by (rule power_increasing) auto
      ultimately have "(2::nat) ^ 64 - 1 \<le> b * 2 ^ e" by linarith
      with \<open>rnd ?x = PInf\<close> show ?thesis by (simp only: m f_to_nat.simps min_absorb2)
    qed
  next
    case False
    then have "f_mul (f_of_nat b) (pow2f e) = PInf"
      using pos by (simp add: f_of_nat_small [OF b] pow2f_def f_inf_def)
    moreover have "2 ^ 64 \<le> b * 2 ^ e" using False pos by (intro pow64_le) auto
    ultimately show ?thesis by simp
  qed
qed

lemma sint_small:
  assumes "unat (w :: u32) < 2 ^ 31"
  shows "sint w = int (unat w)"
proof -
  have u: "int (unat w) = uint w" by simp
  from assms have "int (unat w) < int (2 ^ 31)" by (simp only: of_nat_less_iff)
  then have "uint w < 2 ^ 31" unfolding u by simp
  moreover have "- (2 ^ 31) \<le> uint w" by (rule order_trans [of _ 0]) simp_all
  ultimately have "signed_take_bit 31 (uint w) = uint w" by (intro signed_take_bit_int_eq_self)
  then show ?thesis unfolding sint_uint u by simp
qed

lemma unat_min_u64: "unat (min (of_nat (min a (2 ^ 64 - 1))) (b :: u64)) = min a (unat b)"
proof -
  have "unat (of_nat (min a (2 ^ 64 - 1)) :: u64) = min a (2 ^ 64 - 1)"
    by (simp add: unat_of_nat min_def)
  moreover have "unat b < 2 ^ LENGTH(64)" by (rule unsigned_less)
  ultimately show ?thesis by (auto simp: min_def word_le_nat_alt)
qed

lemma unat_mul_1000: "unat (x :: u64) * 1000 < 2 ^ 64 \<Longrightarrow> unat (x * 1000) = unat x * 1000"
  by (simp add: unat_word_ariths)

text \<open>\<open>min\<close> with a number before the conversion is \<open>min\<close> after it.\<close>

lemma f_to_nat_f_min:
  assumes "a \<noteq> NaN" "m \<le> 2 ^ 53"
  shows "f_to_nat 64 (f_min a (f_of_nat m)) = min (f_to_nat 64 a) m"
proof (cases a)
  case (Fin x)
  show ?thesis
  proof (cases "x \<le> of_nat m")
    case True
    then have "\<lfloor>x\<rfloor> \<le> \<lfloor>of_nat m :: rat\<rfloor>" by (rule floor_mono)
    then have "nat \<lfloor>x\<rfloor> \<le> m" by simp
    then show ?thesis using True by (simp add: Fin f_of_nat_small [OF assms(2)] f_min_def min_def)
  next
    case False
    then have "\<lfloor>of_nat m :: rat\<rfloor> \<le> \<lfloor>x\<rfloor>" by (intro floor_mono) simp
    then have "m \<le> nat \<lfloor>x\<rfloor>" by simp
    then show ?thesis using False assms(2) by (simp add: Fin f_of_nat_small [OF assms(2)] f_min_def min_def)
  qed
qed (use assms in \<open>simp_all add: f_of_nat_small f_min_def\<close>)

end
