(* ===== verification/RateLimit.thy ===== *)
theory RateLimit
  imports F64
begin

text \<open>
  The token-bucket rate limiter of \<open>madrpc-common/src/rate_limit.rs\<close>. A limiter is a record
  of its configuration, the map from client addresses to buckets and the time of the last
  cleanup; \<open>Instant::now()\<close> is an argument of each operation that reads it, and a panic of
  \<open>Duration::from_secs_f64\<close> is the result \<open>None\<close>. Tokens and rates are the binary64 numbers
  of theory \<open>F64\<close>, so every rounding of the code is in the model.
\<close>

section \<open>Configuration\<close>

datatype ip_addr = V4 u32 | V6 "128 word"

record rate_limit_config =
  requests_per_second :: f64
  burst_size :: u32
  cleanup_interval :: duration
  entry_ttl :: duration

definition rate_config_new :: "f64 \<Rightarrow> u32 \<Rightarrow> rate_limit_config" where
  "rate_config_new rps burst = \<lparr>requests_per_second = rps, burst_size = burst,
     cleanup_interval = from_secs 60, entry_ttl = from_secs 300\<rparr>"

definition per_second :: "f64 \<Rightarrow> rate_limit_config" where
  "per_second rps = rate_config_new rps (f_to_u32 (f_ceil (f_mul rps (Fin 2))))"

definition per_minute :: "u32 \<Rightarrow> rate_limit_config" where
  "per_minute rpm = per_second (f_div (f_of_nat (unat rpm)) (Fin 60))"

text \<open>\<open>f64::MAX\<close> and \<open>u32::MAX\<close>.\<close>

definition default_rate_config :: rate_limit_config where
  "default_rate_config = \<lparr>requests_per_second = Fin ((2 ^ 53 - 1) * 2 ^ 971),
     burst_size = - 1, cleanup_interval = from_secs 60, entry_ttl = from_secs 300\<rparr>"

section \<open>Token buckets\<close>

record token_bucket =
  tokens :: f64
  last_update :: instant

definition bucket_new :: "u32 \<Rightarrow> instant \<Rightarrow> token_bucket" where
  "bucket_new burst now = \<lparr>tokens = f_of_nat (unat burst), last_update = now\<rparr>"

definition try_consume :: "rate_limit_config \<Rightarrow> instant \<Rightarrow> token_bucket \<Rightarrow> bool \<times> token_bucket" where
  "try_consume cfg now b =
     (let elapsed_secs = as_secs_f64 (duration_since now (last_update b));
          new_tokens = f_mul elapsed_secs (requests_per_second cfg);
          b = b\<lparr>tokens := f_min (f_add (tokens b) new_tokens) (f_of_nat (unat (burst_size cfg))),
                last_update := now\<rparr>
      in if f_le (Fin 1) (tokens b) then (True, b\<lparr>tokens := f_sub (tokens b) (Fin 1)\<rparr>)
         else (False, b))"

definition time_until_next_token :: "rate_limit_config \<Rightarrow> token_bucket \<Rightarrow> duration option" where
  "time_until_next_token cfg b = (if f_le (Fin 1) (tokens b) then Some 0
     else from_secs_f64 (f_div (f_sub (Fin 1) (tokens b)) (requests_per_second cfg)))"

section \<open>The limiter\<close>

datatype rate_limit_result = Allowed | RateLimited (wait: duration)

definition is_allowed :: "rate_limit_result \<Rightarrow> bool" where
  "is_allowed r = (case r of Allowed \<Rightarrow> True | RateLimited d \<Rightarrow> False)"

definition retry_after :: "rate_limit_result \<Rightarrow> duration option" where
  "retry_after r = (case r of Allowed \<Rightarrow> None | RateLimited d \<Rightarrow> Some d)"

record rate_limiter =
  rl_config :: rate_limit_config
  buckets :: "(ip_addr \<times> token_bucket) list"
  last_cleanup :: instant

definition rl_new :: "rate_limit_config \<Rightarrow> instant \<Rightarrow> rate_limiter" where
  "rl_new cfg now = \<lparr>rl_config = cfg, buckets = [], last_cleanup = now\<rparr>"

definition rl_disabled :: "instant \<Rightarrow> rate_limiter" where
  "rl_disabled now = rl_new default_rate_config now"

definition is_enabled :: "rate_limiter \<Rightarrow> bool" where
  "is_enabled l = f_lt (requests_per_second (rl_config l)) (Fin 1000000)"

definition tracked_ip_count :: "rate_limiter \<Rightarrow> nat" where
  "tracked_ip_count l = length (buckets l)"

definition cleanup_stale_entries :: "instant \<Rightarrow> rate_limiter \<Rightarrow> rate_limiter" where
  "cleanup_stale_entries now l = l\<lparr>buckets :=
     filter (\<lambda>(ip, b). duration_since now (last_update b) < entry_ttl (rl_config l)) (buckets l)\<rparr>"

definition periodic_cleanup :: "instant \<Rightarrow> rate_limiter \<Rightarrow> rate_limiter" where
  "periodic_cleanup now l = (if duration_since now (last_cleanup l) \<ge> cleanup_interval (rl_config l)
     then (cleanup_stale_entries now l)\<lparr>last_cleanup := now\<rparr> else l)"

text \<open>The answer from a bucket, which the code computes under the map's write lock.\<close>

definition serve_bucket ::
  "rate_limit_config \<Rightarrow> instant \<Rightarrow> token_bucket \<Rightarrow> rate_limit_result option \<times> token_bucket" where
  "serve_bucket cfg now b = (case try_consume cfg now b of (ok, b') \<Rightarrow>
     (if ok then Some Allowed else map_option RateLimited (time_until_next_token cfg b'), b'))"

text \<open>
  \<open>check_rate_limit\<close> reads the clock once on entry (\<open>now\<close>) and, when the address is new, again
  in the constructor of its bucket (\<open>created\<close>).
\<close>

definition check_rate_limit ::
  "instant \<Rightarrow> instant \<Rightarrow> ip_addr \<Rightarrow> rate_limiter \<Rightarrow> rate_limit_result option \<times> rate_limiter" where
  "check_rate_limit now created ip l =
     (if f_le (Fin 1000000) (requests_per_second (rl_config l)) then (Some Allowed, l) else
      let l = periodic_cleanup now l;
          bucket = (case map_of (buckets l) ip of
             Some b \<Rightarrow> b | None \<Rightarrow> bucket_new (burst_size (rl_config l)) created);
          (res, bucket) = serve_bucket (rl_config l) now bucket
      in (res, l\<lparr>buckets := AList.update ip bucket (buckets l)\<rparr>))"

text \<open>A history of arrivals: the two clock readings and the address of each.\<close>

type_synonym arrival = "instant \<times> instant \<times> ip_addr"

abbreviation arrival_ip :: "arrival \<Rightarrow> ip_addr" where
  "arrival_ip a \<equiv> snd (snd a)"

primrec rl_run :: "arrival list \<Rightarrow> rate_limiter \<Rightarrow> rate_limit_result option list \<times> rate_limiter" where
  "rl_run [] l = ([], l)"
| "rl_run (a # as) l = (case check_rate_limit (fst a) (fst (snd a)) (arrival_ip a) l of
     (r, l') \<Rightarrow> (case rl_run as l' of (rs, l'') \<Rightarrow> (r # rs, l'')))"

section \<open>Buckets stay within their bounds\<close>

definition rate_ok :: "rate_limit_config \<Rightarrow> bool" where
  "rate_ok cfg = (case requests_per_second cfg of Fin r \<Rightarrow> 0 \<le> r | _ \<Rightarrow> False)"

definition burst_of :: "rate_limit_config \<Rightarrow> rat" where
  "burst_of cfg = of_nat (unat (burst_size cfg))"

definition bucket_ok :: "rate_limit_config \<Rightarrow> token_bucket \<Rightarrow> bool" where
  "bucket_ok cfg b = (case tokens b of Fin x \<Rightarrow> 0 \<le> x \<and> x \<le> burst_of cfg | _ \<Rightarrow> False)"

definition new_tokens :: "rate_limit_config \<Rightarrow> instant \<Rightarrow> token_bucket \<Rightarrow> f64" where
  "new_tokens cfg now b = f_mul (as_secs_f64 (duration_since now (last_update b))) (requests_per_second cfg)"

definition refilled :: "rate_limit_config \<Rightarrow> instant \<Rightarrow> token_bucket \<Rightarrow> f64" where
  "refilled cfg now b = f_min (f_add (tokens b) (new_tokens cfg now b)) (Fin (burst_of cfg))"

lemma unat_u32_le: "unat (b :: u32) \<le> 2 ^ 53"
  using unsigned_less [of b, where ?'a = nat] by simp

lemma f_of_burst [simp]: "f_of_nat (unat (burst_size cfg)) = Fin (burst_of cfg)"
  unfolding f_of_nat_def burst_of_def by (rule rnd_of_nat [OF unat_u32_le])

lemma burst_of_bounds: "0 \<le> burst_of cfg" "burst_of cfg \<le> 2 ^ 32 - 1" "rr (burst_of cfg) = burst_of cfg"
proof -
  have "unat (burst_size cfg) \<le> 2 ^ 32 - 1"
    using unsigned_less [of "burst_size cfg", where ?'a = nat] by simp
  then have "(of_nat (unat (burst_size cfg)) :: rat) \<le> of_nat (2 ^ 32 - 1)" by (rule of_nat_mono)
  then show "burst_of cfg \<le> 2 ^ 32 - 1" by (simp add: burst_of_def)
  show "0 \<le> burst_of cfg" unfolding burst_of_def by (rule of_nat_0_le_iff)
  show "rr (burst_of cfg) = burst_of cfg" unfolding burst_of_def by (rule rr_of_nat [OF unat_u32_le])
qed

lemma try_consume_eq:
  "try_consume cfg now b = (let y = refilled cfg now b in
     if f_le (Fin 1) y then (True, \<lparr>tokens = f_sub y (Fin 1), last_update = now\<rparr>)
     else (False, \<lparr>tokens = y, last_update = now\<rparr>))"
  by (simp add: try_consume_def refilled_def new_tokens_def Let_def)

text \<open>The answer depends on the refilled tokens only.\<close>

lemma serve_bucket_cong: "refilled cfg now b = refilled cfg now b' \<Longrightarrow> serve_bucket cfg now b = serve_bucket cfg now b'"
  by (simp add: serve_bucket_def try_consume_eq)

lemma as_secs_nonneg: "f_le (Fin 0) (as_secs_f64 d)"
  using as_secs_mono [of 0 d] by simp

lemma new_tokens_nonneg:
  assumes "rate_ok cfg"
  shows "new_tokens cfg now b = NaN \<or> f_le (Fin 0) (new_tokens cfg now b)"
proof -
  from assms obtain r where r: "requests_per_second cfg = Fin r" "0 \<le> r"
    by (auto simp: rate_ok_def split: f64.splits)
  let ?a = "as_secs_f64 (duration_since now (last_update b))"
  have "f_le (Fin 0) ?a" by (rule as_secs_nonneg)
  then show ?thesis using r f_le_rnd [of 0]
    by (cases ?a) (auto simp: new_tokens_def f_inf_def)
qed

lemma f_min_range:
  assumes "a = NaN \<or> f_le (Fin 0) a" "0 \<le> B"
  shows "\<exists>y. f_min a (Fin B) = Fin y \<and> 0 \<le> y \<and> y \<le> B"
  using assms by (cases a) (auto simp: f_min_def)

lemma f_add_nonneg:
  assumes "0 \<le> x" "a = NaN \<or> f_le (Fin 0) a"
  shows "f_add (Fin x) a = NaN \<or> f_le (Fin 0) (f_add (Fin x) a)"
  using assms f_le_rnd [of 0] by (cases a) auto

lemma refilled_range:
  assumes "rate_ok cfg" "bucket_ok cfg b"
  obtains y where "refilled cfg now b = Fin y" "0 \<le> y" "y \<le> burst_of cfg"
proof -
  from assms(2) obtain x where x: "tokens b = Fin x" "0 \<le> x"
    by (auto simp: bucket_ok_def split: f64.splits)
  from f_min_range [OF f_add_nonneg [OF x(2) new_tokens_nonneg [OF assms(1)]] burst_of_bounds(1)]
  show thesis using that by (auto simp: refilled_def x(1))
qed

lemma sub_one_range:
  assumes "1 \<le> y" "y \<le> burst_of cfg"
  shows "f_sub (Fin y) (Fin 1) = Fin (rr (y - 1))" "0 \<le> rr (y - 1)" "rr (y - 1) \<le> burst_of cfg"
proof -
  show r: "0 \<le> rr (y - 1)" using assms(1) by (simp add: rr_nonneg)
  have "rr (y - 1) \<le> rr (burst_of cfg)" using assms(2) by (intro rr_mono) simp
  then show s: "rr (y - 1) \<le> burst_of cfg" by (simp add: burst_of_bounds)
  have "burst_of cfg < f_big" using burst_of_bounds(2) [of cfg] by (simp add: f_big_def)
  then show "f_sub (Fin y) (Fin 1) = Fin (rr (y - 1))" using r s by (simp add: f_sub_def rnd_Fin)
qed

lemma serve_bucket_ok:
  assumes "rate_ok cfg" "bucket_ok cfg b"
  shows "bucket_ok cfg (snd (serve_bucket cfg now b)) \<and> last_update (snd (serve_bucket cfg now b)) = now"
proof -
  from assms obtain y where y: "refilled cfg now b = Fin y" "0 \<le> y" "y \<le> burst_of cfg"
    by (rule refilled_range)
  then show ?thesis using sub_one_range [of y cfg]
    by (cases "1 \<le> y") (auto simp: serve_bucket_def try_consume_eq Let_def bucket_ok_def)
qed

lemma bucket_new_ok [simp]: "bucket_ok cfg (bucket_new (burst_size cfg) t)"
  by (simp add: bucket_ok_def bucket_new_def burst_of_bounds)

lemma refilled_new:
  assumes "requests_per_second cfg = Fin r" "now \<le> t"
  shows "refilled cfg now (bucket_new (burst_size cfg) t) = Fin (burst_of cfg)"
proof -
  have "duration_since now t = 0" using assms(2) by (simp add: duration_since_def)
  moreover have "rnd (burst_of cfg) = Fin (burst_of cfg)"
    unfolding burst_of_def by (rule rnd_of_nat [OF unat_u32_le])
  ultimately show ?thesis using assms(1)
    by (simp add: refilled_def new_tokens_def bucket_new_def f_min_def)
qed

text \<open>
  A bucket left alone for the time-to-live is full again, when the rate earns a burst in that
  time (and the time-to-live is below \<open>2 ^ 53\<close> seconds, where whole seconds are exact).
\<close>

definition refills_in_ttl :: "rate_limit_config \<Rightarrow> bool" where
  "refills_in_ttl cfg = (entry_ttl cfg < 2 ^ 53 * 1000000000 \<and>
     f_le (Fin (burst_of cfg)) (f_mul (as_secs_f64 (entry_ttl cfg)) (requests_per_second cfg)))"

lemma f_mul_mono:
  assumes "f_le a b" "f_le (Fin 0) a" "0 \<le> r"
  shows "f_mul b (Fin r) = NaN \<or> f_le (f_mul a (Fin r)) (f_mul b (Fin r))"
proof (cases a; cases b)
  fix x y assume "a = Fin x" "b = Fin y"
  then show ?thesis using assms f_le_rnd [of "x * r" "y * r"] by (simp add: mult_right_mono)
qed (use assms in \<open>auto simp: f_inf_def sgn_if\<close>)

lemma refilled_full:
  assumes "rate_ok cfg" "bucket_ok cfg b" "refills_in_ttl cfg" "last_update b + entry_ttl cfg \<le> now"
  shows "refilled cfg now b = Fin (burst_of cfg)"
proof -
  from assms(1) obtain r where r: "requests_per_second cfg = Fin r" "0 \<le> r"
    by (auto simp: rate_ok_def split: f64.splits)
  from assms(2) obtain x where x: "tokens b = Fin x" "0 \<le> x"
    by (auto simp: bucket_ok_def split: f64.splits)
  let ?n = "new_tokens cfg now b"
  have "entry_ttl cfg \<le> duration_since now (last_update b)"
    using assms(4) by (simp add: duration_since_def)
  then have "f_le (as_secs_f64 (entry_ttl cfg)) (as_secs_f64 (duration_since now (last_update b)))"
    using assms(3) by (intro as_secs_mono) (simp_all add: refills_in_ttl_def)
  from f_mul_mono [OF this as_secs_nonneg r(2)]
  have "?n = NaN \<or> f_le (Fin (burst_of cfg)) ?n"
    using assms(3) r(1) f_le_trans by (auto simp: refills_in_ttl_def new_tokens_def)
  then show ?thesis
  proof
    assume n: "f_le (Fin (burst_of cfg)) ?n"
    have "f_le (Fin (burst_of cfg)) (f_add (Fin x) ?n)"
    proof (cases ?n)
      case (Fin m)
      then have "burst_of cfg \<le> x + m" using n x(2) by simp
      then show ?thesis using rnd_ge_nat [OF unat_u32_le] by (simp add: Fin burst_of_def)
    qed (use n in simp_all)
    then show ?thesis by (simp add: refilled_def x f_min_eq_right)
  qed (simp add: refilled_def x f_min_def)
qed

section \<open>Independent buckets: the abstract limiter\<close>

text \<open>
  The specification: every address has a bucket of its own from its first request on, and
  nothing is ever thrown away.
\<close>

primrec ideal_run ::
  "rate_limit_config \<Rightarrow> arrival list \<Rightarrow> (ip_addr \<Rightarrow> token_bucket option) \<Rightarrow> rate_limit_result option list" where
  "ideal_run cfg [] B = []"
| "ideal_run cfg (a # as) B =
     (let b = (case B (arrival_ip a) of Some b \<Rightarrow> b | None \<Rightarrow> bucket_new (burst_size cfg) (fst (snd a)));
          (r, b') = serve_bucket cfg (fst a) b
      in r # ideal_run cfg as (B(arrival_ip a \<mapsto> b')))"

text \<open>
  The simulation relation at time \<open>t\<close>: a bucket the limiter holds is the specification's, and
  one it has dropped is stale.
\<close>

fun bucket_sim ::
  "rate_limit_config \<Rightarrow> instant \<Rightarrow> token_bucket option \<Rightarrow> token_bucket option \<Rightarrow> bool" where
  "bucket_sim cfg t (Some b) (Some b') = (b = b' \<and> bucket_ok cfg b \<and> last_update b \<le> t)"
| "bucket_sim cfg t None (Some b') = (bucket_ok cfg b' \<and> last_update b' + entry_ttl cfg \<le> t)"
| "bucket_sim cfg t None None = True"
| "bucket_sim cfg t (Some b) None = False"

fun_cases bucket_simE: "bucket_sim cfg t x y"

definition tracks ::
  "rate_limit_config \<Rightarrow> instant \<Rightarrow> (ip_addr \<Rightarrow> token_bucket option) \<Rightarrow> rate_limiter \<Rightarrow> bool" where
  "tracks cfg t B l = (rl_config l = cfg \<and> wf_map (buckets l) \<and>
     (\<forall>ip. bucket_sim cfg t (map_of (buckets l) ip) (B ip)))"

lemma bucket_sim_disj:
  assumes "bucket_sim cfg t x y"
  obtains "x = y" | b where "x = None" "y = Some b" "bucket_ok cfg b" "last_update b + entry_ttl cfg \<le> t"
  using assms by (elim bucket_simE) auto

lemma bucket_sim_later: "bucket_sim cfg t x y \<Longrightarrow> t \<le> t' \<Longrightarrow> bucket_sim cfg t' x y"
  by (erule bucket_simE) auto

lemma tracks_later: "tracks cfg t B l \<Longrightarrow> t \<le> t' \<Longrightarrow> tracks cfg t' B l"
  unfolding tracks_def using bucket_sim_later by blast

lemma bucket_sim_cleanup:
  assumes "bucket_sim cfg now x y"
  shows "bucket_sim cfg now (case x of None \<Rightarrow> None
     | Some b \<Rightarrow> if duration_since now (last_update b) < entry_ttl cfg then Some b else None) y"
  using assms by (cases rule: bucket_simE) (auto simp: duration_since_def)

lemma tracks_cleanup:
  assumes "tracks cfg now B l"
  shows "tracks cfg now B (cleanup_stale_entries now l)"
proof -
  have "bucket_sim cfg now (map_of (buckets (cleanup_stale_entries now l)) ip) (B ip)" for ip
  proof -
    have "bucket_sim cfg now (map_of (buckets l) ip) (B ip)" using assms by (simp add: tracks_def)
    from bucket_sim_cleanup [OF this] show ?thesis
      using assms by (simp add: tracks_def cleanup_stale_entries_def map_of_filter cong: option.case_cong)
  qed
  then show ?thesis using assms by (simp add: tracks_def cleanup_stale_entries_def)
qed

lemma tracks_update:
  assumes "tracks cfg t B l" "bucket_ok cfg b" "last_update b \<le> t"
  shows "tracks cfg t (B(ip \<mapsto> b)) (l\<lparr>buckets := AList.update ip b (buckets l)\<rparr>)"
  using assms by (simp add: tracks_def)

lemma tracks_bucket_ok: "tracks cfg t B l \<Longrightarrow> B ip = Some b \<Longrightarrow> bucket_ok cfg b"
  unfolding tracks_def by (metis bucket_sim.simps(1,2) option.exhaust)

definition enabled_rate :: "rate_limit_config \<Rightarrow> bool" where
  "enabled_rate cfg = (\<not> f_le (Fin 1000000) (requests_per_second cfg))"

lemma check_simulates:
  assumes sim: "tracks cfg t B l" and cfg: "rate_ok cfg" "refills_in_ttl cfg" "enabled_rate cfg"
    and time: "t \<le> now" "now \<le> created"
    and b: "b = (case B ip of Some b \<Rightarrow> b | None \<Rightarrow> bucket_new (burst_size cfg) created)"
  shows "fst (check_rate_limit now created ip l) = fst (serve_bucket cfg now b)
    \<and> tracks cfg now (B(ip \<mapsto> snd (serve_bucket cfg now b))) (snd (check_rate_limit now created ip l))"
proof -
  define l1 where "l1 = periodic_cleanup now l"
  define c where "c = (case map_of (buckets l1) ip of Some b \<Rightarrow> b | None \<Rightarrow> bucket_new (burst_size cfg) created)"
  have "tracks cfg now B l" using sim time(1) by (rule tracks_later)
  then have sim1: "tracks cfg now B l1"
    using tracks_cleanup by (auto simp: l1_def periodic_cleanup_def tracks_def)
  have bok: "bucket_ok cfg b" using tracks_bucket_ok [OF sim1] by (auto simp: b split: option.splits)
  from cfg(1) obtain r where r: "requests_per_second cfg = Fin r"
    by (auto simp: rate_ok_def split: f64.splits)
  have "bucket_sim cfg now (map_of (buckets l1) ip) (B ip)" using sim1 by (simp add: tracks_def)
  then have "refilled cfg now c = refilled cfg now b"
  proof (rule bucket_sim_disj)
    fix b' assume 2: "map_of (buckets l1) ip = None" "B ip = Some b'" "bucket_ok cfg b'"
      "last_update b' + entry_ttl cfg \<le> now"
    then have "refilled cfg now b' = Fin (burst_of cfg)" using refilled_full [OF cfg(1) _ cfg(2)] by blast
    with 2 show ?thesis using refilled_new [OF r time(2)] by (simp add: b c_def)
  qed (simp_all add: b c_def)
  then have eq: "serve_bucket cfg now c = serve_bucket cfg now b" by (rule serve_bucket_cong)
  obtain res b' where sb: "serve_bucket cfg now b = (res, b')" by (cases "serve_bucket cfg now b")
  have conf: "rl_config l1 = cfg" "rl_config l = cfg" using sim1 sim by (simp_all add: tracks_def)
  have step: "check_rate_limit now created ip l = (res, l1\<lparr>buckets := AList.update ip b' (buckets l1)\<rparr>)"
  proof -
    have c: "(case map_of (buckets l1) ip of Some b \<Rightarrow> b
        | None \<Rightarrow> bucket_new (burst_size (rl_config l1)) created) = c" unfolding c_def conf ..
    show ?thesis using cfg(3) sb eq
      by (simp add: check_rate_limit_def enabled_rate_def c flip: l1_def) (simp add: conf)
  qed
  have "bucket_ok cfg b' \<and> last_update b' = now" using serve_bucket_ok [OF cfg(1) bok, of now] sb by simp
  then show ?thesis using tracks_update [OF sim1, of b'] by (simp add: step sb)
qed

text \<open>A history in the order of one clock: the readings on entry never decrease.\<close>

fun in_order :: "instant \<Rightarrow> arrival list \<Rightarrow> bool" where
  "in_order t [] = True"
| "in_order t ((now, created, ip) # as) = (t \<le> now \<and> now \<le> created \<and> in_order now as)"

lemma run_simulates:
  assumes "tracks cfg t B l" "rate_ok cfg" "refills_in_ttl cfg" "enabled_rate cfg" "in_order t as"
  shows "fst (rl_run as l) = ideal_run cfg as B"
  using assms
proof (induction as arbitrary: t B l)
  case (Cons a as)
  obtain now created ip where a: "a = (now, created, ip)" by (cases a)
  from Cons.prems(5) have o: "t \<le> now" "now \<le> created" "in_order now as" by (simp_all add: a)
  define b where "b = (case B ip of Some b \<Rightarrow> b | None \<Rightarrow> bucket_new (burst_size cfg) created)"
  note step = check_simulates [OF Cons.prems(1-4) o(1,2) b_def]
  from Cons.IH [OF conjunct2 [OF step] Cons.prems(2-4) o(3)] conjunct1 [OF step]
  have "fst (rl_run (a # as) l) = fst (serve_bucket cfg now b)
      # ideal_run cfg as (B(ip \<mapsto> snd (serve_bucket cfg now b)))"
    by (simp add: a split_beta del: fun_upd_apply)
  then show ?case by (simp only: ideal_run.simps a fst_conv snd_conv b_def [symmetric] Let_def split_beta)
qed simp

lemma tracks_new [simp]: "tracks cfg t (\<lambda>_. None) (rl_new cfg t0)"
  by (simp add: tracks_def rl_new_def)

text \<open>In the specification an address sees its own requests only.\<close>

lemma ideal_filter:
  "map snd (filter (\<lambda>x. arrival_ip (fst x) = ip) (zip as (ideal_run cfg as B)))
   = ideal_run cfg (filter (\<lambda>a. arrival_ip a = ip) as) (B |` {ip})"
proof (induction as arbitrary: B)
  case (Cons a as)
  have *: "(B(ip' \<mapsto> b)) |` {ip} = (if ip' = ip then (B |` {ip})(ip \<mapsto> b) else B |` {ip})" for ip' b
    by (auto simp: restrict_map_def fun_eq_iff)
  show ?case
    by (simp add: Cons.IH * split_beta Let_def del: fun_upd_apply)
qed simp

lemma in_order_filter: "in_order t as \<Longrightarrow> in_order t (filter P as)"
proof (induction as arbitrary: t)
  case (Cons a as)
  obtain now created ip where a: "a = (now, created, ip)" by (cases a)
  have "in_order s xs \<Longrightarrow> u \<le> s \<Longrightarrow> in_order u xs" for s u xs
    by (cases xs rule: list.exhaust) (auto elim: in_order.elims)
  then show ?case using Cons by (auto simp: a)
qed simp

section \<open>The configurations of the constructors\<close>

lemma as_secs_whole: "s \<le> 2 ^ 53 \<Longrightarrow> as_secs_f64 (from_secs s) = Fin (of_nat s)"
  by (simp add: as_secs_f64_def f_of_nat_def rnd_of_nat)

lemma per_minute_rate:
  assumes "1 \<le> rpm" "rpm < 60000000"
  obtains r where "requests_per_second (per_minute rpm) = Fin r" "r = rr (of_nat (unat rpm) / 60)"
    "1 / 64 \<le> r" "r \<le> 999999 + 63 / 64"
    "burst_of (per_minute rpm) \<le> 3 * r + 1"
proof -
  define n where "n = unat rpm"
  have n: "1 \<le> n" "n \<le> 59999999" using assms by (simp_all add: n_def word_le_nat_alt word_less_nat_alt)
  define r where "r = rr (of_nat n / 60)"
  have "(of_nat 1 :: rat) \<le> of_nat n" "(of_nat n :: rat) \<le> of_nat 59999999"
    using n by (blast intro: of_nat_mono)+
  then have q: "1 / 64 \<le> (of_nat n / 60 :: rat)" "of_nat n / 60 \<le> (63999999 / 64 :: rat)" by simp_all
  have "rr (1 / 64) = 1 / 64" "rr (63999999 / 64) = 63999999 / 64"
    using rr_exact [of 1 "-6"] rr_exact [of 63999999 "-6"] by (simp_all add: power_int_minus)
  then have r: "1 / 64 \<le> r" "r \<le> 63999999 / 64"
    using rr_mono [OF q(1)] rr_mono [OF q(2)] by (simp_all add: r_def)
  have small: "x \<le> 10 ^ 9 \<Longrightarrow> 0 \<le> x \<Longrightarrow> rnd x = Fin (rr x)" for x
  proof (rule rnd_Fin)
    assume x: "x \<le> 10 ^ 9" "0 \<le> x"
    have "rr x \<le> rr (of_nat (10 ^ 9))" using x(1) by (intro rr_mono) simp
    also have "\<dots> = of_nat (10 ^ 9)" by (rule rr_of_nat) simp
    finally show "\<bar>rr x\<bar> < f_big" using x(2) by (simp add: rr_nonneg f_big_def)
  qed
  have rps: "requests_per_second (per_minute rpm) = Fin r"
  proof -
    have "f_of_nat n = Fin (of_nat n)" unfolding f_of_nat_def using n(2) by (intro rnd_of_nat) simp
    then show ?thesis
      using q by (simp add: per_minute_def per_second_def rate_config_new_def small r_def flip: n_def)
  qed
  define y where "y = rr (r * 2)"
  have "\<bar>y - r * 2\<bar> \<le> r * 2 * 2 powi (- 53)"
    unfolding y_def using r(1) by (intro rr_rel_error) (simp add: power_int_minus)
  then have "\<bar>y - r * 2\<bar> \<le> r"
    using r(1) abs_ge_zero [of "y - r * 2"] by (simp add: power_int_minus)
  then have y: "0 \<le> y" "y \<le> 3 * r" using r(1) by linarith+
  define c where "c = \<lceil>y\<rceil>"
  have c: "0 \<le> c" "of_int c \<le> y + 1" using y(1) by (simp_all add: c_def)
  then have c2: "c \<le> 3000001" using y(2) r(2) by linarith
  have "f_ceil (f_mul (Fin r) (Fin 2)) = Fin (of_int c)"
    using r c c2 rnd_of_int [of c] by (simp add: small y_def [symmetric] c_def [symmetric])
  then have "burst_size (per_minute rpm) = of_nat (nat c)"
    using rps c c2 by (simp add: per_minute_def per_second_def rate_config_new_def f_to_u32_def)
  then have "burst_of (per_minute rpm) = of_int c"
  proof -
    assume b: "burst_size (per_minute rpm) = of_nat (nat c)"
    have "take_bit 32 (nat c) = nat c" using c2 by (intro take_bit_nat_eq_self) simp
    then have "unat (of_nat (nat c) :: u32) = nat c" by (simp only: unsigned_of_nat) simp
    then show ?thesis unfolding burst_of_def b using c(1) by (simp del: of_nat_unat)
  qed
  then show thesis using that [OF rps] r c y by (simp add: r_def n_def)
qed

lemma per_minute_ok:
  assumes "1 \<le> rpm" "rpm < 60000000"
  shows "rate_ok (per_minute rpm)" "refills_in_ttl (per_minute rpm)" "enabled_rate (per_minute rpm)"
proof -
  obtain r where r: "requests_per_second (per_minute rpm) = Fin r" "1 / 64 \<le> r" "r \<le> 999999 + 63 / 64"
    "burst_of (per_minute rpm) \<le> 3 * r + 1" using assms by (rule per_minute_rate)
  have ttl: "entry_ttl (per_minute rpm) = from_secs 300"
    by (simp add: per_minute_def per_second_def rate_config_new_def)
  show "rate_ok (per_minute rpm)" using r by (simp add: rate_ok_def)
  show "enabled_rate (per_minute rpm)" using r by (simp add: enabled_rate_def)
  have "burst_of (per_minute rpm) \<le> 300 * r" using r by linarith
  then have "f_le (Fin (burst_of (per_minute rpm))) (rnd (300 * r))"
    unfolding burst_of_def by (rule rnd_ge_nat [OF unat_u32_le])
  moreover have "as_secs_f64 (from_secs 300) = Fin 300" using as_secs_whole [of 300] by simp
  ultimately show "refills_in_ttl (per_minute rpm)"
    unfolding refills_in_ttl_def ttl r(1) by simp
qed

section \<open>Invariant of the limiter\<close>

definition rl_inv :: "rate_limiter \<Rightarrow> bool" where
  "rl_inv l = (wf_map (buckets l) \<and> list_all (\<lambda>(ip, b). bucket_ok (rl_config l) b) (buckets l))"

lemma rl_inv_lookup: "rl_inv l \<Longrightarrow> map_of (buckets l) ip = Some b \<Longrightarrow> bucket_ok (rl_config l) b"
  by (auto simp: rl_inv_def list_all_iff dest!: map_of_SomeD)

lemma rl_inv_new [simp, inv_intros]: "rl_inv (rl_new cfg t)"
  by (simp add: rl_inv_def rl_new_def)

lemma config_cleanup [simp]: "rl_config (periodic_cleanup now l) = rl_config l"
  by (simp add: periodic_cleanup_def cleanup_stale_entries_def)

lemma rl_inv_cleanup [inv_intros]: "rl_inv l \<Longrightarrow> rl_inv (periodic_cleanup now l)"
  by (auto simp: rl_inv_def periodic_cleanup_def cleanup_stale_entries_def list_all_iff)

lemma rl_inv_update [inv_intros]:
  assumes "rl_inv l" "bucket_ok (rl_config l) b"
  shows "rl_inv (l\<lparr>buckets := AList.update ip b (buckets l)\<rparr>)"
proof -
  let ?m = "AList.update ip b (buckets l)"
  have wf: "wf_map ?m" using assms by (simp add: rl_inv_def)
  have "bucket_ok (rl_config l) b'" if "(ip', b') \<in> set ?m" for ip' b'
  proof -
    have "map_of ?m ip' = Some b'" using wf that by (rule map_of_is_SomeI)
    then show ?thesis using assms rl_inv_lookup by (auto split: if_splits)
  qed
  with wf show ?thesis by (auto simp: rl_inv_def list_all_iff)
qed

text \<open>A check of an enabled limiter serves the bucket found after the cleanup.\<close>

definition bucket_for :: "instant \<Rightarrow> instant \<Rightarrow> ip_addr \<Rightarrow> rate_limiter \<Rightarrow> token_bucket" where
  "bucket_for now created ip l = (case map_of (buckets (periodic_cleanup now l)) ip of
     Some b \<Rightarrow> b | None \<Rightarrow> bucket_new (burst_size (rl_config l)) created)"

lemma check_serves:
  assumes "enabled_rate (rl_config l)"
  shows "check_rate_limit now created ip l = (let l1 = periodic_cleanup now l in
     (fst (serve_bucket (rl_config l) now (bucket_for now created ip l)),
      l1\<lparr>buckets := AList.update ip (snd (serve_bucket (rl_config l) now (bucket_for now created ip l)))
         (buckets l1)\<rparr>))"
  using assms by (simp add: check_rate_limit_def enabled_rate_def bucket_for_def Let_def split_beta cong: option.case_cong)

lemma check_disabled:
  "\<not> enabled_rate (rl_config l) \<Longrightarrow> check_rate_limit now created ip l = (Some Allowed, l)"
  by (simp add: check_rate_limit_def enabled_rate_def)

lemma bucket_for_ok: "rl_inv l \<Longrightarrow> bucket_ok (rl_config l) (bucket_for now created ip l)"
  using rl_inv_lookup [OF rl_inv_cleanup, of l now ip]
  by (auto simp: bucket_for_def split: option.splits)

lemma config_check [simp]: "rl_config (snd (check_rate_limit now created ip l)) = rl_config l"
  by (cases "enabled_rate (rl_config l)") (simp_all add: check_serves check_disabled Let_def)

lemma rl_inv_check [inv_intros]:
  assumes "rl_inv l" "rate_ok (rl_config l)"
  shows "rl_inv (snd (check_rate_limit now created ip l))"
proof (cases "enabled_rate (rl_config l)")
  case True
  then show ?thesis
    using rl_inv_update [OF rl_inv_cleanup [OF assms(1)]] serve_bucket_ok [OF assms(2) bucket_for_ok [OF assms(1)]]
    by (simp add: check_serves Let_def)
qed (simp add: check_disabled assms)

lemma rl_run_induct:
  assumes "P l" "\<And>l a. P l \<Longrightarrow> P (snd (check_rate_limit (fst a) (fst (snd a)) (arrival_ip a) l))"
  shows "P (snd (rl_run as l))"
  using assms(1) by (induction as arbitrary: l) (simp_all add: split_beta assms(2))

lemma rl_run_results:
  assumes "P l" "\<And>l a. P l \<Longrightarrow> P (snd (check_rate_limit (fst a) (fst (snd a)) (arrival_ip a) l))"
    and "\<And>l a. P l \<Longrightarrow> Q (fst (check_rate_limit (fst a) (fst (snd a)) (arrival_ip a) l))"
  shows "list_all Q (fst (rl_run as l))"
  using assms(1) by (induction as arbitrary: l) (simp_all add: split_beta assms(2,3))

text \<open>The wait is a duration the standard library accepts when the rate is not too small.\<close>

lemma wait_defined:
  assumes "requests_per_second cfg = Fin r" "1 / 2 ^ 30 \<le> r" "bucket_ok cfg b"
  shows "time_until_next_token cfg b \<noteq> None"
proof -
  from assms(3) obtain x where x: "tokens b = Fin x" "0 \<le> x"
    by (auto simp: bucket_ok_def split: f64.splits)
  have pos: "0 < r" using assms(2) by (rule less_le_trans [rotated]) simp
  show ?thesis
  proof (cases "1 \<le> x")
    case False
    have "rr (1 - x) \<le> rr 1" using x(2) by (intro rr_mono) simp
    then have p: "0 \<le> rr (1 - x)" "rr (1 - x) \<le> 1"
      using False rr_of_nat [of 1] by (simp_all add: rr_nonneg)
    then have sub: "f_sub (Fin 1) (Fin x) = Fin (rr (1 - x))"
      by (simp add: f_sub_def rnd_Fin f_big_def)
    have "rr (1 - x) / r \<le> 1 / (1 / 2 ^ 30)" using p assms(2) pos by (intro frac_le) simp_all
    then have "rr (rr (1 - x) / r) \<le> rr (of_nat (2 ^ 30))" by (intro rr_mono) simp
    also have "\<dots> = of_nat (2 ^ 30)" by (rule rr_of_nat) simp
    finally have q: "0 \<le> rr (rr (1 - x) / r)" "rr (rr (1 - x) / r) \<le> 2 ^ 30"
      using p pos by (simp_all add: rr_nonneg)
    then have d: "f_div (Fin (rr (1 - x))) (Fin r) = Fin (rr (rr (1 - x) / r))"
      using pos by (simp add: rnd_Fin f_big_def)
    have "rne (rr (rr (1 - x) / r) * 1000000000) \<le> 2 ^ 30 * 1000000000"
      using q by (intro rne_le_int) simp
    then have "nat (rne (rr (rr (1 - x) / r) * 1000000000)) \<le> 2 ^ 30 * 1000000000" by simp
    then have "from_secs_f64 (Fin (rr (rr (1 - x) / r))) \<noteq> None" using q by simp
    moreover have "time_until_next_token cfg b = from_secs_f64 (f_div (f_sub (Fin 1) (Fin x)) (Fin r))"
      using False unfolding time_until_next_token_def x(1) assms(1) by simp
    ultimately show ?thesis unfolding sub d by simp
  qed (simp add: time_until_next_token_def x)
qed

section \<open>A burst at one instant\<close>

lemma refilled_same_instant:
  assumes "rate_ok cfg" "tokens b = Fin (of_nat k)" "of_nat k \<le> burst_of cfg" "last_update b = now"
  shows "refilled cfg now b = Fin (of_nat k)"
proof -
  from assms(1) obtain r where r: "requests_per_second cfg = Fin r"
    by (auto simp: rate_ok_def split: f64.splits)
  have "(of_nat k :: rat) \<le> of_nat (unat (burst_size cfg))" using assms(3) by (simp add: burst_of_def)
  then have "k \<le> unat (burst_size cfg)" by (simp only: of_nat_le_iff)
  then have "rnd (of_nat k) = Fin (of_nat k)" using unat_u32_le le_trans by (blast intro: rnd_of_nat)
  then show ?thesis using assms r
    by (simp add: refilled_def new_tokens_def duration_since_def f_min_def)
qed

lemma serve_tokens:
  assumes "refilled cfg now b = Fin (of_nat k)" "k \<le> 2 ^ 53"
  shows "serve_bucket cfg now b = (if k = 0
     then (map_option RateLimited (time_until_next_token cfg \<lparr>tokens = Fin 0, last_update = now\<rparr>),
           \<lparr>tokens = Fin 0, last_update = now\<rparr>)
     else (Some Allowed, \<lparr>tokens = Fin (of_nat (k - 1)), last_update = now\<rparr>))"
proof (cases k)
  case (Suc j)
  have "rnd (of_nat j) = Fin (of_nat j)" using assms(2) Suc by (intro rnd_of_nat) simp
  then show ?thesis using assms(1) Suc
    by (simp add: serve_bucket_def try_consume_eq f_sub_def)
qed (use assms in \<open>simp add: serve_bucket_def try_consume_eq\<close>)

lemma run_burst:
  assumes "rate_ok (rl_config l)" "enabled_rate (rl_config l)" "0 < entry_ttl (rl_config l)" "wf_map (buckets l)"
    and "refilled (rl_config l) now (bucket_for now created ip l) = Fin (of_nat k)"
    and "of_nat k \<le> burst_of (rl_config l)"
  shows "map (\<lambda>r. r = Some Allowed) (fst (rl_run (replicate n (now, created, ip)) l))
     = replicate (min n k) True @ replicate (n - k) False"
  using assms
proof (induction n arbitrary: l k)
  case (Suc n)
  define l' where "l' = snd (check_rate_limit now created ip l)"
  have "(of_nat k :: rat) \<le> of_nat (unat (burst_size (rl_config l)))" using Suc.prems(6) by (simp add: burst_of_def)
  then have "k \<le> unat (burst_size (rl_config l))" by (simp only: of_nat_le_iff)
  then have k: "k \<le> 2 ^ 53" using unat_u32_le le_trans by blast
  note serve = serve_tokens [OF Suc.prems(5) k]
  have wf1: "wf_map (buckets (periodic_cleanup now l))"
    using Suc.prems(4) by (simp add: periodic_cleanup_def cleanup_stale_entries_def)
  have conf: "rl_config l' = rl_config l" by (simp add: l'_def)
  have wf: "wf_map (buckets l')" using wf1 Suc.prems(2) by (simp add: l'_def check_serves Let_def)
  have "map_of (buckets l') ip = Some \<lparr>tokens = Fin (of_nat (k - 1)), last_update = now\<rparr>"
    using Suc.prems(2) serve by (simp add: l'_def check_serves Let_def)
  then have b: "bucket_for now created ip l' = \<lparr>tokens = Fin (of_nat (k - 1)), last_update = now\<rparr>"
    using wf Suc.prems(3) conf
    by (simp add: bucket_for_def periodic_cleanup_def cleanup_stale_entries_def map_of_filter duration_since_def)
  have le: "of_nat (k - 1) \<le> burst_of (rl_config l)"
    using Suc.prems(6) of_nat_mono [of "k - 1" k, where ?'a = rat] by simp
  have "refilled (rl_config l') now (bucket_for now created ip l') = Fin (of_nat (k - 1))"
    unfolding conf b by (rule refilled_same_instant) (use Suc.prems(1) le in simp_all)
  from Suc.IH [OF _ _ _ wf this] have
    "map (\<lambda>r. r = Some Allowed) (fst (rl_run (replicate n (now, created, ip)) l'))
      = replicate (min n (k - 1)) True @ replicate (n - (k - 1)) False"
    using Suc.prems(1-3) le by (simp add: conf)
  moreover have "fst (check_rate_limit now created ip l) = Some Allowed \<longleftrightarrow> k \<noteq> 0"
    using Suc.prems(2) serve by (auto simp: check_serves Let_def)
  ultimately show ?case by (cases k) (simp_all add: split_beta flip: l'_def)
qed simp

section \<open>Rounding of the refill\<close>

lemma as_secs_upper:
  assumes "d < 2 ^ 53 * 1000000000"
  obtains p where "as_secs_f64 d = Fin p" "0 \<le> p" "p \<le> secs_of d * (1 + 2 powi (- 53)) ^ 2"
proof -
  let ?s = "d div 1000000000" and ?f = "d mod 1000000000" and ?u = "1 + 2 powi (- 53) :: rat"
  obtain q where q: "as_secs_f64 d = rnd (of_nat ?s + q)" "q = rr (of_nat ?f / 1000000000)" "0 \<le> q" "q \<le> 1"
    using assms by (rule as_secs_exact_whole)
  have u: "1 \<le> ?u" by simp
  have rel: "rr x \<le> x * ?u" if "x = 0 \<or> 2 powi (- 1000) \<le> x" for x
  proof (cases "x = 0")
    case False
    with that have "\<bar>rr x - x\<bar> \<le> x * 2 powi (- 53)" by (intro rr_rel_error) simp
    then have "rr x - x \<le> x * 2 powi (- 53)" by linarith
    then show ?thesis by (simp only: distrib_left mult_1_right)
  qed simp
  have tiny: "(2::rat) powi (- 1000) \<le> 1 / 1000000000"
    using powi_2_mono [of "-1000" "-30"] by (simp add: power_int_minus)
  have ns: "n = 0 \<or> 2 powi (- 1000) \<le> of_nat n / (1000000000 :: rat)" for n :: nat
  proof (cases "n = 0")
    case False
    then have "(of_nat 1 :: rat) \<le> of_nat n" by (intro of_nat_mono) simp
    then have "(1 :: rat) / 1000000000 \<le> of_nat n / 1000000000" by (intro divide_right_mono) simp_all
    with tiny show ?thesis by linarith
  qed simp
  have split: "secs_of d = of_nat ?s + of_nat ?f / 1000000000"
  proof -
    have "(of_nat d :: rat) = of_nat (?s * 1000000000 + ?f)" by simp
    also have "\<dots> = of_nat ?s * 1000000000 + of_nat ?f" by (simp only: of_nat_add of_nat_mult of_nat_numeral)
    finally show ?thesis by (simp add: field_simps)
  qed
  have "q \<le> of_nat ?f / 1000000000 * ?u" unfolding q(2) using ns [of ?f] by (intro rel) auto
  moreover have "(of_nat ?s :: rat) \<le> of_nat ?s * ?u" using u mult_left_mono [of 1 ?u "of_nat ?s"] by simp
  ultimately have z: "of_nat ?s + q \<le> secs_of d * ?u" unfolding split distrib_right by linarith
  have z0: "of_nat ?s + q = 0 \<or> 2 powi (- 1000) \<le> of_nat ?s + q"
  proof (cases "?s = 0")
    case True
    show ?thesis
    proof (cases "?f = 0")
      case False
      have "1 / 2 ^ 30 \<le> (of_nat ?f / 1000000000 :: rat)"
        using of_nat_mono [of 1 ?f, where ?'a = rat] False by simp
      then have "rr (2 powi (- 30)) \<le> q" unfolding q(2) by (intro rr_mono) (simp add: power_int_minus)
      then have "(2::rat) powi (- 30) \<le> q" by (simp only: rr_powi)
      then show ?thesis using powi_2_mono [of "-1000" "-30"] True by simp
    qed (simp add: True q(2))
  next
    case False
    then have "(of_nat 1 :: rat) \<le> of_nat ?s" by (intro of_nat_mono) simp
    then show ?thesis using q(3) powi_2_mono [of "-1000" 0] by simp
  qed
  have "rr (of_nat ?s + q) \<le> (of_nat ?s + q) * ?u" using z0 by (rule rel)
  also have "\<dots> \<le> secs_of d * ?u * ?u" using z by (intro mult_right_mono) simp_all
  finally have p: "rr (of_nat ?s + q) \<le> secs_of d * ?u ^ 2" by (simp add: power2_eq_square)
  have "?s + 1 \<le> 2 ^ 53" using assms by auto
  then have "(of_nat (?s + 1) :: rat) \<le> of_nat (2 ^ 53)" by (rule of_nat_mono)
  then have "rr (of_nat ?s + q) \<le> rr (of_nat (2 ^ 53))" using q(4) by (intro rr_mono) simp
  also have "\<dots> = of_nat (2 ^ 53)" by (rule rr_of_nat) simp
  finally have "rr (of_nat ?s + q) < f_big" by (simp add: f_big_def)
  then show thesis using p q(3) by (intro that [of "rr (of_nat ?s + q)"]) (simp_all add: q(1) rnd_Fin rr_nonneg)
qed

lemma refill_error:
  assumes rate: "requests_per_second cfg = Fin r" "0 \<le> r"
    and b: "tokens b = Fin x" "0 \<le> x" "x \<le> burst_of cfg"
    and el: "duration_since now (last_update b) < 2 ^ 53 * 1000000000"
    and y: "refilled cfg now b = Fin y" "y \<le> burst_of cfg"
  shows "y \<le> x + r * secs_of (duration_since now (last_update b)) + 1 / 262144"
proof -
  define e where "e = secs_of (duration_since now (last_update b))"
  note burst = burst_of_bounds(2) [of cfg]
  have e: "0 \<le> r * e" using rate(2) by (simp add: e_def)
  have "y \<le> x + r * e + 1 / 262144"
  proof (cases "2 ^ 32 \<le> r * e")
    case True
    then show ?thesis using y(2) burst b(2) by simp
  next
    case False
    obtain p where p: "as_secs_f64 (duration_since now (last_update b)) = Fin p" "0 \<le> p"
      "p \<le> e * (1 + 2 powi (- 53)) ^ 2" using el unfolding e_def by (rule as_secs_upper)
    have "p * r \<le> e * (1 + 2 powi (- 53)) ^ 2 * r" using p(3) rate(2) by (rule mult_right_mono)
    also have "\<dots> = r * e * (1 + 2 powi (- 53)) ^ 2" by (simp only: mult_ac)
    also have "\<dots> \<le> r * e * (1 + 1 / 2 ^ 51)"
      using e by (intro mult_left_mono) (simp_all add: power_int_minus power2_eq_square)
    also have "\<dots> = r * e + r * e / 2 ^ 51" by (simp add: field_simps)
    finally have "p * r \<le> r * e + r * e / 2 ^ 51" .
    moreover define w where "w = r * e / 2 ^ 51"
    moreover have "w \<le> 2 ^ 32 / 2 ^ 51" unfolding w_def using False by (intro divide_right_mono) simp_all
    moreover have "(2::rat) ^ 32 / 2 ^ 51 = 1 / 2 ^ 19" by simp
    ultimately have pr: "p * r \<le> r * e + 1 / 2 ^ 19" by (simp only:)
    have pr0: "0 \<le> p * r" using p(2) rate(2) by simp
    have "\<bar>p * r\<bar> < 2 powi 33" using pr pr0 False by simp
    from rr_upper [OF this] have n: "rr (p * r) \<le> p * r + 1 / 2097152"
      by (simp add: power_int_minus)
    have n0: "0 \<le> rr (p * r)" using pr0 by (rule rr_nonneg)
    have "\<bar>x + rr (p * r)\<bar> < 2 powi 34" using n n0 pr False b(2,3) burst by simp
    from rr_upper [OF this] have z: "rr (x + rr (p * r)) \<le> x + rr (p * r) + 1 / 2 ^ 20"
      by (simp add: power_int_minus)
    have z0: "0 \<le> rr (x + rr (p * r))" using n0 b(2) by (simp add: rr_nonneg)
    have fin: "rnd (p * r) = Fin (rr (p * r))" "rnd (x + rr (p * r)) = Fin (rr (x + rr (p * r)))"
      using n n0 pr z z0 False b(3) burst by (auto intro!: rnd_Fin simp: f_big_def)
    have "y = min (rr (x + rr (p * r))) (burst_of cfg)"
      using y(1) by (auto simp: refilled_def new_tokens_def p(1) rate(1) b(1) fin f_min_def min_def split: if_splits)
    then have "y \<le> rr (x + rr (p * r))" by simp
    then show ?thesis using n z pr by simp
  qed
  then show ?thesis by (simp only: e_def)
qed

text \<open>One request: what it consumes and leaves is what it found, up to a rounding.\<close>

lemma serve_consumes:
  assumes rate: "requests_per_second cfg = Fin r" "0 \<le> r" and b: "bucket_ok cfg b"
    and "serve_bucket cfg now b = (res, b')"
  obtains y x' where "refilled cfg now b = Fin y" "0 \<le> y" "y \<le> burst_of cfg" "bucket_ok cfg b'"
    "tokens b' = Fin x'" "last_update b' = now" "(if res = Some Allowed then 1 else 0) + x' \<le> y + 1 / 2097152"
proof -
  have ok: "rate_ok cfg" using rate by (simp add: rate_ok_def)
  from ok b obtain y where y: "refilled cfg now b = Fin y" "0 \<le> y" "y \<le> burst_of cfg"
    by (rule refilled_range)
  have b': "bucket_ok cfg b'" "last_update b' = now" using serve_bucket_ok [OF ok b, of now] assms(4) by simp_all
  show thesis
  proof (cases "1 \<le> y")
    case True
    note s = sub_one_range [OF True y(3)]
    have "\<bar>y - 1\<bar> < 2 powi 33" using True y(3) burst_of_bounds(2) [of cfg] by simp
    from rr_upper [OF this] have "rr (y - 1) \<le> y - 1 + 1 / 2097152"
      by (simp add: power_int_minus)
    moreover have "res = Some Allowed" "b' = \<lparr>tokens = Fin (rr (y - 1)), last_update = now\<rparr>"
      using assms(4) y(1) True s(1) by (auto simp: serve_bucket_def try_consume_eq)
    ultimately show thesis using that [OF y b'(1)] b'(2) by simp
  next
    case False
    then have "res \<noteq> Some Allowed" "b' = \<lparr>tokens = Fin y, last_update = now\<rparr>"
      using assms(4) y(1) by (auto simp: serve_bucket_def try_consume_eq)
    then show thesis using that [OF y b'(1)] b'(2) by simp
  qed
qed

section \<open>The sustained rate\<close>

definition granted :: "ip_addr \<Rightarrow> arrival list \<Rightarrow> rate_limit_result option list \<Rightarrow> nat" where
  "granted ip as rs = length (filter (\<lambda>(a, r). arrival_ip a = ip \<and> r = Some Allowed) (zip as rs))"

lemma granted_Cons [simp]:
  "granted ip (a # as) (r # rs) = (if arrival_ip a = ip \<and> r = Some Allowed then 1 else 0) + granted ip as rs"
  by (simp add: granted_def)

lemma granted_Nil [simp]: "granted ip [] rs = 0"
  by (simp add: granted_def)

lemma secs_of_split: "a \<le> b \<Longrightarrow> b \<le> c \<Longrightarrow> secs_of (c - a) = secs_of (c - b) + secs_of (b - a)"
  by (simp add: of_nat_diff field_simps)

abbreviation slack :: "arrival list \<Rightarrow> rat" where
  "slack as \<equiv> of_nat (length as) / 131072"

lemma granted_from_bucket:
  assumes rate: "requests_per_second cfg = Fin r" "0 \<le> r" and "T < 2 ^ 53 * 1000000000"
    and "\<forall>a \<in> set as. fst a \<le> T" "in_order t as" "t \<le> T"
    and "B ip = Some b" "bucket_ok cfg b" "tokens b = Fin x" "last_update b \<le> t"
  shows "of_nat (granted ip as (ideal_run cfg as B)) \<le> x + r * secs_of (T - last_update b) + slack as"
  using assms(4-)
proof (induction as arbitrary: t B b x)
  case Nil
  then have "0 \<le> x" by (simp add: bucket_ok_def)
  then show ?case using rate(2) by simp
next
  case (Cons a as)
  obtain now created ip' where a: "a = (now, created, ip')" by (cases a)
  from Cons.prems(1,2) have o: "t \<le> now" "in_order now as" "now \<le> T" "\<forall>a \<in> set as. fst a \<le> T"
    by (simp_all add: a)
  show ?case
  proof (cases "ip' = ip")
    case False
    let ?B = "B(ip' \<mapsto> snd (serve_bucket cfg now (case B ip' of Some b \<Rightarrow> b
        | None \<Rightarrow> bucket_new (burst_size cfg) created)))"
    have "of_nat (granted ip as (ideal_run cfg as ?B)) \<le> x + r * secs_of (T - last_update b) + slack as"
      using Cons.prems o False by (intro Cons.IH [OF o(4,2,3)]) auto
    moreover have "granted ip (a # as) (ideal_run cfg (a # as) B) = granted ip as (ideal_run cfg as ?B)"
      using False by (simp add: a split_beta Let_def cong: option.case_cong)
    moreover have "slack (a # as) = slack as + 1 / 131072" by (simp add: field_simps)
    ultimately show ?thesis by linarith
  next
    case True
    obtain res b' where sb: "serve_bucket cfg now b = (res, b')" by (cases "serve_bucket cfg now b")
    obtain y x' where y: "refilled cfg now b = Fin y" "0 \<le> y" "y \<le> burst_of cfg" "bucket_ok cfg b'"
      "tokens b' = Fin x'" "last_update b' = now" "(if res = Some Allowed then 1 else 0) + x' \<le> y + 1 / 2097152"
      using rate Cons.prems(5) sb by (rule serve_consumes)
    have x: "0 \<le> x" "x \<le> burst_of cfg" using Cons.prems(5,6) by (simp_all add: bucket_ok_def)
    have last: "last_update b \<le> now" using Cons.prems(7) o(1) by simp
    have "duration_since now (last_update b) < 2 ^ 53 * 1000000000"
      using assms(3) o(3) by (simp add: duration_since_def)
    from refill_error [OF rate Cons.prems(6) x this y(1,3)]
    have "y \<le> x + r * secs_of (now - last_update b) + 1 / 262144" by (simp only: duration_since_def)
    moreover have "of_nat (granted ip as (ideal_run cfg as (B(ip \<mapsto> b')))) \<le> x' + r * secs_of (T - now) + slack as"
      using Cons.IH [OF o(4,2,3) _ y(4,5)] y(6) by simp
    moreover have "r * secs_of (T - last_update b) = r * secs_of (T - now) + r * secs_of (now - last_update b)"
      using secs_of_split [OF last o(3)] by (simp only: distrib_left)
    moreover have "slack (a # as) = slack as + 1 / 131072" by (simp add: field_simps)
    moreover have "of_nat (granted ip (a # as) (ideal_run cfg (a # as) B))
        = (if res = Some Allowed then 1 else 0 :: rat) + of_nat (granted ip as (ideal_run cfg as (B(ip \<mapsto> b'))))"
      by (simp add: a True Cons.prems(4) sb Let_def del: fun_upd_apply)
    ultimately show ?thesis using y(7) by linarith
  qed
qed

lemma granted_in_window:
  assumes rate: "requests_per_second cfg = Fin r" "0 \<le> r" and "T < 2 ^ 53 * 1000000000"
    and "\<forall>a \<in> set as. fst a \<le> T" "in_order t as" "t \<le> T"
    and "\<forall>ip b. B ip = Some b \<longrightarrow> bucket_ok cfg b"
  shows "of_nat (granted ip as (ideal_run cfg as B)) \<le> burst_of cfg + r * secs_of (T - t) + slack as"
  using assms(4-)
proof (induction as arbitrary: t B)
  case Nil
  then show ?case using rate(2) burst_of_bounds(1) by simp
next
  case (Cons a as)
  obtain now created ip' where a: "a = (now, created, ip')" by (cases a)
  from Cons.prems(1,2) have o: "t \<le> now" "in_order now as" "now \<le> T" "\<forall>a \<in> set as. fst a \<le> T"
    by (simp_all add: a)
  define b where "b = (case B ip' of Some b \<Rightarrow> b | None \<Rightarrow> bucket_new (burst_size cfg) created)"
  have b: "bucket_ok cfg b" using Cons.prems(4) by (auto simp: b_def split: option.splits)
  obtain res b' where sb: "serve_bucket cfg now b = (res, b')" by (cases "serve_bucket cfg now b")
  obtain y x' where y: "refilled cfg now b = Fin y" "0 \<le> y" "y \<le> burst_of cfg" "bucket_ok cfg b'"
    "tokens b' = Fin x'" "last_update b' = now" "(if res = Some Allowed then 1 else 0) + x' \<le> y + 1 / 2097152"
    using rate b sb by (rule serve_consumes)
  have run: "ideal_run cfg (a # as) B = res # ideal_run cfg as (B(ip' \<mapsto> b'))"
    by (simp only: a ideal_run.simps Let_def fst_conv snd_conv b_def [symmetric] sb case_prod_conv)
  have "secs_of (T - now) \<le> secs_of (T - t)" using o(1) by (intro divide_right_mono of_nat_mono) simp_all
  then have le: "r * secs_of (T - now) \<le> r * secs_of (T - t)" using rate(2) by (rule mult_left_mono)
  have sl: "slack (a # as) = slack as + 1 / 131072" by (simp add: field_simps)
  show ?case
  proof (cases "ip' = ip")
    case False
    have "of_nat (granted ip as (ideal_run cfg as (B(ip' \<mapsto> b')))) \<le> burst_of cfg + r * secs_of (T - now) + slack as"
      using Cons.prems(4) y(4) by (intro Cons.IH [OF o(4,2,3)]) auto
    moreover have "granted ip (a # as) (ideal_run cfg (a # as) B) = granted ip as (ideal_run cfg as (B(ip' \<mapsto> b')))"
      unfolding run using False by (simp add: a)
    ultimately show ?thesis using le sl by linarith
  next
    case True
    have "of_nat (granted ip as (ideal_run cfg as (B(ip \<mapsto> b')))) \<le> x' + r * secs_of (T - last_update b') + slack as"
      using rate assms(3) o(4,2,3) _ y(4,5) by (rule granted_from_bucket) (simp_all add: y(6))
    moreover have "of_nat (granted ip (a # as) (ideal_run cfg (a # as) B))
        = (if res = Some Allowed then 1 else 0 :: rat) + of_nat (granted ip as (ideal_run cfg as (B(ip \<mapsto> b'))))"
      unfolding run using True by (simp add: a)
    ultimately show ?thesis using le sl y(3,6,7) by (simp only:)
  qed
qed

section \<open>Properties\<close>

text \<open>
  C34. Addresses do not interfere when the rate earns a full burst within the time-to-live of an entry
  (\<open>refills_in_ttl\<close>) and the requests reach the limiter in the order of their readings of the clock: in any
  such history an address is answered what it would be answered had it been the only client, so neither the
  requests of others nor the cleanups, whenever they fall, can be observed. (The condition on the
  rate is needed: see \<open>slow_rates_interfere\<close>.)
\<close>

theorem ip_isolation:
  assumes "rate_ok cfg" "refills_in_ttl cfg" "enabled_rate cfg" "in_order 0 as"
  shows "map snd (filter (\<lambda>x. arrival_ip (fst x) = ip) (zip as (fst (rl_run as (rl_new cfg t0)))))
     = fst (rl_run (filter (\<lambda>a. arrival_ip a = ip) as) (rl_new cfg t0))"
proof -
  have run: "fst (rl_run xs (rl_new cfg t0)) = ideal_run cfg xs (\<lambda>_. None)" if "in_order 0 xs" for xs
    using tracks_new assms(1-3) that by (rule run_simulates)
  have none: "(\<lambda>_. None) |` {ip} = (\<lambda>_. None)" by (auto simp: restrict_map_def)
  show ?thesis
    by (simp add: run assms(4) in_order_filter [OF assms(4)] ideal_filter none)
qed

theorem ip_isolation_witness:
  "map snd (filter (\<lambda>x. arrival_ip (fst x) = V4 7) (zip [(5, 6, V4 7), (5, 5, V4 8), (9, 9, V4 7)]
      (fst (rl_run [(5, 6, V4 7), (5, 5, V4 8), (9, 9, V4 7)] (rl_new (per_minute 90) 3)))))
   = fst (rl_run [(5, 6, V4 7), (9, 9, V4 7)] (rl_new (per_minute 90) 3))"
  using ip_isolation [OF per_minute_ok, of 90 "[(5, 6, V4 7), (5, 5, V4 8), (9, 9, V4 7)]" "V4 7" 3]
  by simp

text \<open>
  With a slower rate the requests of others are observed. An address whose bucket is stale gets a new, full one when its
  own request triggers the cleanup, but not when another's triggered it just before the bucket was stale:
  at 311 seconds the address is let through if it is alone, and refused if another one came at 309 seconds.
\<close>

definition slowest :: rate_limit_config where
  "slowest = rate_config_new (Fin (1 / 1024)) 1"

lemma slowest:
  "requests_per_second slowest = Fin (1 / 1024)" "burst_size slowest = 1" "cleanup_interval slowest = from_secs 60"
  "entry_ttl slowest = from_secs 300"
  by (simp_all add: slowest_def rate_config_new_def)

lemma slowest_refill: "rnd (301 / 1024) = Fin (301 / 1024)"
proof -
  have "rr (301 / 1024) = 301 / 1024" using rr_exact [of 301 "- 10"] by (simp add: power_int_minus)
  then show ?thesis using rnd_Fin [of "301 / 1024"] by (simp add: f_big_def)
qed

lemma slowest_fresh:
  "serve_bucket slowest now (bucket_new (burst_size slowest) now) = (Some Allowed, \<lparr>tokens = Fin 0, last_update = now\<rparr>)"
  using as_secs_whole [of 0]
  by (simp add: serve_bucket_def try_consume_def bucket_new_def slowest duration_since_def Let_def f_of_nat_def f_min_def f_sub_def)

lemma slowest_refused:
  "\<exists>r b. serve_bucket slowest (from_secs 311) \<lparr>tokens = Fin 0, last_update = from_secs 10\<rparr> = (r, b) \<and> r \<noteq> Some Allowed"
  using as_secs_whole [of 301]
  by (simp add: serve_bucket_def try_consume_def slowest duration_since_def Let_def f_of_nat_def f_min_def slowest_refill)

theorem slow_rates_interfere:
  defines "l \<equiv> rl_new slowest 0" and "a \<equiv> (from_secs 10, from_secs 10, V4 1)" and "a' \<equiv> (from_secs 311, from_secs 311, V4 1)"
  shows "fst (rl_run [a, a'] l) = [Some Allowed, Some Allowed]
    \<and> (\<exists>r. fst (rl_run [a, (from_secs 309, from_secs 309, V4 2), a'] l) = [Some Allowed, Some Allowed, r] \<and> r \<noteq> Some Allowed)"
proof -
  note defs = check_rate_limit_def periodic_cleanup_def cleanup_stale_entries_def rl_new_def slowest duration_since_def Let_def
    slowest_fresh [unfolded slowest(2)]
  obtain r b where r: "serve_bucket slowest (from_secs 311) \<lparr>tokens = Fin 0, last_update = from_secs 10\<rparr> = (r, b)" "r \<noteq> Some Allowed"
    using slowest_refused by blast
  show ?thesis by (use r in \<open>simp add: l_def a_def a'_def defs\<close>)
qed

text \<open>
  The number of tokens of every bucket stays between zero and the burst size, in every
  state a limiter with a rate that is a number and not negative reaches.
\<close>

theorem tokens_bounded:
  assumes "rate_ok cfg"
  shows "list_all (\<lambda>(ip, b). bucket_ok cfg b) (buckets (snd (rl_run as (rl_new cfg t0))))"
proof -
  define l where "l = snd (rl_run as (rl_new cfg t0))"
  have "rl_inv l \<and> rl_config l = cfg"
    unfolding l_def by (rule rl_run_induct) (simp_all add: rl_inv_check assms, simp add: rl_new_def)
  then show ?thesis unfolding l_def [symmetric] rl_inv_def by metis
qed

theorem tokens_bounded_witness:
  "list_all (\<lambda>(ip, b). bucket_ok (per_minute 90) b)
     (buckets (snd (rl_run [(5, 6, V4 7), (900, 901, V4 7)] (rl_new (per_minute 90) 3))))"
  by (rule tokens_bounded) (simp add: per_minute_ok)

text \<open>
  A burst at one instant: an address the limiter does not hold gets exactly the burst size
  of requests through, and every further one at the same instant is refused.
\<close>

theorem burst_exact:
  assumes "rate_ok (rl_config l)" "enabled_rate (rl_config l)" "0 < entry_ttl (rl_config l)"
    and "wf_map (buckets l)" "map_of (buckets l) ip = None" "now \<le> created"
  shows "map (\<lambda>r. r = Some Allowed) (fst (rl_run (replicate n (now, created, ip)) l))
     = replicate (min n (unat (burst_size (rl_config l)))) True
       @ replicate (n - unat (burst_size (rl_config l))) False"
proof (rule run_burst [OF assms(1-4)])
  from assms(1) obtain r where r: "requests_per_second (rl_config l) = Fin r"
    by (auto simp: rate_ok_def split: f64.splits)
  have "bucket_for now created ip l = bucket_new (burst_size (rl_config l)) created"
    using assms(4,5)
    by (simp add: bucket_for_def periodic_cleanup_def cleanup_stale_entries_def map_of_filter)
  then show "refilled (rl_config l) now (bucket_for now created ip l) = Fin (of_nat (unat (burst_size (rl_config l))))"
    using refilled_new [OF r assms(6)] by (simp add: burst_of_def)
qed (simp add: burst_of_def)

theorem burst_exact_witness:
  "map (\<lambda>r. r = Some Allowed) (fst (rl_run (replicate 5 (9, 9, V4 1)) (rl_new (rate_config_new (Fin 2) 3) 0)))
     = [True, True, True, False, False]"
proof -
  let ?l = "rl_new (rate_config_new (Fin 2) 3) 0"
  have "map (\<lambda>r. r = Some Allowed) (fst (rl_run (replicate 5 (9, 9, V4 1)) ?l))
      = replicate (min 5 (unat (burst_size (rl_config ?l)))) True
        @ replicate (5 - unat (burst_size (rl_config ?l))) False"
    by (rule burst_exact)
      (simp_all add: rl_new_def rate_config_new_def rate_ok_def enabled_rate_def)
  also have "\<dots> = [True, True, True, False, False]"
  proof -
    have b: "unat (burst_size (rl_config ?l)) = 3" by (simp add: rl_new_def rate_config_new_def)
    show ?thesis unfolding b by (simp add: eval_nat_numeral)
  qed
  finally show ?thesis .
qed

text \<open>
  No panic: with a rate of at least one request in \<open>2 ^ 30\<close> seconds every check returns,
  whatever the history and the readings of the clock.
\<close>

theorem check_returns:
  assumes "requests_per_second cfg = Fin r" "1 / 2 ^ 30 \<le> r"
  shows "list_all (\<lambda>res. res \<noteq> None) (fst (rl_run as (rl_new cfg t0)))"
proof -
  have "0 < r" using assms(2) by (rule less_le_trans [rotated]) simp
  then have ok: "rate_ok cfg" using assms(1) by (simp add: rate_ok_def)
  show ?thesis
  proof (rule rl_run_results [of "\<lambda>l. rl_inv l \<and> rl_config l = cfg"])
    fix l a assume l: "rl_inv l \<and> rl_config l = cfg"
    let ?b = "bucket_for (fst a) (fst (snd a)) (arrival_ip a) l"
    have "bucket_ok cfg (snd (serve_bucket cfg (fst a) ?b))"
      using serve_bucket_ok [OF ok] bucket_for_ok l by blast
    then have "fst (serve_bucket cfg (fst a) ?b) \<noteq> None"
      using wait_defined [OF assms] by (auto simp: serve_bucket_def try_consume_eq Let_def split: if_splits)
    then show "fst (check_rate_limit (fst a) (fst (snd a)) (arrival_ip a) l) \<noteq> None"
      using l by (cases "enabled_rate cfg") (simp_all add: check_serves check_disabled Let_def)
  qed (use ok in \<open>simp_all add: rl_inv_check\<close>, simp add: rl_new_def)
qed

theorem check_returns_witness:
  "list_all (\<lambda>res. res \<noteq> None)
     (fst (rl_run [(5, 6, V4 7), (900, 901, V4 7)] (rl_new (rate_config_new (Fin (1 / 4)) 1) 3)))"
  by (rule check_returns [of _ "1 / 4"]) (simp_all add: rate_config_new_def)

text \<open>
  A rate of zero does not refuse requests, it crashes on them: the constructors give it an
  empty bucket, the wait for the next token is infinite and its conversion to a duration
  panics, on the first request of any address.
\<close>

theorem zero_rate_panics:
  "fst (check_rate_limit now created ip (rl_new (per_second (Fin 0)) t0)) = None
   \<and> fst (check_rate_limit now created ip (rl_new (per_minute 0) t0)) = None"
proof -
  have cfg: "requests_per_second (per_second (Fin 0)) = Fin 0" "burst_size (per_second (Fin 0)) = 0"
    by (simp_all add: per_second_def rate_config_new_def f_to_u32_def)
  then have ok: "rate_ok (per_second (Fin 0))" "burst_of (per_second (Fin 0)) = 0"
    by (simp_all add: rate_ok_def burst_of_def)
  let ?l = "rl_new (per_second (Fin 0)) t0"
  have conf: "rl_config ?l = per_second (Fin 0)" by (simp add: rl_new_def)
  obtain y where "refilled (per_second (Fin 0)) now (bucket_for now created ip ?l) = Fin y" "y = 0"
    using refilled_range [OF ok(1) bucket_for_ok [of ?l now created ip, unfolded conf]] ok(2) by auto
  then have "fst (check_rate_limit now created ip ?l) = None"
    using cfg by (simp add: check_serves Let_def conf enabled_rate_def serve_bucket_def try_consume_eq
        time_until_next_token_def f_sub_def f_inf_def)
  moreover have "per_minute 0 = per_second (Fin 0)" by (simp add: per_minute_def f_of_nat_def)
  ultimately show ?thesis by simp
qed

lemma granted_bound:
  assumes "rate_ok cfg" "refills_in_ttl cfg" "enabled_rate cfg" "requests_per_second cfg = Fin r"
    and "in_order t as" "t \<le> T" "\<forall>a \<in> set as. fst a \<le> T" "T < 2 ^ 53 * 1000000000"
  shows "of_nat (granted ip as (fst (rl_run as (rl_new cfg t0))))
     \<le> burst_of cfg + r * secs_of (T - t) + of_nat (length as) / 131072"
proof -
  have "0 \<le> r" using assms(1,4) by (simp add: rate_ok_def)
  moreover have "fst (rl_run as (rl_new cfg t0)) = ideal_run cfg as (\<lambda>_. None)"
    using tracks_new assms(1-3,5) by (rule run_simulates)
  ultimately show ?thesis using granted_in_window [OF assms(4) _ assms(8,7,5,6)] by simp
qed

text \<open>
  C15. The sustained rate: in any history from \<open>t\<close> to \<open>T\<close> whose requests reach the limiter in the order of
  their readings of the clock, an address is let through at most the burst size plus the rate times the
  length of the window, plus \<open>2 ^ -17\<close> of a request for each arrival, which bounds all the rounding of
  the floating-point bookkeeping. (The rate earns a full burst within the time-to-live of an entry. Concurrent
  requests can reach the limiter out of order and get more: \<open>concurrent_rate\<close> in \<open>LimiterTasks\<close>
  states by how much.)
\<close>

theorem sustained_rate:
  assumes "rate_ok cfg" "refills_in_ttl cfg" "enabled_rate cfg" "requests_per_second cfg = Fin r"
    and "in_order t as" "t \<le> T" "\<forall>a \<in> set as. fst a \<le> T" "T < 2 ^ 53 * 1000000000"
  shows "of_nat (granted ip as (fst (rl_run as (rl_new cfg t0))))
     \<le> burst_of cfg + r * secs_of (T - t) + of_nat (length as) / 131072"
  using assms by (rule granted_bound)

theorem sustained_rate_witness:
  "of_nat (granted (V4 7) [(5, 6, V4 7), (9, 9, V4 7)]
      (fst (rl_run [(5, 6, V4 7), (9, 9, V4 7)] (rl_new (per_minute 60) 3))))
   \<le> burst_of (per_minute 60) + 1 * secs_of (9 - 5) + of_nat (length [(5, 6, V4 7) :: arrival, (9, 9, V4 7)]) / 131072"
proof (rule sustained_rate)
  show "requests_per_second (per_minute 60) = Fin 1"
    by (simp add: per_minute_def per_second_def rate_config_new_def f_of_nat_def)
qed (simp_all add: per_minute_ok)

end
