(* ===== verification/Gated.thy ===== *)
theory Gated
  imports Transition RateLimit
begin

text \<open>
  A system behind a rate limiter whose checks come one after another, each a single step (\<open>LimiterTasks\<close>
  has the checks that overlap). Some of its steps are arrivals, which the limiter judges, and a request is let
  through only when the limiter allows it. Whatever else the steps do, the rate that the limiter keeps is
  then one of the whole system.
\<close>

text \<open>How a step with an arrival, and the addresses it lets through, may move the limiter.\<close>

definition limiter_moves :: "rate_limiter \<Rightarrow> arrival option \<Rightarrow> (ip_addr \<Rightarrow> bool) \<Rightarrow> rate_limiter \<Rightarrow> bool" where
  "limiter_moves l arrival passes l' = (case arrival of
     None \<Rightarrow> l' = l \<and> (\<forall>ip. \<not> passes ip)
   | Some a \<Rightarrow> (case check_rate_limit (fst a) (fst (snd a)) (arrival_ip a) l of (verdict, limiter) \<Rightarrow>
       l' = limiter \<and> (\<forall>ip. passes ip \<longrightarrow> arrival_ip a = ip \<and> verdict = Some Allowed)))"

definition arrivals :: "('l \<Rightarrow> arrival option) \<Rightarrow> 'l list \<Rightarrow> arrival list" where
  "arrivals arrival_of ls = List.map_filter arrival_of ls"

lemma arrivals_simps [simp]:
  "arrivals f [] = []" "arrivals f (l # ls) = (case f l of None \<Rightarrow> arrivals f ls | Some a \<Rightarrow> a # arrivals f ls)"
  by (simp_all add: arrivals_def map_filter_simps split: option.split)

locale limited_system =
  fixes step :: "'s \<Rightarrow> 'l \<Rightarrow> 's \<Rightarrow> bool" and limiter_of :: "'s \<Rightarrow> rate_limiter"
    and arrival_of :: "'l \<Rightarrow> arrival option" and passes :: "ip_addr \<Rightarrow> 'l \<Rightarrow> bool"
  assumes step_moves: "step s l s' \<Longrightarrow> limiter_moves (limiter_of s) (arrival_of l) (\<lambda>ip. passes ip l) (limiter_of s')"
begin

lemma passed_granted:
  "steps step s ls s' \<Longrightarrow>
   count_labels (passes ip) ls \<le> granted ip (arrivals arrival_of ls) (fst (rl_run (arrivals arrival_of ls) (limiter_of s)))"
proof (induction rule: steps.induct)
  case (then_ s l s1 ls s')
  note moves = step_moves [OF then_.hyps(1)]
  show ?case
  proof (cases "arrival_of l")
    case None
    with moves then_.IH show ?thesis by (simp add: limiter_moves_def)
  next
    case (Some a)
    obtain res lim where c: "check_rate_limit (fst a) (fst (snd a)) (arrival_ip a) (limiter_of s) = (res, lim)"
      by (rule prod.exhaust)
    from moves Some c have "limiter_of s1 = lim" "passes ip l \<Longrightarrow> arrival_ip a = ip \<and> res = Some Allowed"
      by (simp_all add: limiter_moves_def)
    with then_.IH Some c show ?thesis
      by (cases "rl_run (arrivals arrival_of ls) lim"; cases "passes ip l") simp_all
  qed
qed simp

lemma budget:
  assumes "steps step s ls s'" "limiter_of s = rl_new cfg t0"
    and "rate_ok cfg" "refills_in_ttl cfg" "enabled_rate cfg" "requests_per_second cfg = Fin r"
    and "in_order t (arrivals arrival_of ls)" "t \<le> T" "\<forall>a \<in> set (arrivals arrival_of ls). fst a \<le> T" "T < 2 ^ 53 * 1000000000"
  shows "of_nat (count_labels (passes ip) ls)
     \<le> burst_of cfg + r * secs_of (T - t) + of_nat (length (arrivals arrival_of ls)) / 131072"
proof -
  have "count_labels (passes ip) ls \<le> granted ip (arrivals arrival_of ls) (fst (rl_run (arrivals arrival_of ls) (rl_new cfg t0)))"
    using passed_granted [OF assms(1), of ip] assms(2) by simp
  with granted_bound [OF assms(3-10), of ip t0] show ?thesis by (meson of_nat_mono order_trans)
qed

end

end
