(* ===== verification/Protocol.thy ===== *)
theory Protocol
  imports F64
begin

text \<open>
  The protocol types of \<open>crates/madrpc-common/src/protocol\<close>: JSON values, the error type
  with its classification and its text, JSON-RPC 2.0 requests, responses and errors, the
  generator of request identifiers and the reader of a JSON-RPC request
  (\<open>transport/http.rs\<close>). The byte-level JSON parser and printer are \<open>serde_json\<close>'s and are
  parameters of the definitions that use them.
\<close>

section \<open>JSON values and decimal text\<close>

datatype number = PosInt u64 | NegInt int | Float f64

datatype json =
    JNull
  | JBool bool
  | JNumber number
  | JString string
  | JArray "json list"
  | JObject "(string \<times> json) list"

fun as_u64 :: "number \<Rightarrow> u64 option" where
  "as_u64 (PosInt n) = Some n"
| "as_u64 (NegInt i) = None"
| "as_u64 (Float x) = None"

text \<open>\<open>value.get(key)\<close> and \<open>value[key]\<close>; the latter is null where there is no such key.\<close>

fun json_get :: "json \<Rightarrow> string \<Rightarrow> json option" where
  "json_get (JObject fs) k = map_of fs k"
| "json_get j k = None"

definition json_index :: "json \<Rightarrow> string \<Rightarrow> json" where
  "json_index j k = (case json_get j k of None \<Rightarrow> JNull | Some v \<Rightarrow> v)"

fun dec_digits :: "nat \<Rightarrow> string" where
  "dec_digits n = (if n < 10 then [char_of (48 + n)] else dec_digits (n div 10) @ [char_of (48 + n mod 10)])"

declare dec_digits.simps [simp del]

definition dec :: "nat \<Rightarrow> string" where
  "dec n = dec_digits n"

text \<open>\<open>s.parse::<u64>()\<close>: an optional plus sign, then at least one digit, no overflow.\<close>

fun parse_digits :: "string \<Rightarrow> nat \<Rightarrow> nat option" where
  "parse_digits [] acc = Some acc"
| "parse_digits (c # cs) acc =
     (if 48 \<le> (of_char c :: nat) \<and> (of_char c :: nat) \<le> 57
      then let n = 10 * acc + (of_char c - 48) in if n < 2 ^ 64 then parse_digits cs n else None
      else None)"

definition parse_u64 :: "string \<Rightarrow> u64 option" where
  "parse_u64 s = (let ds = (case s of [] \<Rightarrow> [] | c # cs \<Rightarrow> if c = CHR ''+'' then cs else s) in
     if ds = [] then None else map_option of_nat (parse_digits ds 0))"

section \<open>Errors\<close>

text \<open>
  \<open>MadrpcError\<close>. The payloads of \<open>JsonSerialization\<close> and \<open>Io\<close> are errors of other
  libraries, of which the sources only use the text.
\<close>

datatype madrpc_error =
    Transport string
  | JsonSerialization string
  | Timeout u64
  | NodeUnavailable string
  | JavaScriptExecution string
  | InvalidResponse string
  | AllNodesFailed
  | InvalidRequest string
  | Io string
  | Connection string
  | PoolTimeout u64
  | PoolExhausted string
  | PayloadTooLarge nat nat

fun is_retryable :: "madrpc_error \<Rightarrow> bool" where
  "is_retryable (Transport _) = True"
| "is_retryable (Timeout _) = True"
| "is_retryable (NodeUnavailable _) = True"
| "is_retryable (Io _) = True"
| "is_retryable (Connection _) = True"
| "is_retryable (PoolTimeout _) = True"
| "is_retryable _ = False"

fun error_to_string :: "madrpc_error \<Rightarrow> string" where
  "error_to_string (Transport m) = ''Transport error: '' @ m"
| "error_to_string (JsonSerialization m) = ''JSON serialization error: '' @ m"
| "error_to_string (Timeout n) = ''Request timeout after '' @ dec (unat n) @ ''ms''"
| "error_to_string (NodeUnavailable m) = ''Node unavailable: '' @ m"
| "error_to_string (JavaScriptExecution m) = ''JavaScript execution error: '' @ m"
| "error_to_string (InvalidResponse m) = ''Invalid response: '' @ m"
| "error_to_string AllNodesFailed = ''All nodes failed''"
| "error_to_string (InvalidRequest m) = ''Invalid request: '' @ m"
| "error_to_string (Io m) = ''IO error: '' @ m"
| "error_to_string (Connection m) = ''Connection error: '' @ m"
| "error_to_string (PoolTimeout n) = ''Pool acquisition timeout after '' @ dec (unat n) @ ''ms''"
| "error_to_string (PoolExhausted m) = ''Connection pool exhausted for '' @ m"
| "error_to_string (PayloadTooLarge n m) = ''Payload size '' @ dec n
     @ '' bytes exceeds maximum allowed size of '' @ dec m @ '' bytes''"

text \<open>The conversions of \<open>From\<close>, over the texts of the errors converted.\<close>

definition from_addr_parse_error :: "string \<Rightarrow> madrpc_error" where
  "from_addr_parse_error e = InvalidRequest e"

definition from_join_error :: "string \<Rightarrow> madrpc_error" where
  "from_join_error e = Transport (''Task join error: '' @ e)"

type_synonym 'a result = "madrpc_error + 'a"

fun is_ok :: "'e + 'a \<Rightarrow> bool" where
  "is_ok (Inl e) = False"
| "is_ok (Inr x) = True"

section \<open>JSON-RPC 2.0\<close>

record json_rpc_request =
  req_jsonrpc :: string
  req_method :: string
  req_params :: json
  req_id :: json

record json_rpc_error =
  err_code :: int
  err_message :: string
  err_data :: "json option"

record json_rpc_response =
  res_jsonrpc :: string
  res_result :: "json option"
  res_error :: "json_rpc_error option"
  res_id :: json

definition PARSE_ERROR :: int where "PARSE_ERROR = -32700"
definition INVALID_REQUEST :: int where "INVALID_REQUEST = -32600"
definition METHOD_NOT_FOUND :: int where "METHOD_NOT_FOUND = -32601"
definition INVALID_PARAMS :: int where "INVALID_PARAMS = -32602"
definition INTERNAL_ERROR :: int where "INTERNAL_ERROR = -32603"
definition REQUEST_TOO_LARGE :: int where "REQUEST_TOO_LARGE = -32001"
definition NODE_REGISTRATION_ERROR :: int where "NODE_REGISTRATION_ERROR = -32002"

lemmas code_defs [simp] = PARSE_ERROR_def INVALID_REQUEST_def METHOD_NOT_FOUND_def
  INVALID_PARAMS_def INTERNAL_ERROR_def REQUEST_TOO_LARGE_def NODE_REGISTRATION_ERROR_def

definition parse_error :: json_rpc_error where
  "parse_error = \<lparr>err_code = PARSE_ERROR, err_message = ''Parse error'', err_data = None\<rparr>"

definition invalid_request :: json_rpc_error where
  "invalid_request = \<lparr>err_code = INVALID_REQUEST, err_message = ''Invalid Request'', err_data = None\<rparr>"

definition method_not_found :: json_rpc_error where
  "method_not_found =
     \<lparr>err_code = METHOD_NOT_FOUND, err_message = ''Method not found'', err_data = None\<rparr>"

definition invalid_params :: "string \<Rightarrow> json_rpc_error" where
  "invalid_params msg = \<lparr>err_code = INVALID_PARAMS, err_message = msg, err_data = None\<rparr>"

definition internal_error :: "string \<Rightarrow> json_rpc_error" where
  "internal_error msg = \<lparr>err_code = INTERNAL_ERROR, err_message = msg, err_data = None\<rparr>"

definition server_error :: "string \<Rightarrow> json_rpc_error" where
  "server_error msg = \<lparr>err_code = -32000, err_message = msg, err_data = None\<rparr>"

definition request_too_large :: "nat \<Rightarrow> json_rpc_error" where
  "request_too_large limit = \<lparr>err_code = REQUEST_TOO_LARGE,
     err_message = ''Request body too large (max '' @ dec limit @ '' bytes)'', err_data = None\<rparr>"

definition node_registration_error :: "string \<Rightarrow> json_rpc_error" where
  "node_registration_error msg =
     \<lparr>err_code = NODE_REGISTRATION_ERROR, err_message = msg, err_data = None\<rparr>"

definition rpc_success :: "json \<Rightarrow> json \<Rightarrow> json_rpc_response" where
  "rpc_success i r = \<lparr>res_jsonrpc = ''2.0'', res_result = Some r, res_error = None, res_id = i\<rparr>"

definition rpc_error :: "json \<Rightarrow> json_rpc_error \<Rightarrow> json_rpc_response" where
  "rpc_error i e = \<lparr>res_jsonrpc = ''2.0'', res_result = None, res_error = Some e, res_id = i\<rparr>"

lemmas rpc_error_defs = parse_error_def invalid_request_def method_not_found_def
  invalid_params_def internal_error_def server_error_def request_too_large_def
  node_registration_error_def

section \<open>Serialized form\<close>

text \<open>
  The derived \<open>Serialize\<close> and \<open>Deserialize\<close> instances. A struct is written as an object
  with its fields in order, an absent option as null. It is read from an object in which no
  known field is repeated and every field that is not an option is present, unknown fields
  being skipped, or from an array with exactly one element per field. A tree produced by the
  parser may repeat a key, so \<open>JObject\<close> is read as the list of its members.
\<close>

datatype 'a field = Missing | Dup | Val 'a

definition get_field :: "(string \<times> json) list \<Rightarrow> string \<Rightarrow> json field" where
  "get_field fs k = (case filter (\<lambda>f. fst f = k) fs of [] \<Rightarrow> Missing
     | [f] \<Rightarrow> Val (snd f) | _ \<Rightarrow> Dup)"

fun de_required :: "json field \<Rightarrow> json option" where
  "de_required (Val v) = Some v"
| "de_required Missing = None"
| "de_required Dup = None"

text \<open>An \<open>Option\<close> field: null and an absent member both give \<open>None\<close>.\<close>

fun de_option :: "(json \<Rightarrow> 'a option) \<Rightarrow> json field \<Rightarrow> 'a option option" where
  "de_option de (Val v) = (if v = JNull then Some None else map_option Some (de v))"
| "de_option de Missing = Some None"
| "de_option de Dup = None"

fun de_string :: "json \<Rightarrow> string option" where
  "de_string (JString s) = Some s"
| "de_string j = None"

fun de_i32 :: "json \<Rightarrow> int option" where
  "de_i32 (JNumber (PosInt n)) = (if unat n < 2 ^ 31 then Some (uint n) else None)"
| "de_i32 (JNumber (NegInt i)) = (if - (2 ^ 31) \<le> i then Some i else None)"
| "de_i32 j = None"

definition ser_int :: "int \<Rightarrow> json" where
  "ser_int i = JNumber (if 0 \<le> i then PosInt (of_int i) else NegInt i)"

fun ser_option :: "('a \<Rightarrow> json) \<Rightarrow> 'a option \<Rightarrow> json" where
  "ser_option ser None = JNull"
| "ser_option ser (Some x) = ser x"

definition request_to_json :: "json_rpc_request \<Rightarrow> json" where
  "request_to_json r = JObject [(''jsonrpc'', JString (req_jsonrpc r)),
     (''method'', JString (req_method r)), (''params'', req_params r), (''id'', req_id r)]"

definition mk_request :: "json field \<Rightarrow> json field \<Rightarrow> json field \<Rightarrow> json field
    \<Rightarrow> json_rpc_request option" where
  "mk_request v m p i = (case (Option.bind (de_required v) de_string,
       Option.bind (de_required m) de_string, de_required p, de_required i) of
     (Some v', Some m', Some p', Some i') \<Rightarrow>
       Some \<lparr>req_jsonrpc = v', req_method = m', req_params = p', req_id = i'\<rparr>
   | _ \<Rightarrow> None)"

fun request_from_json :: "json \<Rightarrow> json_rpc_request option" where
  "request_from_json (JObject fs) = mk_request (get_field fs ''jsonrpc'')
     (get_field fs ''method'') (get_field fs ''params'') (get_field fs ''id'')"
| "request_from_json (JArray [v, m, p, i]) = mk_request (Val v) (Val m) (Val p) (Val i)"
| "request_from_json j = None"

definition error_to_json :: "json_rpc_error \<Rightarrow> json" where
  "error_to_json e = JObject [(''code'', ser_int (err_code e)),
     (''message'', JString (err_message e)), (''data'', ser_option id (err_data e))]"

definition mk_error :: "json field \<Rightarrow> json field \<Rightarrow> json field \<Rightarrow> json_rpc_error option" where
  "mk_error c m d = (case (Option.bind (de_required c) de_i32,
       Option.bind (de_required m) de_string, de_option Some d) of
     (Some c', Some m', Some d') \<Rightarrow> Some \<lparr>err_code = c', err_message = m', err_data = d'\<rparr>
   | _ \<Rightarrow> None)"

fun error_from_json :: "json \<Rightarrow> json_rpc_error option" where
  "error_from_json (JObject fs) = mk_error (get_field fs ''code'') (get_field fs ''message'')
     (get_field fs ''data'')"
| "error_from_json (JArray [c, m, d]) = mk_error (Val c) (Val m) (Val d)"
| "error_from_json j = None"

definition response_to_json :: "json_rpc_response \<Rightarrow> json" where
  "response_to_json r = JObject [(''jsonrpc'', JString (res_jsonrpc r)),
     (''result'', ser_option id (res_result r)),
     (''error'', ser_option error_to_json (res_error r)), (''id'', res_id r)]"

definition mk_response :: "json field \<Rightarrow> json field \<Rightarrow> json field \<Rightarrow> json field
    \<Rightarrow> json_rpc_response option" where
  "mk_response v r e i = (case (Option.bind (de_required v) de_string, de_option Some r,
       de_option error_from_json e, de_required i) of
     (Some v', Some r', Some e', Some i') \<Rightarrow>
       Some \<lparr>res_jsonrpc = v', res_result = r', res_error = e', res_id = i'\<rparr>
   | _ \<Rightarrow> None)"

fun response_from_json :: "json \<Rightarrow> json_rpc_response option" where
  "response_from_json (JObject fs) = mk_response (get_field fs ''jsonrpc'')
     (get_field fs ''result'') (get_field fs ''error'') (get_field fs ''id'')"
| "response_from_json (JArray [v, r, e, i]) = mk_response (Val v) (Val r) (Val e) (Val i)"
| "response_from_json j = None"

text \<open>Reading back loses the difference between no value and the value null.\<close>

definition null_to_none :: "json option \<Rightarrow> json option" where
  "null_to_none v = (if v = Some JNull then None else v)"

lemma de_option_ser: "de_option Some (Val (ser_option id v)) = Some (null_to_none v)"
  by (cases v) (auto simp: null_to_none_def)

lemma get_field_same [simp]: "k \<notin> set (keys fs) \<Longrightarrow> get_field ((k, v) # fs) k = Val v"
  by (induction fs) (auto simp: get_field_def)

lemma get_field_other [simp]: "k' \<noteq> k \<Longrightarrow> get_field ((k', v) # fs) k = get_field fs k"
  by (simp add: get_field_def)

lemma get_field_absent: "k \<notin> set (keys fs) \<Longrightarrow> get_field fs k = Missing"
  by (induction fs) (auto simp: get_field_def)

lemma de_i32_ser_int [simp]: "- (2 ^ 31) \<le> i \<Longrightarrow> i < 2 ^ 31 \<Longrightarrow> de_i32 (ser_int i) = Some i"
proof (cases "0 \<le> i")
  case True
  assume "i < 2 ^ 31"
  with True have "uint (of_int i :: u64) = i" by (simp add: unsigned_of_int take_bit_int_eq_self)
  moreover from this True have "unat (of_int i :: u64) = nat i"
    by (metis nat_uint_eq)
  ultimately show ?thesis using True \<open>i < 2 ^ 31\<close> by (simp add: ser_int_def)
qed (simp add: ser_int_def)

lemma request_roundtrip_json: "request_from_json (request_to_json r) = Some r"
  by (simp add: request_to_json_def mk_request_def)

lemma error_roundtrip_json:
  assumes "- (2 ^ 31) \<le> err_code e" "err_code e < 2 ^ 31"
  shows "error_from_json (error_to_json e) = Some (e\<lparr>err_data := null_to_none (err_data e)\<rparr>)"
  using assms by (simp add: error_to_json_def mk_error_def de_option_ser del: de_option.simps)

lemma error_to_json_not_null [simp]: "error_to_json e \<noteq> JNull"
  by (simp add: error_to_json_def)

definition i32_code :: "json_rpc_error \<Rightarrow> bool" where
  "i32_code e = (- (2 ^ 31) \<le> err_code e \<and> err_code e < 2 ^ 31)"

text \<open>What a reader of a written response sees.\<close>

definition response_view :: "json_rpc_response \<Rightarrow> json_rpc_response" where
  "response_view r = r\<lparr>res_result := null_to_none (res_result r),
     res_error := map_option (\<lambda>e. e\<lparr>err_data := null_to_none (err_data e)\<rparr>) (res_error r)\<rparr>"

lemma response_roundtrip_json:
  assumes "\<And>e. res_error r = Some e \<Longrightarrow> i32_code e"
  shows "response_from_json (response_to_json r) = Some (response_view r)"
proof -
  have "de_option error_from_json (Val (ser_option error_to_json (res_error r)))
      = Some (map_option (\<lambda>e. e\<lparr>err_data := null_to_none (err_data e)\<rparr>) (res_error r))"
    using assms by (cases "res_error r") (auto simp: error_roundtrip_json i32_code_def)
  then show ?thesis
    by (simp add: response_to_json_def mk_response_def de_option_ser response_view_def
        del: de_option.simps)
qed

text \<open>
  \<open>NodeRegistrationRequest\<close> and \<open>NodeRegistrationResponse\<close> (\<open>protocol/mod.rs\<close>), and the
  body of the health answer (\<open>protocol/builtin.rs\<close>).
\<close>

fun registration_from_json :: "json \<Rightarrow> string option" where
  "registration_from_json (JObject fs) =
     Option.bind (de_required (get_field fs ''node_url'')) de_string"
| "registration_from_json (JArray [u]) = de_string u"
| "registration_from_json j = None"

record node_registration_response =
  registered_url :: string
  is_new_registration :: bool

definition registration_to_json :: "node_registration_response \<Rightarrow> json" where
  "registration_to_json r = JObject [(''registered_url'', JString (registered_url r)),
     (''is_new_registration'', JBool (is_new_registration r))]"

definition health_to_json :: json where
  "health_to_json = JObject [(''status'', JString ''healthy'')]"

section \<open>Answers of the built-in procedures\<close>

text \<open>The types of \<open>protocol/builtin.rs\<close>.\<close>

datatype server_type = ServerNode | ServerOrchestrator

record method_metrics =
  mm_call_count :: u64
  mm_success_count :: u64
  mm_failure_count :: u64
  mm_avg_latency_us :: u64
  mm_p50_latency_us :: u64
  mm_p95_latency_us :: u64
  mm_p99_latency_us :: u64

record node_metrics =
  nm_node_addr :: string
  nm_request_count :: u64
  nm_last_request_ms :: u64

record metrics_snapshot =
  ms_total_requests :: u64
  ms_successful_requests :: u64
  ms_failed_requests :: u64
  ms_active_connections :: u64
  ms_uptime_ms :: u64
  ms_methods :: "(string \<times> method_metrics) list"
  ms_nodes :: "(string \<times> node_metrics) list option"

record server_base =
  sb_server_type :: server_type
  sb_version :: string
  sb_uptime_ms :: u64

record orchestrator_node_info =
  oni_addr :: string
  oni_enabled :: bool
  oni_disable_reason :: "string option"
  oni_circuit_state :: string
  oni_consecutive_failures :: u32

record orchestrator_info =
  oi_version :: string
  oi_uptime_ms :: u64
  oi_total_nodes :: nat
  oi_enabled_nodes :: nat
  oi_disabled_nodes :: nat
  oi_nodes :: "orchestrator_node_info list"

section \<open>The reader of requests\<close>

definition MAX_PAYLOAD_SIZE :: nat where
  "MAX_PAYLOAD_SIZE = 10 * 1024 * 1024"

text \<open>
  \<open>HttpTransport::parse_jsonrpc\<close>. The parser of the bytes is a parameter, and so is the text
  of the error for a tree that is not a request.
\<close>

definition parse_jsonrpc :: "(string \<Rightarrow> string + json) \<Rightarrow> (json \<Rightarrow> string) \<Rightarrow> string
    \<Rightarrow> json_rpc_request result" where
  "parse_jsonrpc tree_of shape_text body =
     (if length body > MAX_PAYLOAD_SIZE then Inl (PayloadTooLarge (length body) MAX_PAYLOAD_SIZE)
      else case tree_of body of Inl t \<Rightarrow> Inl (JsonSerialization t)
        | Inr j \<Rightarrow> (case request_from_json j of None \<Rightarrow> Inl (JsonSerialization (shape_text j))
            | Some r \<Rightarrow> Inr r))"

text \<open>\<open>HttpTransport::build_request\<close>, with the printer as a parameter.\<close>

definition build_request :: "(json \<Rightarrow> string) \<Rightarrow> string \<Rightarrow> json \<Rightarrow> json \<Rightarrow> json_rpc_request result" where
  "build_request print meth params i =
     (let r = \<lparr>req_jsonrpc = ''2.0'', req_method = meth, req_params = params, req_id = i\<rparr>;
          n = length (print (request_to_json r)) in
      if n > MAX_PAYLOAD_SIZE then Inl (PayloadTooLarge n MAX_PAYLOAD_SIZE) else Inr r)"

section \<open>Requests and responses of the older interface\<close>

record request =
  rq_id :: u64
  rq_method :: string
  rq_args :: json
  rq_timeout_ms :: "u64 option"
  rq_idempotency_key :: "string option"

record response =
  rs_id :: u64
  rs_result :: "json option"
  rs_error :: "string option"
  rs_success :: bool

definition response_success :: "u64 \<Rightarrow> json \<Rightarrow> response" where
  "response_success i r = \<lparr>rs_id = i, rs_result = Some r, rs_error = None, rs_success = True\<rparr>"

definition response_error :: "u64 \<Rightarrow> string \<Rightarrow> response" where
  "response_error i e = \<lparr>rs_id = i, rs_result = None, rs_error = Some e, rs_success = False\<rparr>"

text \<open>
  \<open>generate_request_id\<close>: the seconds of the clock in the upper half (0 before the epoch), the
  low half of the counter in the lower one. The counter is an atomic \<open>fetch_add\<close>.
\<close>

definition epoch_secs :: "system_time \<Rightarrow> u64" where
  "epoch_secs now = (if now < 0 then 0 else of_int (now div 1000000000))"

definition generate_request_id :: "system_time \<Rightarrow> u64 \<Rightarrow> u64 \<times> u64" where
  "generate_request_id now counter =
     (or (push_bit 32 (epoch_secs now)) (and counter 0xFFFFFFFF), counter + 1)"

definition request_new :: "system_time \<Rightarrow> u64 \<Rightarrow> string \<Rightarrow> json \<Rightarrow> request \<times> u64" where
  "request_new now counter meth args = (let (i, counter') = generate_request_id now counter in
     (\<lparr>rq_id = i, rq_method = meth, rq_args = args, rq_timeout_ms = None,
       rq_idempotency_key = None\<rparr>, counter'))"

definition with_timeout :: "u64 \<Rightarrow> request \<Rightarrow> request" where
  "with_timeout t r = r\<lparr>rq_timeout_ms := Some t\<rparr>"

definition with_idempotency_key :: "string \<Rightarrow> request \<Rightarrow> request" where
  "with_idempotency_key k r = r\<lparr>rq_idempotency_key := Some k\<rparr>"

text \<open>The identifiers of requests made one after another, at the clock readings of the list.\<close>

fun request_ids :: "system_time list \<Rightarrow> u64 \<Rightarrow> u64 list" where
  "request_ids [] c = []"
| "request_ids (now # ts) c = (let (i, c') = generate_request_id now c in i # request_ids ts c')"

text \<open>The low half of an identifier is the low half of the counter it was made from.\<close>

definition low_half :: "u64 \<Rightarrow> nat" where
  "low_half i = unat i mod 2 ^ 32"

lemma low_half_eq: "low_half i = unat (take_bit 32 i)"
  unfolding low_half_def unsigned_take_bit_eq by (simp only: take_bit_eq_mod)

lemma low_half_generate: "low_half (fst (generate_request_id now c)) = low_half c"
proof -
  have m: "(0xFFFFFFFF :: u64) = mask 32" by (simp add: mask_eq_decr_exp)
  have "take_bit 32 (fst (generate_request_id now c)) = take_bit 32 c"
    unfolding generate_request_id_def fst_conv m
    by (rule bit_word_eqI) (auto simp: bit_simps)
  then show ?thesis by (simp only: low_half_eq)
qed

lemma low_half_add: "(low_half (c + 1) + k) mod 2 ^ 32 = (low_half c + Suc k) mod 2 ^ 32"
proof -
  have "low_half (c + 1) = (unat c + 1) mod 2 ^ 64 mod 2 ^ 32"
    unfolding low_half_def unat_word_ariths by simp
  also have "\<dots> = (unat c + 1) mod 2 ^ 32" by (rule mod_mod_cancel) simp
  finally have "(low_half (c + 1) + k) mod 2 ^ 32 = ((unat c + 1) mod 2 ^ 32 + k) mod 2 ^ 32"
    by (simp only:)
  also have "\<dots> = (unat c + Suc k) mod 2 ^ 32" unfolding mod_add_left_eq by simp
  finally show ?thesis by (simp only: low_half_def mod_add_left_eq)
qed

lemma low_half_lt [simp]: "low_half c mod 4294967296 = low_half c"
  by (simp add: low_half_def)

lemma low_half_request_ids:
  "map low_half (request_ids ts c) = map (\<lambda>k. (low_half c + k) mod 2 ^ 32) [0..<length ts]"
proof (induction ts arbitrary: c)
  case (Cons now ts)
  have ids: "request_ids (now # ts) c = fst (generate_request_id now c) # request_ids ts (c + 1)"
    by (simp add: generate_request_id_def)
  have upt: "[0..<length (now # ts)] = 0 # map Suc [0..<length ts]"
    by (simp add: map_Suc_upt upt_conv_Cons del: upt_Suc)
  show ?case
    unfolding ids upt list.map map_map o_def Cons.IH low_half_add
    by (simp add: low_half_generate)
qed simp

lemma mod_shift_inj:
  assumes "x < n" "y < n" "n \<le> m" "(a + x) mod m = (a + y) mod (m :: nat)"
  shows "x = y"
proof (rule ccontr)
  assume "x \<noteq> y"
  then consider "x < y" | "y < x" by linarith
  then show False
  proof cases
    case 1
    from assms(4) 1 have "m dvd (a + y) - (a + x)" by (metis add_le_cancel_left less_imp_le mod_eq_dvd_iff_nat)
    with 1 assms show False by (auto dest: dvd_imp_le)
  next
    case 2
    from assms(4) 2 have "m dvd (a + x) - (a + y)" by (metis add_le_cancel_left less_imp_le mod_eq_dvd_iff_nat)
    with 2 assms show False by (auto dest: dvd_imp_le)
  qed
qed

lemma distinct_mod_upt: "n \<le> m \<Longrightarrow> distinct (map (\<lambda>k. (a + k) mod m) [0..<n])"
  by (auto simp: distinct_map inj_on_def intro: mod_shift_inj)

section \<open>Properties\<close>

text \<open>
  Request identifiers are unique: any run of at most \<open>2 ^ 32\<close> requests, whatever the
  clock shows at each (it may stand still or run backwards), gets pairwise distinct
  identifiers.
\<close>

theorem request_ids_distinct:
  assumes "length ts \<le> 2 ^ 32"
  shows "distinct (request_ids ts c)"
proof -
  have "distinct (map low_half (request_ids ts c))"
    unfolding low_half_request_ids using assms by (rule distinct_mod_upt)
  then show ?thesis by (simp add: distinct_map)
qed

theorem request_ids_distinct_witness:
  "distinct (request_ids [1700000000000000000, 1700000000000000000, - 5] 0xFFFFFFFFFFFFFFFF)"
  by (rule request_ids_distinct) simp


text \<open>
  C32. What one side writes the other reads: a request that is built within the size limit is parsed back as
  it was built, by the same limit, whatever JSON its parameters and its identifier are; a response is
  read back with its version, identifier and error code and message, an absent and a null result or
  data being one.
\<close>

theorem messages_round_trip:
  assumes "build_request print meth params i = Inr req"
    and "tree_of (print (request_to_json req)) = Inr (request_to_json req)"
    and "\<forall>e. res_error res = Some e \<longrightarrow> i32_code e"
  shows "parse_jsonrpc tree_of shape_text (print (request_to_json req))
      = Inr \<lparr>req_jsonrpc = ''2.0'', req_method = meth, req_params = params, req_id = i\<rparr>
    \<and> response_from_json (response_to_json res) = Some (response_view res)"
proof
  have req: "req = \<lparr>req_jsonrpc = ''2.0'', req_method = meth, req_params = params, req_id = i\<rparr>"
    "length (print (request_to_json req)) \<le> MAX_PAYLOAD_SIZE"
    using assms(1) by (auto simp: build_request_def Let_def split: if_splits)
  then show "parse_jsonrpc tree_of shape_text (print (request_to_json req))
      = Inr \<lparr>req_jsonrpc = ''2.0'', req_method = meth, req_params = params, req_id = i\<rparr>"
    using assms(2) by (simp add: parse_jsonrpc_def request_roundtrip_json)
  show "response_from_json (response_to_json res) = Some (response_view res)"
    using assms(3) by (intro response_roundtrip_json) simp
qed

theorem messages_round_trip_witness:
  "let req = \<lparr>req_jsonrpc = ''2.0'', req_method = ''f'', req_params = JArray [JNull], req_id = JString ''7''\<rparr>
   in parse_jsonrpc (\<lambda>_. Inr (request_to_json req)) (\<lambda>_. ''shape'') ''text'' = Inr req
    \<and> response_from_json (response_to_json (rpc_error JNull method_not_found)) = Some (response_view (rpc_error JNull method_not_found))"
proof -
  let ?req = "\<lparr>req_jsonrpc = ''2.0'', req_method = ''f'', req_params = JArray [JNull], req_id = JString ''7''\<rparr>"
  have "build_request (\<lambda>_. ''text'') ''f'' (JArray [JNull]) (JString ''7'') = Inr ?req"
    by (simp add: build_request_def Let_def MAX_PAYLOAD_SIZE_def)
  moreover have "\<forall>e. res_error (rpc_error JNull method_not_found) = Some e \<longrightarrow> i32_code e"
    by (simp add: rpc_error_def method_not_found_def i32_code_def)
  ultimately show ?thesis
    using messages_round_trip [of "\<lambda>_. ''text''" "''f''" "JArray [JNull]" "JString ''7''" ?req "\<lambda>_. Inr (request_to_json ?req)"
        "rpc_error JNull method_not_found" "\<lambda>_. ''shape''"] by (simp add: Let_def)
qed

end
