(* ===== verification/OrchNode.thy ===== *)
theory OrchNode
  imports Protocol
begin

text \<open>
  A node as the orchestrator sees it and its circuit breaker
  (\<open>crates/madrpc-orchestrator/src/node.rs\<close>): the state record, the transitions of the
  circuit, the claim of the half-open probe and the exponential backoff. The clock is an
  argument of every operation that reads it; arithmetic on machine integers wraps, as in the
  release profile.
\<close>

datatype disable_reason = Manual | HealthCheck

datatype health_check_status = Healthy | Unhealthy string

datatype circuit_breaker_state = Closed | Open | HalfOpen

record circuit_breaker_config =
  failure_threshold :: u32
  base_timeout_secs :: u64
  max_timeout_secs :: u64
  backoff_multiplier :: f64

definition default_circuit_config :: circuit_breaker_config where
  "default_circuit_config = \<lparr>failure_threshold = 5, base_timeout_secs = 30,
     max_timeout_secs = 300, backoff_multiplier = Fin 2\<rparr>"

definition calculate_timeout :: "circuit_breaker_config \<Rightarrow> u32 \<Rightarrow> duration" where
  "calculate_timeout cfg failures =
     (let base_ms = base_timeout_secs cfg * 1000;
          multiplier = f_powi (backoff_multiplier cfg) (sint (failures - 1));
          backoff_ms = f_to_u64 (f_mul (f_of_nat (unat base_ms)) multiplier);
          max_ms = max_timeout_secs cfg * 1000
      in from_millis (unat (min backoff_ms max_ms)))"

record node =
  addr :: string
  enabled :: bool
  disable_reason :: "disable_reason option"
  consecutive_failures :: u32
  last_health_check :: "instant option"
  last_health_check_status :: "health_check_status option"
  circuit_state :: circuit_breaker_state
  circuit_opened_at :: "system_time option"
  request_count :: u64
  last_request_time :: "system_time option"
  half_open_attempted :: bool

definition node_new :: "string \<Rightarrow> node" where
  "node_new a = \<lparr>addr = a, enabled = True, disable_reason = None, consecutive_failures = 0,
     last_health_check = None, last_health_check_status = None, circuit_state = Closed,
     circuit_opened_at = None, request_count = 0, last_request_time = None,
     half_open_attempted = False\<rparr>"

text \<open>\<open>SystemTime::elapsed\<close> fails when the clock went backwards; the code then uses zero.\<close>

definition elapsed_or_zero :: "system_time \<Rightarrow> system_time \<Rightarrow> duration" where
  "elapsed_or_zero now t = nat (now - t)"

definition should_attempt_half_open :: "circuit_breaker_config \<Rightarrow> system_time \<Rightarrow> node \<Rightarrow> bool" where
  "should_attempt_half_open cfg now n =
     (if circuit_state n \<noteq> Open then False
      else case circuit_opened_at n of
        Some opened_at \<Rightarrow>
          elapsed_or_zero now opened_at \<ge> calculate_timeout cfg (consecutive_failures n)
      | None \<Rightarrow> False)"

definition transition_circuit_state :: "system_time \<Rightarrow> circuit_breaker_state \<Rightarrow> node \<Rightarrow> node" where
  "transition_circuit_state now new_state n =
     (let n = n\<lparr>circuit_state := new_state\<rparr> in
      case new_state of
        Open \<Rightarrow> n\<lparr>circuit_opened_at := Some now, half_open_attempted := False\<rparr>
      | Closed \<Rightarrow> n\<lparr>circuit_opened_at := None, half_open_attempted := False\<rparr>
      | HalfOpen \<Rightarrow> n\<lparr>circuit_opened_at := None\<rparr>)"

text \<open>
  The compare-and-swap on the flag, executed atomically, and the transition it guards. The
  first component is the answer.
\<close>

definition try_transition_to_half_open :: "node \<Rightarrow> bool \<times> node" where
  "try_transition_to_half_open n =
     (if circuit_state n \<noteq> Open then (False, n)
      else if half_open_attempted n then (False, n)
      else (True, n\<lparr>half_open_attempted := True, circuit_state := HalfOpen, circuit_opened_at := None\<rparr>))"


section \<open>The invariant of a node\<close>

text \<open>
  A circuit has an opening time exactly while it is open, and the claim flag is raised
  exactly while it is half open.
\<close>

definition circuit_inv :: "node \<Rightarrow> bool" where
  "circuit_inv n \<longleftrightarrow> (circuit_opened_at n \<noteq> None \<longleftrightarrow> circuit_state n = Open)
     \<and> (half_open_attempted n \<longleftrightarrow> circuit_state n = HalfOpen)"

text \<open>A node is enabled exactly when it has no reason to be disabled.\<close>

definition node_inv :: "node \<Rightarrow> bool" where
  "node_inv n \<longleftrightarrow> circuit_inv n \<and> (enabled n \<longleftrightarrow> disable_reason n = None)"

text \<open>The legal steps of a circuit, as the comment on \<open>CircuitBreakerState\<close> lists them.\<close>

inductive cb_step :: "circuit_breaker_state \<Rightarrow> circuit_breaker_state \<Rightarrow> bool" where
  stay: "cb_step s s"
| trip: "cb_step Closed Open"
| probe: "cb_step Open HalfOpen"
| recover: "cb_step HalfOpen Closed"
| retrip: "cb_step HalfOpen Open"

inductive_simps cb_step_simps [simp]:
  "cb_step Closed s" "cb_step Open s" "cb_step HalfOpen s"

lemma node_inv_new [inv_intros, simp]: "node_inv (node_new a)"
  by (simp add: node_inv_def circuit_inv_def node_new_def)

lemma node_new_simps [simp]:
  "addr (node_new a) = a" "enabled (node_new a)" "circuit_state (node_new a) = Closed"
  "disable_reason (node_new a) = None" "consecutive_failures (node_new a) = 0"
  "request_count (node_new a) = 0"
  by (simp_all add: node_new_def)

lemma transition_simps [simp]:
  "addr (transition_circuit_state now s n) = addr n"
  "enabled (transition_circuit_state now s n) = enabled n"
  "disable_reason (transition_circuit_state now s n) = disable_reason n"
  "consecutive_failures (transition_circuit_state now s n) = consecutive_failures n"
  "request_count (transition_circuit_state now s n) = request_count n"
  "circuit_state (transition_circuit_state now s n) = s"
  by (simp_all add: transition_circuit_state_def Let_def split: circuit_breaker_state.split)

lemma circuit_inv_transition [inv_intros]:
  "s \<noteq> HalfOpen \<Longrightarrow> circuit_inv (transition_circuit_state now s n)"
  by (cases s) (simp_all add: transition_circuit_state_def circuit_inv_def)

lemma try_transition_simps [simp]:
  "addr (snd (try_transition_to_half_open n)) = addr n"
  "enabled (snd (try_transition_to_half_open n)) = enabled n"
  "disable_reason (snd (try_transition_to_half_open n)) = disable_reason n"
  "consecutive_failures (snd (try_transition_to_half_open n)) = consecutive_failures n"
  "request_count (snd (try_transition_to_half_open n)) = request_count n"
  by (simp_all add: try_transition_to_half_open_def)

lemma circuit_inv_try_transition [inv_intros]:
  "circuit_inv n \<Longrightarrow> circuit_inv (snd (try_transition_to_half_open n))"
  by (auto simp: try_transition_to_half_open_def circuit_inv_def)

lemma try_transition_open:
  "circuit_inv n \<Longrightarrow> circuit_state n = Open \<Longrightarrow>
   fst (try_transition_to_half_open n) \<and> circuit_state (snd (try_transition_to_half_open n)) = HalfOpen"
  by (auto simp: try_transition_to_half_open_def circuit_inv_def)

lemma try_transition_step:
  "cb_step (circuit_state n) (circuit_state (snd (try_transition_to_half_open n)))"
  by (auto simp: try_transition_to_half_open_def intro: cb_step.intros)


section \<open>The backoff\<close>

lemma calculate_timeout_le_max:
  "calculate_timeout cfg k \<le> from_millis (unat (max_timeout_secs cfg * 1000))"
proof -
  have "unat (min a b) \<le> unat b" for a b :: u64
    by (simp add: min.cobounded2 flip: word_le_nat_alt)
  then show ?thesis by (simp add: calculate_timeout_def Let_def)
qed


section \<open>Properties\<close>

text \<open>
  Exponential backoff: with multiplier 2 (the default) and delays that fit in the exactly
  representable integers, the timeout after \<open>k\<close> consecutive failures is
  \<open>min (base * 2 ^ (k - 1), max)\<close> in milliseconds, for every \<open>k \<ge> 1\<close> that fits in an
  \<open>i32\<close>, the floating-point computation and its overflow to infinity included.
\<close>

theorem backoff_doubles:
  assumes "backoff_multiplier cfg = Fin 2"
    and base: "unat (base_timeout_secs cfg) * 1000 \<le> 2 ^ 53"
    and max: "unat (max_timeout_secs cfg) * 1000 < 2 ^ 64"
    and k: "1 \<le> unat k" "unat k \<le> 2 ^ 31 - 1"
  shows "calculate_timeout cfg k =
    from_millis (min (unat (base_timeout_secs cfg) * 1000 * 2 ^ (unat k - 1))
      (unat (max_timeout_secs cfg) * 1000))"
proof -
  have "unat (k - 1) = unat k - 1" using k by (simp add: unat_sub word_le_nat_alt)
  with k have "sint (k - 1) = int (unat k - 1)" using sint_small [of "k - 1"] by simp
  moreover have "unat (base_timeout_secs cfg * 1000) = unat (base_timeout_secs cfg) * 1000"
    using base by (intro unat_mul_1000) simp
  moreover have "unat (max_timeout_secs cfg * 1000) = unat (max_timeout_secs cfg) * 1000"
    using max by (rule unat_mul_1000)
  ultimately show ?thesis
    using assms(1) f_to_nat_mul_pow2f [OF base]
    by (simp only: calculate_timeout_def Let_def f_powi_2 f_to_u64_def unat_min_u64)
qed

theorem backoff_doubles_witness:
  "calculate_timeout default_circuit_config 3 = from_millis 120000"
  using backoff_doubles [of default_circuit_config 3] by (simp add: default_circuit_config_def)

text \<open>
  A tripped circuit in the default configuration: the threshold is 5, and from 5
  consecutive failures on the timeout is the cap of 300 seconds, so the very first trip
  already waits the maximum (the comment on the field announces 30 seconds for it).
\<close>

theorem default_trip_waits_maximum:
  assumes "failure_threshold default_circuit_config \<le> k" "unat k \<le> 2 ^ 31 - 1"
  shows "calculate_timeout default_circuit_config k = from_secs 300"
proof -
  from assms(1) have k: "5 \<le> unat k" by (simp add: default_circuit_config_def word_le_nat_alt)
  then have "(2::nat) ^ 4 \<le> 2 ^ (unat k - 1)" by (intro power_increasing) auto
  then have "min (30 * 1000 * 2 ^ (unat k - 1)) (300 * 1000 :: nat) = 300 * 1000" by simp
  with backoff_doubles [of default_circuit_config k] k assms(2) show ?thesis
    by (simp add: default_circuit_config_def)
qed

theorem default_trip_waits_maximum_witness:
  "calculate_timeout default_circuit_config 5 = from_secs 300"
  using default_trip_waits_maximum [of 5] by (simp add: default_circuit_config_def)

text \<open>
  The claim of the half-open probe is exclusive: for a node that keeps the circuit
  invariant, the first attempt succeeds exactly when the circuit is open, moves it to half
  open and keeps the invariant, and every later attempt on the resulting node fails and
  changes nothing.
\<close>

theorem half_open_claim_exclusive:
  assumes "circuit_inv n"
  shows "fst (try_transition_to_half_open n) = (circuit_state n = Open)
    \<and> circuit_inv (snd (try_transition_to_half_open n))
    \<and> try_transition_to_half_open (snd (try_transition_to_half_open n))
      = (False, snd (try_transition_to_half_open n))"
  using assms by (auto simp: try_transition_to_half_open_def circuit_inv_def)

theorem half_open_claim_exclusive_witness:
  "fst (try_transition_to_half_open (transition_circuit_state 7 Open (node_new ''a'')))"
  using half_open_claim_exclusive [of "transition_circuit_state 7 Open (node_new ''a'')"]
  by (simp add: circuit_inv_transition)

end
