(* ===== verification/LoadBalancer.thy ===== *)
theory LoadBalancer
  imports OrchNode
begin

text \<open>
  The round-robin load balancer of \<open>crates/madrpc-orchestrator/src/load_balancer.rs\<close>: the
  pool as a hash map of nodes, the vector of enabled addresses, the index and the circuit
  configuration; one definition per method. Methods of \<open>&mut self\<close> return the new state.
  The interface \<open>node_selector\<close> states what a client of the pool relies on; it is
  interpreted here on the model of the code.
\<close>

record load_balancer =
  nodes :: "(string \<times> node) list"
  enabled_nodes :: "string list"
  round_robin_index :: nat
  circuit_config :: circuit_breaker_config

text \<open>Collecting into a \<open>HashMap\<close> keeps one entry per key.\<close>

definition collect_nodes :: "string list \<Rightarrow> (string \<times> node) list" where
  "collect_nodes addrs = fold (\<lambda>a m. AList.update a (node_new a) m) addrs []"

definition with_config :: "string list \<Rightarrow> circuit_breaker_config \<Rightarrow> load_balancer" where
  "with_config addrs cfg = \<lparr>nodes = collect_nodes addrs, enabled_nodes = addrs,
     round_robin_index = 0, circuit_config = cfg\<rparr>"

definition lb_new :: "string list \<Rightarrow> load_balancer" where
  "lb_new addrs = \<lparr>nodes = collect_nodes addrs, enabled_nodes = addrs,
     round_robin_index = 0, circuit_config = default_circuit_config\<rparr>"

text \<open>
  \<open>next_node\<close>: the loop makes as many turns as there are enabled addresses; each turn reads
  the index and advances it (\<open>wrapping_add\<close> on a 64-bit index), and the first node whose
  circuit is not open is counted and returned.
\<close>

definition count_request :: "system_time \<Rightarrow> node \<Rightarrow> node" where
  "count_request now n = n\<lparr>request_count := request_count n + 1, last_request_time := Some now\<rparr>"

fun next_node_loop :: "nat \<Rightarrow> system_time \<Rightarrow> load_balancer \<Rightarrow> string option \<times> load_balancer" where
  "next_node_loop 0 now lb = (None, lb)"
| "next_node_loop (Suc turns) now lb =
     (let len = length (enabled_nodes lb);
          idx = round_robin_index lb mod len;
          lb1 = lb\<lparr>round_robin_index := (round_robin_index lb + 1) mod 2 ^ 64 mod len\<rparr>;
          a = enabled_nodes lb ! idx in
      case map_of (nodes lb1) a of
        Some n \<Rightarrow>
          if circuit_state n \<noteq> Open
          then (Some a, lb1\<lparr>nodes := AList.map_entry a (count_request now) (nodes lb1)\<rparr>)
          else next_node_loop turns now lb1
      | None \<Rightarrow> next_node_loop turns now lb1)"

definition next_node :: "system_time \<Rightarrow> load_balancer \<Rightarrow> string option \<times> load_balancer" where
  "next_node now lb = (if enabled_nodes lb = [] then (None, lb)
     else next_node_loop (length (enabled_nodes lb)) now lb)"

text \<open>A write through \<open>get_mut\<close>, and the two updates of the vector.\<close>

abbreviation update_node :: "string \<Rightarrow> (node \<Rightarrow> node) \<Rightarrow> load_balancer \<Rightarrow> load_balancer" where
  "update_node a f lb \<equiv> lb\<lparr>nodes := AList.map_entry a f (nodes lb)\<rparr>"

definition retain_other :: "string \<Rightarrow> string list \<Rightarrow> string list" where
  "retain_other a as = filter (\<lambda>x. x \<noteq> a) as"

definition push_absent :: "string \<Rightarrow> string list \<Rightarrow> string list" where
  "push_absent a as = (if a \<in> set as then as else as @ [a])"

definition disable_node :: "string \<Rightarrow> load_balancer \<Rightarrow> bool \<times> load_balancer" where
  "disable_node a lb = (case map_of (nodes lb) a of
     Some n \<Rightarrow> (True, (update_node a (\<lambda>n. n\<lparr>enabled := False, disable_reason := Some Manual\<rparr>) lb)
       \<lparr>enabled_nodes := retain_other a (enabled_nodes lb)\<rparr>)
   | None \<Rightarrow> (False, lb))"

definition enable_node :: "string \<Rightarrow> load_balancer \<Rightarrow> bool \<times> load_balancer" where
  "enable_node a lb = (case map_of (nodes lb) a of
     Some n \<Rightarrow> (True, (update_node a (\<lambda>n. n\<lparr>enabled := True, disable_reason := None,
         consecutive_failures := 0\<rparr>) lb)
       \<lparr>enabled_nodes := push_absent a (enabled_nodes lb)\<rparr>)
   | None \<Rightarrow> (False, lb))"

definition auto_disable_node :: "string \<Rightarrow> load_balancer \<Rightarrow> bool \<times> load_balancer" where
  "auto_disable_node a lb = (case map_of (nodes lb) a of
     Some n \<Rightarrow>
       if disable_reason n \<noteq> Some Manual
       then (True, (update_node a (\<lambda>n. n\<lparr>enabled := False, disable_reason := Some HealthCheck\<rparr>) lb)
         \<lparr>enabled_nodes := retain_other a (enabled_nodes lb)\<rparr>)
       else (False, lb)
   | None \<Rightarrow> (False, lb))"

definition auto_enable_node :: "string \<Rightarrow> load_balancer \<Rightarrow> bool \<times> load_balancer" where
  "auto_enable_node a lb = (case map_of (nodes lb) a of
     Some n \<Rightarrow>
       if disable_reason n = Some HealthCheck
       then (True, (update_node a (\<lambda>n. n\<lparr>enabled := True, disable_reason := None,
           consecutive_failures := 0\<rparr>) lb)
         \<lparr>enabled_nodes := push_absent a (enabled_nodes lb)\<rparr>)
       else (False, lb)
   | None \<Rightarrow> (False, lb))"

text \<open>\<open>update_health_status\<close>: what it does to the node it finds, then to the pool.\<close>

definition record_health :: "circuit_breaker_config \<Rightarrow> instant \<Rightarrow> system_time \<Rightarrow>
    health_check_status \<Rightarrow> node \<Rightarrow> node" where
  "record_health cfg inst now status n0 =
     (let n = n0\<lparr>last_health_check := Some inst, last_health_check_status := Some status\<rparr> in
      case status of
        Healthy \<Rightarrow>
          (let n = n\<lparr>consecutive_failures := 0\<rparr> in
           if circuit_state n = HalfOpen then transition_circuit_state now Closed n else n)
      | Unhealthy _ \<Rightarrow>
          (let n = n\<lparr>consecutive_failures := consecutive_failures n + 1\<rparr> in
           case circuit_state n of
             Closed \<Rightarrow> if consecutive_failures n \<ge> failure_threshold cfg
               then transition_circuit_state now Open n else n
           | HalfOpen \<Rightarrow> transition_circuit_state now Open n
           | Open \<Rightarrow> n))"

definition update_health_status :: "instant \<Rightarrow> system_time \<Rightarrow> string \<Rightarrow> health_check_status \<Rightarrow>
    load_balancer \<Rightarrow> load_balancer" where
  "update_health_status inst now a status lb =
     update_node a (record_health (circuit_config lb) inst now status) lb"

text \<open>
  \<open>check_circuit_timeouts\<close> visits every node; \<open>clk a\<close> is the clock reading made for the
  node at \<open>a\<close>.
\<close>

definition check_timeout :: "circuit_breaker_config \<Rightarrow> system_time \<Rightarrow> node \<Rightarrow> bool \<times> node" where
  "check_timeout cfg now n =
     (if should_attempt_half_open cfg now n then try_transition_to_half_open n else (False, n))"

definition check_circuit_timeouts :: "(string \<Rightarrow> system_time) \<Rightarrow> load_balancer \<Rightarrow> bool \<times> load_balancer" where
  "check_circuit_timeouts clk lb =
     (let rs = map (\<lambda>(a, n). (a, check_timeout (circuit_config lb) (clk a) n)) (nodes lb) in
      (list_ex (\<lambda>(a, r). fst r) rs, lb\<lparr>nodes := map (\<lambda>(a, r). (a, snd r)) rs\<rparr>))"

definition lb_circuit_state :: "string \<Rightarrow> load_balancer \<Rightarrow> circuit_breaker_state option" where
  "lb_circuit_state a lb = map_option circuit_state (map_of (nodes lb) a)"

definition open_circuit_nodes :: "load_balancer \<Rightarrow> string list" where
  "open_circuit_nodes lb = map fst (filter (\<lambda>(_, n). circuit_state n = Open) (nodes lb))"

definition half_open_circuit_nodes :: "load_balancer \<Rightarrow> string list" where
  "half_open_circuit_nodes lb = map fst (filter (\<lambda>(_, n). circuit_state n = HalfOpen) (nodes lb))"

definition lb_consecutive_failures :: "string \<Rightarrow> load_balancer \<Rightarrow> u32" where
  "lb_consecutive_failures a lb = (case map_of (nodes lb) a of
     Some n \<Rightarrow> consecutive_failures n | None \<Rightarrow> 0)"

definition all_nodes :: "load_balancer \<Rightarrow> node list" where
  "all_nodes lb = map snd (nodes lb)"

definition disabled_nodes :: "load_balancer \<Rightarrow> string list" where
  "disabled_nodes lb = map fst (filter (\<lambda>(_, n). \<not> enabled n) (nodes lb))"

definition add_node :: "string \<Rightarrow> load_balancer \<Rightarrow> load_balancer" where
  "add_node a lb = (if map_of (nodes lb) a = None
     then lb\<lparr>nodes := AList.update a (node_new a) (nodes lb), enabled_nodes := enabled_nodes lb @ [a]\<rparr>
     else lb)"

definition remove_node :: "string \<Rightarrow> load_balancer \<Rightarrow> load_balancer" where
  "remove_node a lb = lb\<lparr>nodes := AList.delete a (nodes lb),
     enabled_nodes := retain_other a (enabled_nodes lb)\<rparr>"

definition node_count :: "load_balancer \<Rightarrow> nat" where
  "node_count lb = length (nodes lb)"

definition enabled_count :: "load_balancer \<Rightarrow> nat" where
  "enabled_count lb = length (enabled_nodes lb)"

definition node_addresses :: "load_balancer \<Rightarrow> string list" where
  "node_addresses lb = map fst (nodes lb)"

definition millis_since_epoch :: "system_time option \<Rightarrow> u64" where
  "millis_since_epoch t = (case t of None \<Rightarrow> 0 | Some t \<Rightarrow> if t < 0 then 0 else of_int (t div 1000000))"

text \<open>Metrics are keyed by the address a node stores.\<close>

definition node_metrics :: "load_balancer \<Rightarrow> (string \<times> node_metrics) list" where
  "node_metrics lb = fold (\<lambda>n m. AList.update (addr n)
     \<lparr>nm_node_addr = addr n, nm_request_count = request_count n,
      nm_last_request_ms = millis_since_epoch (last_request_time n)\<rparr> m) (all_nodes lb) []"


section \<open>The invariant of the pool\<close>

text \<open>
  The two data structures agree: the map has one entry per address, each filed under the
  address it stores and keeping the node's own invariant; the vector lists every enabled
  node once and nothing else; the index is in range of a 64-bit word.
\<close>

definition lb_inv :: "load_balancer \<Rightarrow> bool" where
  "lb_inv lb \<longleftrightarrow> wf_map (nodes lb)
     \<and> (\<forall>(a, n) \<in> set (nodes lb). addr n = a \<and> node_inv n)
     \<and> distinct (enabled_nodes lb)
     \<and> set (enabled_nodes lb) = fst ` {(a, n) \<in> set (nodes lb). enabled n}"

lemma lb_inv_iff:
  "lb_inv lb \<longleftrightarrow> wf_map (nodes lb)
     \<and> (\<forall>a n. map_of (nodes lb) a = Some n \<longrightarrow> addr n = a \<and> node_inv n)
     \<and> distinct (enabled_nodes lb)
     \<and> (\<forall>a. a \<in> set (enabled_nodes lb) \<longleftrightarrow> (\<exists>n. map_of (nodes lb) a = Some n \<and> enabled n))"
proof (cases "wf_map (nodes lb)")
  case True
  have "x \<in> fst ` {(a, n) \<in> set (nodes lb). enabled n} \<longleftrightarrow> (\<exists>n. (x, n) \<in> set (nodes lb) \<and> enabled n)" for x
    by force
  then show ?thesis
    unfolding lb_inv_def map_of_eq_Some_iff [OF True] set_eq_iff by (simp add: Ball_def)
qed (simp add: lb_inv_def)

lemma lb_inv_wf: "lb_inv lb \<Longrightarrow> wf_map (nodes lb)"
  by (simp add: lb_inv_def)

lemma lb_inv_node: "lb_inv lb \<Longrightarrow> map_of (nodes lb) a = Some n \<Longrightarrow> addr n = a \<and> node_inv n"
  by (simp add: lb_inv_iff)

lemma lb_inv_circuit: "lb_inv lb \<Longrightarrow> map_of (nodes lb) a = Some n \<Longrightarrow> circuit_inv n"
  by (simp add: lb_inv_iff node_inv_def)

lemma lb_inv_reason: "lb_inv lb \<Longrightarrow> map_of (nodes lb) a = Some n \<Longrightarrow> enabled n \<longleftrightarrow> disable_reason n = None"
  by (simp add: lb_inv_iff node_inv_def)

lemma lb_inv_enabled:
  "lb_inv lb \<Longrightarrow> a \<in> set (enabled_nodes lb) \<longleftrightarrow> (\<exists>n. map_of (nodes lb) a = Some n \<and> enabled n)"
  by (simp add: lb_inv_iff)

lemma retain_other_simps [simp]:
  "set (retain_other a as) = set as - {a}" "distinct as \<Longrightarrow> distinct (retain_other a as)"
  by (auto simp: retain_other_def)

lemma push_absent_simps [simp]:
  "set (push_absent a as) = insert a (set as)" "distinct as \<Longrightarrow> distinct (push_absent a as)"
  by (auto simp: push_absent_def)

text \<open>One rule for every write to a node that keeps its address, with the vector it leaves.\<close>

lemma lb_inv_write [inv_intros]:
  assumes "lb_inv lb"
    and "\<And>n. map_of (nodes lb) a = Some n \<Longrightarrow> addr (f n) = a \<and> node_inv (f n)"
    and "distinct es"
    and "\<And>b. b \<in> set es \<longleftrightarrow> (if b = a then \<exists>n. map_of (nodes lb) a = Some n \<and> enabled (f n)
      else b \<in> set (enabled_nodes lb))"
  shows "lb_inv (lb\<lparr>nodes := AList.map_entry a f (nodes lb), enabled_nodes := es\<rparr>)"
  using assms by (auto simp: lb_inv_iff split: if_splits)

lemma lb_inv_update_node [inv_intros]:
  assumes "lb_inv lb"
    and "\<And>n. map_of (nodes lb) a = Some n \<Longrightarrow>
      addr (f n) = addr n \<and> node_inv (f n) \<and> enabled (f n) = enabled n"
  shows "lb_inv (update_node a f lb)"
proof -
  have "lb_inv (lb\<lparr>nodes := AList.map_entry a f (nodes lb), enabled_nodes := enabled_nodes lb\<rparr>)"
    using assms by (intro lb_inv_write) (auto simp: lb_inv_iff)
  then show ?thesis by simp
qed

lemma lb_inv_index [simp]: "lb_inv (lb\<lparr>round_robin_index := i\<rparr>) = lb_inv lb"
  by (simp add: lb_inv_def)

lemma map_of_collect_aux:
  "map_of (fold (\<lambda>a m. AList.update a (node_new a) m) addrs m) a
     = (if a \<in> set addrs then Some (node_new a) else map_of m a)"
  by (induction addrs arbitrary: m) auto

lemma map_of_collect: "map_of (collect_nodes addrs) a = (if a \<in> set addrs then Some (node_new a) else None)"
  by (simp add: collect_nodes_def map_of_collect_aux)

lemma wf_collect: "wf_map (collect_nodes addrs)"
proof -
  have "wf_map m \<Longrightarrow> wf_map (fold (\<lambda>a m. AList.update a (node_new a) m) addrs m)" for m
    by (induction addrs arbitrary: m) auto
  then show ?thesis by (simp add: collect_nodes_def)
qed

lemma lb_inv_with_config [inv_intros]: "distinct addrs \<Longrightarrow> lb_inv (with_config addrs cfg)"
  by (auto simp: lb_inv_iff with_config_def map_of_collect wf_collect split: if_splits)

lemma lb_new_eq: "lb_new addrs = with_config addrs default_circuit_config"
  by (simp add: lb_new_def with_config_def)

lemma lb_inv_disable_node [inv_intros]: "lb_inv lb \<Longrightarrow> lb_inv (snd (disable_node a lb))"
  by (auto simp: disable_node_def split: option.splits intro!: lb_inv_write)
     (auto simp: lb_inv_iff node_inv_def circuit_inv_def split: if_splits)

lemma lb_inv_enable_node [inv_intros]: "lb_inv lb \<Longrightarrow> lb_inv (snd (enable_node a lb))"
  by (auto simp: enable_node_def split: option.splits intro!: lb_inv_write)
     (auto simp: lb_inv_iff node_inv_def circuit_inv_def split: if_splits)

lemma lb_inv_auto_disable_node [inv_intros]: "lb_inv lb \<Longrightarrow> lb_inv (snd (auto_disable_node a lb))"
  by (auto simp: auto_disable_node_def split: option.splits intro!: lb_inv_write)
     (auto simp: lb_inv_iff node_inv_def circuit_inv_def split: if_splits)

lemma lb_inv_auto_enable_node [inv_intros]: "lb_inv lb \<Longrightarrow> lb_inv (snd (auto_enable_node a lb))"
  by (auto simp: auto_enable_node_def split: option.splits intro!: lb_inv_write)
     (auto simp: lb_inv_iff node_inv_def circuit_inv_def split: if_splits)

lemma record_health_simps [simp]:
  "addr (record_health cfg inst now st n) = addr n"
  "enabled (record_health cfg inst now st n) = enabled n"
  "disable_reason (record_health cfg inst now st n) = disable_reason n"
  "request_count (record_health cfg inst now st n) = request_count n"
  by (simp_all add: record_health_def Let_def split: health_check_status.split circuit_breaker_state.split)

lemma circuit_inv_record_health [inv_intros]:
  "circuit_inv n \<Longrightarrow> circuit_inv (record_health cfg inst now st n)"
  by (auto simp: record_health_def Let_def circuit_inv_def transition_circuit_state_def
      split: health_check_status.split circuit_breaker_state.split)

lemma lb_inv_update_health [inv_intros]: "lb_inv lb \<Longrightarrow> lb_inv (update_health_status inst now a st lb)"
  unfolding update_health_status_def
  by (rule lb_inv_update_node) (auto simp: node_inv_def intro: circuit_inv_record_health lb_inv_circuit dest: lb_inv_reason)

lemma lb_inv_add_node [inv_intros]: "lb_inv lb \<Longrightarrow> lb_inv (add_node a lb)"
  by (auto simp: add_node_def lb_inv_iff split: if_splits)

lemma lb_inv_remove_node [inv_intros]: "lb_inv lb \<Longrightarrow> lb_inv (remove_node a lb)"
  by (auto simp: remove_node_def lb_inv_iff split: if_splits)

lemma check_timeout_simps [simp]:
  "addr (snd (check_timeout cfg now n)) = addr n"
  "enabled (snd (check_timeout cfg now n)) = enabled n"
  "disable_reason (snd (check_timeout cfg now n)) = disable_reason n"
  "consecutive_failures (snd (check_timeout cfg now n)) = consecutive_failures n"
  "request_count (snd (check_timeout cfg now n)) = request_count n"
  by (simp_all add: check_timeout_def)

lemma node_inv_check_timeout [inv_intros]: "node_inv n \<Longrightarrow> node_inv (snd (check_timeout cfg now n))"
  by (auto simp: node_inv_def check_timeout_def circuit_inv_try_transition)

lemma map_of_check_timeouts:
  "map_of (nodes (snd (check_circuit_timeouts clk lb))) a
     = map_option (\<lambda>n. snd (check_timeout (circuit_config lb) (clk a) n)) (map_of (nodes lb) a)"
proof -
  have "map_of (map (\<lambda>(a, n). (a, f a n)) m) a = map_option (f a) (map_of m a)" for f :: "string \<Rightarrow> node \<Rightarrow> node" and m
    by (induction m) auto
  then show ?thesis by (simp add: check_circuit_timeouts_def o_def case_prod_unfold)
qed

lemma check_timeouts_simps [simp]:
  "keys (nodes (snd (check_circuit_timeouts clk lb))) = keys (nodes lb)"
  "enabled_nodes (snd (check_circuit_timeouts clk lb)) = enabled_nodes lb"
  "round_robin_index (snd (check_circuit_timeouts clk lb)) = round_robin_index lb"
  "circuit_config (snd (check_circuit_timeouts clk lb)) = circuit_config lb"
  by (simp_all add: check_circuit_timeouts_def o_def case_prod_unfold)

lemma lb_inv_check_timeouts [inv_intros]: "lb_inv lb \<Longrightarrow> lb_inv (snd (check_circuit_timeouts clk lb))"
  by (auto simp: lb_inv_iff map_of_check_timeouts node_inv_check_timeout)

section \<open>Selection\<close>

text \<open>An address the loop may return, and the address the loop looks at in turn \<open>j\<close>.\<close>

definition selectable :: "load_balancer \<Rightarrow> string \<Rightarrow> bool" where
  "selectable lb a = (case map_of (nodes lb) a of Some n \<Rightarrow> circuit_state n \<noteq> Open | None \<Rightarrow> False)"

definition turn_addr :: "load_balancer \<Rightarrow> nat \<Rightarrow> string" where
  "turn_addr lb j = enabled_nodes lb ! ((round_robin_index lb + j) mod length (enabled_nodes lb))"

text \<open>
  A Rust vector has fewer than \<open>2 ^ 63\<close> elements; the index starts at 0 and is always reduced
  modulo the length of the vector at the time.
\<close>

definition lb_bounds :: "load_balancer \<Rightarrow> bool" where
  "lb_bounds lb \<longleftrightarrow> length (enabled_nodes lb) < 2 ^ 63 \<and> round_robin_index lb < 2 ^ 63"

text \<open>The state in which a request was routed to \<open>a\<close> in turn \<open>k\<close>.\<close>

abbreviation routed :: "system_time \<Rightarrow> nat \<Rightarrow> string \<Rightarrow> load_balancer \<Rightarrow> load_balancer" where
  "routed now k a lb \<equiv> lb\<lparr>round_robin_index := (round_robin_index lb + Suc k) mod length (enabled_nodes lb),
     nodes := AList.map_entry a (count_request now) (nodes lb)\<rparr>"

definition selects :: "nat \<Rightarrow> system_time \<Rightarrow> load_balancer \<Rightarrow> string option \<times> load_balancer \<Rightarrow> bool" where
  "selects t now lb r = (case r of
     (None, lb') \<Rightarrow> (\<forall>j < t. \<not> selectable lb (turn_addr lb j)) \<and>
       lb' = (if t = 0 then lb else lb\<lparr>round_robin_index := (round_robin_index lb + t) mod length (enabled_nodes lb)\<rparr>)
   | (Some a, lb') \<Rightarrow> (\<exists>k < t. a = turn_addr lb k \<and> selectable lb a \<and>
       (\<forall>j < k. \<not> selectable lb (turn_addr lb j)) \<and> lb' = routed now k a lb))"

lemma selects_skip:
  fixes lb
  defines "lb1 \<equiv> lb\<lparr>round_robin_index := (round_robin_index lb + 1) mod length (enabled_nodes lb)\<rparr>"
  assumes "\<not> selectable lb (turn_addr lb 0)" and r: "selects t now lb1 r"
  shows "selects (Suc t) now lb r"
proof -
  have turn: "turn_addr lb1 j = turn_addr lb (Suc j)" for j
    by (simp add: turn_addr_def lb1_def mod_add_left_eq)
  have sel: "selectable lb1 = selectable lb"
    by (simp add: selectable_def lb1_def fun_eq_iff)
  have idx: "(round_robin_index lb1 + j) mod length (enabled_nodes lb1)
      = (round_robin_index lb + Suc j) mod length (enabled_nodes lb)" for j
    by (simp add: lb1_def mod_add_left_eq)
  show ?thesis
  proof (cases r)
    case (Pair res lb')
    show ?thesis
    proof (cases res)
      case None
      with r Pair have "\<forall>j < t. \<not> selectable lb (turn_addr lb (Suc j))"
        by (simp add: selects_def turn sel)
      with assms(2) have "\<forall>j < Suc t. \<not> selectable lb (turn_addr lb j)"
        by (simp add: All_less_Suc2)
      moreover have "lb' = lb\<lparr>round_robin_index := (round_robin_index lb + Suc t) mod length (enabled_nodes lb)\<rparr>"
        using r Pair None idx [of t] by (auto simp: selects_def lb1_def)
      ultimately show ?thesis by (simp add: selects_def Pair None)
    next
      case (Some a)
      with r Pair obtain k where k: "k < t" "a = turn_addr lb (Suc k)" "selectable lb a"
          "\<forall>j < k. \<not> selectable lb (turn_addr lb (Suc j))" "lb' = routed now k a lb1"
        by (auto simp: selects_def turn sel)
      from k(4) assms(2) have "\<forall>j < Suc k. \<not> selectable lb (turn_addr lb j)"
        by (simp add: All_less_Suc2)
      moreover have "lb' = routed now (Suc k) a lb"
        using k(5) idx [of "Suc k"] by (simp add: lb1_def)
      ultimately show ?thesis using k(1,2,3) by (auto simp: selects_def Pair Some)
    qed
  qed
qed

lemma next_node_loop_selects:
  "enabled_nodes lb \<noteq> [] \<Longrightarrow> lb_bounds lb \<Longrightarrow> selects t now lb (next_node_loop t now lb)"
proof (induction t arbitrary: lb)
  case 0
  then show ?case by (simp add: selects_def)
next
  case (Suc t)
  define lb1 where "lb1 = lb\<lparr>round_robin_index := (round_robin_index lb + 1) mod length (enabled_nodes lb)\<rparr>"
  have i: "(round_robin_index lb + 1) mod 2 ^ 64 mod length (enabled_nodes lb)
      = (round_robin_index lb + 1) mod length (enabled_nodes lb)"
    using Suc.prems(2) by (simp add: lb_bounds_def)
  have t0: "turn_addr lb 0 = enabled_nodes lb ! (round_robin_index lb mod length (enabled_nodes lb))"
    by (simp add: turn_addr_def)
  show ?case
  proof (cases "selectable lb (turn_addr lb 0)")
    case True
    then have "next_node_loop (Suc t) now lb = (Some (turn_addr lb 0), routed now 0 (turn_addr lb 0) lb)"
      using i by (auto simp: selectable_def t0 Let_def split: option.splits)
    with True show ?thesis by (auto simp: selects_def)
  next
    case False
    then have "next_node_loop (Suc t) now lb = next_node_loop t now lb1"
      unfolding lb1_def using i by (auto simp: selectable_def t0 Let_def split: option.splits)
    moreover have "round_robin_index lb1 < length (enabled_nodes lb)"
      using Suc.prems(1) by (simp add: lb1_def)
    then have "lb_bounds lb1" using Suc.prems(2) by (auto simp: lb_bounds_def lb1_def)
    then have "selects t now lb1 (next_node_loop t now lb1)"
      using Suc.prems(1) by (intro Suc.IH) (simp_all add: lb1_def)
    ultimately show ?thesis using False selects_skip unfolding lb1_def by simp
  qed
qed

text \<open>Every enabled address is looked at in some turn, and only those.\<close>

lemma turn_addr_in: "enabled_nodes lb \<noteq> [] \<Longrightarrow> turn_addr lb j \<in> set (enabled_nodes lb)"
  by (simp add: turn_addr_def)

lemma turn_addr_hits:
  assumes "a \<in> set (enabled_nodes lb)"
  obtains j where "j < length (enabled_nodes lb)" "turn_addr lb j = a"
proof -
  let ?L = "length (enabled_nodes lb)" and ?r = "round_robin_index lb mod length (enabled_nodes lb)"
  from assms obtain i where i: "i < ?L" "enabled_nodes lb ! i = a" by (auto simp: in_set_conv_nth)
  then have L: "0 < ?L" by auto
  define j where "j = (i + ?L - ?r) mod ?L"
  have "(round_robin_index lb + j) mod ?L = (?r + (i + ?L - ?r)) mod ?L"
    unfolding j_def by (simp add: mod_add_left_eq mod_add_right_eq)
  also have "?r < ?L" using L by simp
  then have "?r + (i + ?L - ?r) = i + ?L" by simp
  finally have "turn_addr lb j = a" using i by (simp add: turn_addr_def)
  moreover have "j < ?L" using L by (simp add: j_def)
  ultimately show thesis using that by blast
qed

lemma next_node_selects:
  "enabled_nodes lb \<noteq> [] \<Longrightarrow> lb_bounds lb \<Longrightarrow>
   selects (length (enabled_nodes lb)) now lb (next_node now lb)"
  by (simp add: next_node_def next_node_loop_selects)

lemma next_node_Some:
  assumes "lb_bounds lb" "next_node now lb = (Some a, lb')"
  obtains k where "k < length (enabled_nodes lb)" "a = turn_addr lb k" "selectable lb a"
    "\<forall>j < k. \<not> selectable lb (turn_addr lb j)" "lb' = routed now k a lb"
proof -
  have ne: "enabled_nodes lb \<noteq> []" using assms(2) by (auto simp: next_node_def)
  from next_node_selects [OF ne assms(1), of now] assms(2) that show thesis
    by (auto simp: selects_def)
qed

lemma next_node_None:
  assumes "lb_bounds lb" "next_node now lb = (None, lb')"
  shows "\<forall>a \<in> set (enabled_nodes lb). \<not> selectable lb a"
    and "lb' = lb\<lparr>round_robin_index := round_robin_index lb'\<rparr>"
    and "round_robin_index lb' = (if enabled_nodes lb = [] then round_robin_index lb
      else round_robin_index lb mod length (enabled_nodes lb))"
proof (atomize (full), cases "enabled_nodes lb = []")
  case False
  from next_node_selects [OF False assms(1), of now] assms(2) False
  have *: "\<forall>j < length (enabled_nodes lb). \<not> selectable lb (turn_addr lb j)"
    "lb' = lb\<lparr>round_robin_index := (round_robin_index lb + length (enabled_nodes lb)) mod length (enabled_nodes lb)\<rparr>"
    by (simp_all add: selects_def)
  moreover from * False have "\<forall>a \<in> set (enabled_nodes lb). \<not> selectable lb a"
    by (metis turn_addr_hits)
  ultimately show "(\<forall>a \<in> set (enabled_nodes lb). \<not> selectable lb a) \<and>
    lb' = lb\<lparr>round_robin_index := round_robin_index lb'\<rparr> \<and>
    round_robin_index lb' = (if enabled_nodes lb = [] then round_robin_index lb
      else round_robin_index lb mod length (enabled_nodes lb))"
    using False by simp
qed (use assms in \<open>simp add: next_node_def\<close>)

lemma selectable_iff: "selectable lb a \<longleftrightarrow> (\<exists>n. map_of (nodes lb) a = Some n \<and> circuit_state n \<noteq> Open)"
  by (auto simp: selectable_def split: option.splits)

lemma count_request_simps [simp]:
  "addr (count_request now n) = addr n" "enabled (count_request now n) = enabled n"
  "disable_reason (count_request now n) = disable_reason n"
  "circuit_state (count_request now n) = circuit_state n"
  "consecutive_failures (count_request now n) = consecutive_failures n"
  "request_count (count_request now n) = request_count n + 1"
  "last_request_time (count_request now n) = Some now"
  by (simp_all add: count_request_def)

lemma circuit_inv_count_request [simp]: "circuit_inv (count_request now n) = circuit_inv n"
  by (simp add: circuit_inv_def count_request_def)

lemma selectable_routed [simp]:
  "selectable (lb\<lparr>round_robin_index := i, nodes := AList.map_entry a (count_request now) (nodes lb)\<rparr>) = selectable lb"
  by (auto simp: selectable_def fun_eq_iff split: option.splits)

lemma selectable_index [simp]: "selectable (lb\<lparr>round_robin_index := i\<rparr>) = selectable lb"
  by (simp add: selectable_def fun_eq_iff)

lemma lb_inv_routed: "lb_inv lb \<Longrightarrow>
  lb_inv (lb\<lparr>round_robin_index := i, nodes := AList.map_entry a (count_request now) (nodes lb)\<rparr>)"
proof -
  assume "lb_inv lb"
  then have "lb_inv (update_node a (count_request now) lb)"
    by (intro lb_inv_update_node) (auto simp: lb_inv_iff node_inv_def)
  then show ?thesis by (simp add: lb_inv_def)
qed

lemma next_node_frame:
  assumes "lb_bounds lb"
  shows "enabled_nodes (snd (next_node now lb)) = enabled_nodes lb"
    and "circuit_config (snd (next_node now lb)) = circuit_config lb"
    and "selectable (snd (next_node now lb)) = selectable lb"
    and "lb_bounds (snd (next_node now lb))"
    and "lb_inv lb \<Longrightarrow> lb_inv (snd (next_node now lb))"
proof -
  have "enabled_nodes (snd (next_node now lb)) = enabled_nodes lb
    \<and> circuit_config (snd (next_node now lb)) = circuit_config lb
    \<and> selectable (snd (next_node now lb)) = selectable lb
    \<and> lb_bounds (snd (next_node now lb)) \<and> (lb_inv lb \<longrightarrow> lb_inv (snd (next_node now lb)))"
  proof (cases "next_node now lb")
    case (Pair res lb')
    show ?thesis
    proof (cases res)
      case None
      from next_node_None [OF assms Pair [unfolded None]] obtain i
        where "lb' = lb\<lparr>round_robin_index := i\<rparr>" "i \<le> round_robin_index lb"
        by (metis load_balancer.select_convs(3) load_balancer.surjective load_balancer.update_convs(3)
            mod_less_eq_dividend order_refl)
      then show ?thesis using assms by (simp add: Pair lb_bounds_def)
    next
      case (Some a)
      from next_node_Some [OF assms Pair [unfolded Some]] obtain k
        where "k < length (enabled_nodes lb)" "lb' = routed now k a lb" .
      moreover from this(1) have "(round_robin_index lb + Suc k) mod length (enabled_nodes lb)
          < length (enabled_nodes lb)" by (intro mod_less_divisor) auto
      ultimately show ?thesis using assms by (auto simp: Pair lb_inv_routed lb_bounds_def)
    qed
  qed
  then show "enabled_nodes (snd (next_node now lb)) = enabled_nodes lb"
    and "circuit_config (snd (next_node now lb)) = circuit_config lb"
    and "selectable (snd (next_node now lb)) = selectable lb"
    and "lb_bounds (snd (next_node now lb))"
    and "lb_inv lb \<Longrightarrow> lb_inv (snd (next_node now lb))" by auto
qed


section \<open>The interface a forwarder relies on\<close>

text \<open>
  What the orchestrator needs of a node selector: selecting keeps the invariant and the set of
  available addresses, returns only an available address, and fails only when there is none.
\<close>

text \<open>A run of selections made at the given times, with any selector.\<close>

primrec select_run :: "('t \<Rightarrow> 's \<Rightarrow> string option \<times> 's) \<Rightarrow> 't list \<Rightarrow> 's \<Rightarrow> string option list \<times> 's" where
  "select_run select [] s = ([], s)"
| "select_run select (t # ts) s =
     (let (r, s') = select t s; (rs, s'') = select_run select ts s' in (r # rs, s''))"

locale node_selector =
  fixes select :: "'t \<Rightarrow> 's \<Rightarrow> string option \<times> 's"
    and inv :: "'s \<Rightarrow> bool"
    and avail :: "'s \<Rightarrow> string set"
  assumes select_inv: "inv s \<Longrightarrow> inv (snd (select t s))"
    and select_avail: "inv s \<Longrightarrow> avail (snd (select t s)) = avail s"
    and select_Some: "inv s \<Longrightarrow> fst (select t s) = Some a \<Longrightarrow> a \<in> avail s"
    and select_None: "inv s \<Longrightarrow> fst (select t s) = None \<Longrightarrow> avail s = {}"
begin

lemma select_iff: "inv s \<Longrightarrow> fst (select t s) = None \<longleftrightarrow> avail s = {}"
  using select_None [of s t] select_Some [of s t] by (cases "fst (select t s)") auto

lemma run_inv: "inv s \<Longrightarrow> inv (snd (select_run select ts s)) \<and> avail (snd (select_run select ts s)) = avail s"
proof (induction ts arbitrary: s)
  case (Cons t ts)
  then show ?case
    using select_inv [of s t] select_avail [of s t] by (auto simp: split_beta)
qed simp

lemma run_sound: "inv s \<Longrightarrow> Some a \<in> set (fst (select_run select ts s)) \<Longrightarrow> a \<in> avail s"
proof (induction ts arbitrary: s)
  case (Cons t ts)
  then show ?case
    using select_inv [of s t] select_avail [of s t] select_Some [of s t a]
    by (auto simp: split_beta)
qed simp

end

text \<open>The pool's available addresses: enabled, in the pool, circuit not open.\<close>

definition available :: "load_balancer \<Rightarrow> string set" where
  "available lb = {a \<in> set (enabled_nodes lb). selectable lb a}"

definition lb_ok :: "load_balancer \<Rightarrow> bool" where
  "lb_ok lb \<longleftrightarrow> lb_inv lb \<and> lb_bounds lb"

interpretation lb: node_selector next_node lb_ok available
proof
  fix s t a
  assume "lb_ok s"
  then have b: "lb_bounds s" and i: "lb_inv s" by (auto simp: lb_ok_def)
  show "lb_ok (snd (next_node t s))"
    using next_node_frame(4,5) [OF b, of t] i by (simp add: lb_ok_def)
  show "available (snd (next_node t s)) = available s"
    using next_node_frame(1,3) [OF b, of t] by (simp add: available_def)
  show "a \<in> available s" if "fst (next_node t s) = Some a"
  proof -
    from that have "next_node t s = (Some a, snd (next_node t s))" by (metis prod.collapse)
    from next_node_Some [OF b this] obtain k
      where "k < length (enabled_nodes s)" "a = turn_addr s k" "selectable s a" .
    moreover from this(1) have "enabled_nodes s \<noteq> []" by auto
    ultimately show ?thesis using turn_addr_in by (auto simp: available_def)
  qed
  show "available s = {}" if "fst (next_node t s) = None"
  proof -
    from that have "next_node t s = (None, snd (next_node t s))" by (metis prod.collapse)
    from next_node_None(1) [OF b this] show ?thesis by (auto simp: available_def)
  qed
qed

section \<open>Runs of operations\<close>

text \<open>The public operations as labels, and a history of the pool as a list of them.\<close>

datatype lb_op =
    NextNode system_time
  | DisableNode string
  | EnableNode string
  | AutoDisableNode string
  | AutoEnableNode string
  | UpdateHealthStatus instant system_time string health_check_status
  | CheckCircuitTimeouts "string \<Rightarrow> system_time"
  | AddNode string
  | RemoveNode string

fun lb_exec :: "lb_op \<Rightarrow> load_balancer \<Rightarrow> load_balancer" where
  "lb_exec (NextNode now) lb = snd (next_node now lb)"
| "lb_exec (DisableNode a) lb = snd (disable_node a lb)"
| "lb_exec (EnableNode a) lb = snd (enable_node a lb)"
| "lb_exec (AutoDisableNode a) lb = snd (auto_disable_node a lb)"
| "lb_exec (AutoEnableNode a) lb = snd (auto_enable_node a lb)"
| "lb_exec (UpdateHealthStatus inst now a st) lb = update_health_status inst now a st lb"
| "lb_exec (CheckCircuitTimeouts clk) lb = snd (check_circuit_timeouts clk lb)"
| "lb_exec (AddNode a) lb = add_node a lb"
| "lb_exec (RemoveNode a) lb = remove_node a lb"

definition lb_run :: "lb_op list \<Rightarrow> load_balancer \<Rightarrow> load_balancer" where
  "lb_run ops lb = fold lb_exec ops lb"

lemma lb_inv_next_loop: "lb_inv lb \<Longrightarrow> lb_inv (snd (next_node_loop t now lb))"
  by (induction t arbitrary: lb) (simp_all add: Let_def lb_inv_routed split: option.split)

lemma lb_inv_exec: "lb_inv lb \<Longrightarrow> lb_inv (lb_exec op lb)"
  by (cases op) (auto simp: next_node_def intro: inv_intros lb_inv_next_loop)

lemma lb_inv_run: "lb_inv lb \<Longrightarrow> lb_inv (lb_run ops lb)"
  unfolding lb_run_def by (induction ops arbitrary: lb) (auto intro: lb_inv_exec)

text \<open>What one operation does to the node stored at an address.\<close>

lemma map_of_next_loop:
  "map_of (nodes (snd (next_node_loop t now lb))) b = Some n' \<Longrightarrow>
   \<exists>n. map_of (nodes lb) b = Some n \<and> (n' = n \<or> n' = count_request now n)"
proof (induction t arbitrary: lb)
  case (Suc t)
  then show ?case by (fastforce simp: Let_def split: option.splits if_splits)
qed simp

lemma map_of_next:
  assumes "map_of (nodes (snd (next_node now lb))) b = Some n'"
  obtains n where "map_of (nodes lb) b = Some n" "n' = n \<or> n' = count_request now n"
  using assms that map_of_next_loop [of "length (enabled_nodes lb)" now lb b n']
  by (auto simp: next_node_def split: if_splits)

lemma cb_step_record_health: "cb_step (circuit_state n) (circuit_state (record_health cfg inst now st n))"
  by (cases "circuit_state n"; cases st) (simp_all add: record_health_def Let_def)

lemma cb_step_check_timeout: "cb_step (circuit_state n) (circuit_state (snd (check_timeout cfg now n)))"
  by (simp add: check_timeout_def try_transition_step cb_step.stay)

lemma map_of_exec:
  assumes "map_of (nodes (lb_exec op lb)) b = Some n'"
  shows "(\<exists>n. map_of (nodes lb) b = Some n \<and> cb_step (circuit_state n) (circuit_state n')
      \<and> (disable_reason n = Some Manual \<longrightarrow> op \<noteq> EnableNode b \<longrightarrow> disable_reason n' = Some Manual))
    \<or> (op = AddNode b \<and> map_of (nodes lb) b = None \<and> n' = node_new b)"
proof (cases op)
  case (NextNode now)
  with assms obtain n where "map_of (nodes lb) b = Some n" "n' = n \<or> n' = count_request now n"
    by (auto elim: map_of_next)
  then show ?thesis using NextNode by (auto intro: cb_step.stay)
next
  case (UpdateHealthStatus inst now a st)
  with assms show ?thesis
    by (auto simp: update_health_status_def cb_step_record_health cb_step.stay split: if_splits)
next
  case (CheckCircuitTimeouts clk)
  with assms show ?thesis by (auto simp: map_of_check_timeouts cb_step_check_timeout)
qed (use assms in \<open>auto simp: disable_node_def enable_node_def auto_disable_node_def
    auto_enable_node_def add_node_def remove_node_def cb_step.stay split: option.splits if_splits\<close>)

section \<open>Rotation\<close>

lemma turn_addr_routed:
  "turn_addr (routed now k a lb) j = turn_addr lb (Suc k + j)"
  by (simp add: turn_addr_def mod_add_left_eq add.assoc)

lemma next_node_first:
  assumes "lb_bounds lb" "selectable lb (turn_addr lb d)" "d < length (enabled_nodes lb)"
  obtains k where "k \<le> d" "next_node now lb = (Some (turn_addr lb k), routed now k (turn_addr lb k) lb)"
    "selectable lb (turn_addr lb k)"
proof (cases "next_node now lb")
  case (Pair res lb')
  show ?thesis
  proof (cases res)
    case None
    have "turn_addr lb d \<in> set (enabled_nodes lb)" using assms(3) by (intro turn_addr_in) auto
    with next_node_None(1) [OF assms(1) Pair [unfolded None]] assms(2) show ?thesis by simp
  next
    case (Some a)
    from next_node_Some [OF assms(1) Pair [unfolded Some]] obtain k where
      "a = turn_addr lb k" "selectable lb a" "\<forall>j < k. \<not> selectable lb (turn_addr lb j)"
      "lb' = routed now k a lb" .
    moreover from this(3) assms(2) have "k \<le> d" by (meson not_le)
    ultimately show ?thesis using that Pair Some by simp
  qed
qed

lemma lb_bounds_next: "lb_bounds lb \<Longrightarrow> next_node now lb = (r, lb') \<Longrightarrow> lb_bounds lb'"
  using next_node_frame(4) [of lb now] by simp

lemma select_run_reaches:
  "lb_bounds lb \<Longrightarrow> selectable lb (turn_addr lb d) \<Longrightarrow> d < length (enabled_nodes lb) \<Longrightarrow>
   d < length ts \<Longrightarrow> Some (turn_addr lb d) \<in> set (fst (select_run next_node ts lb))"
proof (induction ts arbitrary: lb d)
  case (Cons t ts)
  from next_node_first [OF Cons.prems(1-3), of t] obtain k where k: "k \<le> d"
    "next_node t lb = (Some (turn_addr lb k), routed t k (turn_addr lb k) lb)" .
  show ?case
  proof (cases "k = d")
    case True
    with k show ?thesis by (simp add: split_beta)
  next
    case False
    let ?lb = "routed t k (turn_addr lb k) lb"
    from False k(1) have d: "turn_addr ?lb (d - Suc k) = turn_addr lb d" "d - Suc k < length ts"
      using Cons.prems(4) by (simp_all only: turn_addr_routed) auto
    have "Some (turn_addr ?lb (d - Suc k)) \<in> set (fst (select_run next_node ts ?lb))"
      using Cons.prems d lb_bounds_next [OF Cons.prems(1) k(2)] by (intro Cons.IH) simp_all
    with d(1) k(2) show ?thesis by (simp add: split_beta)
  qed
qed simp

lemma select_run_in_turn:
  "lb_bounds lb \<Longrightarrow> enabled_nodes lb \<noteq> [] \<Longrightarrow> \<forall>a \<in> set (enabled_nodes lb). selectable lb a \<Longrightarrow>
   fst (select_run next_node ts lb) = map (\<lambda>j. Some (turn_addr lb j)) [0..<length ts]"
proof (induction ts arbitrary: lb)
  case (Cons t ts)
  have s0: "selectable lb (turn_addr lb 0)" using Cons.prems turn_addr_in by blast
  from next_node_first [OF Cons.prems(1) s0, of t] Cons.prems(2) obtain
    n: "next_node t lb = (Some (turn_addr lb 0), routed t 0 (turn_addr lb 0) lb)" by auto
  let ?lb = "routed t 0 (turn_addr lb 0) lb"
  have "fst (select_run next_node ts ?lb) = map (\<lambda>j. Some (turn_addr ?lb j)) [0..<length ts]"
    using Cons.prems lb_bounds_next [OF Cons.prems(1) n] by (intro Cons.IH) simp_all
  moreover have "[0..<length (t # ts)] = 0 # map Suc [0..<length ts]"
    by (simp add: map_Suc_upt upt_conv_Cons del: upt_Suc)
  ultimately show ?case
    using n by (simp only: select_run.simps Let_def case_prod_conv split_beta fst_conv turn_addr_routed
      list.map map_map o_def snd_conv add_Suc add_0)
qed simp

lemma rotate_turns:
  "map (turn_addr lb) [0..<length (enabled_nodes lb)] = rotate (round_robin_index lb) (enabled_nodes lb)"
  by (rule nth_equalityI) (simp_all add: nth_rotate turn_addr_def)

section \<open>Nodes over a run\<close>

lemma node_stays:
  assumes "map_of (nodes lb) b = Some n" "op \<noteq> RemoveNode b"
  shows "map_of (nodes (lb_exec op lb)) b \<noteq> None"
proof (cases op)
  case (NextNode now)
  have "keys (nodes (snd (next_node_loop t now lb))) = keys (nodes lb)" for t lb
    by (induction t arbitrary: lb) (simp_all add: Let_def split: option.split)
  then have "keys (nodes (lb_exec op lb)) = keys (nodes lb)" by (simp add: NextNode next_node_def)
  moreover have "b \<in> set (keys (nodes lb))" using assms(1) by (rule map_of_Some_in_keys)
  ultimately show ?thesis by (metis map_of_eq_None_iff set_map)
qed (use assms in \<open>auto simp: disable_node_def enable_node_def auto_disable_node_def
    auto_enable_node_def add_node_def remove_node_def update_health_status_def
    map_of_check_timeouts split: option.splits if_splits\<close>)

lemma manual_exec:
  assumes "map_of (nodes lb) b = Some n" "disable_reason n = Some Manual"
    and "op \<noteq> EnableNode b" "op \<noteq> RemoveNode b"
  obtains n' where "map_of (nodes (lb_exec op lb)) b = Some n'" "disable_reason n' = Some Manual"
proof -
  from node_stays [OF assms(1,4)] obtain n' where n': "map_of (nodes (lb_exec op lb)) b = Some n'" by auto
  from map_of_exec [OF n'] assms have "disable_reason n' = Some Manual" by auto
  with n' that show thesis by blast
qed

lemma manual_run:
  assumes "map_of (nodes lb) b = Some n" "disable_reason n = Some Manual"
    and "EnableNode b \<notin> set ops" "RemoveNode b \<notin> set ops"
  shows "\<exists>n'. map_of (nodes (lb_run ops lb)) b = Some n' \<and> disable_reason n' = Some Manual"
  using assms
proof (induction ops arbitrary: lb n)
  case Nil
  then show ?case by (simp add: lb_run_def)
next
  case (Cons op ops)
  from Cons.prems(3,4) have "op \<noteq> EnableNode b" "op \<noteq> RemoveNode b" by auto
  from manual_exec [OF Cons.prems(1,2) this] obtain n1 where
    "map_of (nodes (lb_exec op lb)) b = Some n1" "disable_reason n1 = Some Manual" .
  from Cons.IH [OF this] Cons.prems(3,4) show ?case by (simp add: lb_run_def)
qed

lemma length_collect: "node_count (with_config addrs cfg) = card (set addrs)"
proof -
  have "set (keys (collect_nodes addrs)) = set addrs"
    using map_of_collect [of addrs] by (metis (no_types, lifting) map_of_eq_None_iff option.distinct(1) set_map subsetI subset_antisym)
  then show ?thesis
    using distinct_card [OF wf_collect [of addrs]]
    by (simp add: node_count_def with_config_def)
qed

section \<open>Properties\<close>

text \<open>
  C1. The pool's invariant holds in every state reachable from a pool made from distinct
  addresses by any sequence of the public operations, health checks and timeouts included:
  the map and the vector of enabled addresses agree, and every circuit keeps its invariant.
\<close>

theorem reachable_lb_inv:
  assumes "distinct addrs"
  shows "lb_inv (lb_run ops (with_config addrs cfg))"
  using assms by (intro lb_inv_run lb_inv_with_config)

theorem reachable_lb_inv_witness:
  "lb_inv (lb_run [DisableNode ''a'', NextNode 5, UpdateHealthStatus 1 6 ''b'' (Unhealthy ''x''),
     RemoveNode ''a'', AddNode ''a''] (with_config [''a'', ''b''] default_circuit_config))"
  by (rule reachable_lb_inv) simp

text \<open>
  C2. Selection is sound and complete: under the invariant, \<open>next_node\<close> returns an address
  that is in the pool, enabled and whose circuit is not open, and it returns nothing only when
  every enabled node's circuit is open (or no node is enabled).
\<close>

theorem next_node_correct:
  assumes "lb_inv lb" "lb_bounds lb"
  shows "case fst (next_node now lb) of
     Some a \<Rightarrow> (case map_of (nodes lb) a of
        Some n \<Rightarrow> addr n = a \<and> enabled n \<and> circuit_state n \<noteq> Open | None \<Rightarrow> False)
   | None \<Rightarrow> list_all (\<lambda>(a, n). enabled n \<longrightarrow> circuit_state n = Open) (nodes lb)"
proof (cases "fst (next_node now lb)")
  case None
  have "lb_ok lb" using assms by (simp add: lb_ok_def)
  from lb.select_None [OF this None] have *: "\<And>a. a \<in> set (enabled_nodes lb) \<Longrightarrow> \<not> selectable lb a"
    by (auto simp: available_def)
  have "enabled n \<Longrightarrow> circuit_state n = Open" if "(a, n) \<in> set (nodes lb)" for a n
  proof -
    from that assms have "map_of (nodes lb) a = Some n" by (simp add: map_of_eq_Some_iff lb_inv_def)
    then show "enabled n \<Longrightarrow> circuit_state n = Open"
      using * [of a] lb_inv_enabled [OF assms(1), of a] by (auto simp: selectable_iff)
  qed
  then show ?thesis by (auto simp: None list_all_iff)
next
  case (Some a)
  have "lb_ok lb" using assms by (simp add: lb_ok_def)
  from lb.select_Some [OF this Some] obtain n where
    "map_of (nodes lb) a = Some n" "enabled n" "circuit_state n \<noteq> Open"
    using lb_inv_enabled [OF assms(1), of a] by (auto simp: available_def selectable_iff)
  then show ?thesis using lb_inv_node [OF assms(1)] by (simp add: Some)
qed

theorem next_node_correct_witness:
  "case fst (next_node 0 (lb_new [''a'', ''b''])) of
     Some a \<Rightarrow> (case map_of (nodes (lb_new [''a'', ''b''])) a of
        Some n \<Rightarrow> addr n = a \<and> enabled n \<and> circuit_state n \<noteq> Open | None \<Rightarrow> False)
   | None \<Rightarrow> list_all (\<lambda>(a, n). enabled n \<longrightarrow> circuit_state n = Open) (nodes (lb_new [''a'', ''b'']))"
  by (rule next_node_correct)
     (simp add: lb_new_eq lb_inv_with_config, simp add: lb_bounds_def lb_new_def)

text \<open>
  Accounting: a selection adds one to the request count of exactly the node it returns and
  stamps its last request; no other node, no other field and not the vector change.
\<close>

theorem next_node_accounting:
  assumes "lb_bounds lb"
  shows "case next_node now lb of
     (None, lb') \<Rightarrow> nodes lb' = nodes lb \<and> enabled_nodes lb' = enabled_nodes lb
   | (Some a, lb') \<Rightarrow> enabled_nodes lb' = enabled_nodes lb \<and>
       nodes lb' = AList.map_entry a (\<lambda>n. n\<lparr>request_count := request_count n + 1,
         last_request_time := Some now\<rparr>) (nodes lb)"
proof (cases "next_node now lb")
  case (Pair res lb')
  show ?thesis
  proof (cases res)
    case None
    show ?thesis using next_node_None(2) [OF assms Pair [unfolded None]]
      by (simp add: Pair None) (metis load_balancer.ext_inject load_balancer.surjective load_balancer.update_convs(3))
  next
    case (Some a)
    from next_node_Some [OF assms Pair [unfolded Some]] obtain k where "lb' = routed now k a lb" .
    moreover have "count_request now = (\<lambda>n. n\<lparr>request_count := request_count n + 1, last_request_time := Some now\<rparr>)"
      by (simp add: fun_eq_iff count_request_def)
    ultimately show ?thesis by (simp add: Pair Some)
  qed
qed

theorem next_node_accounting_witness:
  "case next_node 9 (lb_new [''a'', ''b'']) of
     (None, lb') \<Rightarrow> nodes lb' = nodes (lb_new [''a'', ''b'']) \<and>
       enabled_nodes lb' = enabled_nodes (lb_new [''a'', ''b''])
   | (Some a, lb') \<Rightarrow> enabled_nodes lb' = enabled_nodes (lb_new [''a'', ''b'']) \<and>
       nodes lb' = AList.map_entry a (\<lambda>n. n\<lparr>request_count := request_count n + 1,
         last_request_time := Some 9\<rparr>) (nodes (lb_new [''a'', ''b'']))"
  by (rule next_node_accounting) (simp add: lb_bounds_def lb_new_def)

text \<open>
  C5. Fair rotation: while every enabled node is selectable, as many selections as there are
  enabled nodes return the vector rotated to the current index, so each enabled node exactly
  once, whatever the times of the calls.
\<close>

theorem round_robin_fair:
  assumes "lb_bounds lb" "\<forall>a \<in> set (enabled_nodes lb). selectable lb a"
    and "length ts = length (enabled_nodes lb)"
  shows "fst (select_run next_node ts lb)
     = map Some (rotate (round_robin_index lb) (enabled_nodes lb))"
proof (cases "enabled_nodes lb = []")
  case False
  with assms show ?thesis
    by (simp add: select_run_in_turn flip: rotate_turns)
qed (use assms in simp)

theorem round_robin_fair_witness:
  "fst (select_run next_node [4, 4, 9] (lb_new [''a'', ''b'', ''c'']))
     = map Some (rotate 0 [''a'', ''b'', ''c''])"
  using round_robin_fair [of "lb_new [''a'', ''b'', ''c'']" "[4, 4, 9]"]
  by (simp add: lb_bounds_def lb_new_def selectable_def map_of_collect)

text \<open>
  C7. No starvation: an enabled node whose circuit is not open is selected within as many
  calls as there are enabled nodes, however many other circuits are open.
\<close>

theorem no_starvation:
  assumes "lb_bounds lb" "a \<in> set (enabled_nodes lb)" "selectable lb a"
    and "length (enabled_nodes lb) \<le> length ts"
  shows "Some a \<in> set (fst (select_run next_node ts lb))"
proof -
  from turn_addr_hits [OF assms(2)] obtain d where
    d: "d < length (enabled_nodes lb)" "turn_addr lb d = a" .
  then have "Some (turn_addr lb d) \<in> set (fst (select_run next_node ts lb))"
    using assms by (intro select_run_reaches) auto
  with d(2) show ?thesis by simp
qed

theorem no_starvation_witness:
  "Some ''b'' \<in> set (fst (select_run next_node [1, 2, 3] (lb_new [''a'', ''b'', ''c''])))"
  by (rule no_starvation) (simp_all add: lb_bounds_def lb_new_def selectable_def map_of_collect)

text \<open>
  A manual disable is never undone behind the user's back: over any history without a
  manual enable or a removal of the address, health checks and circuit timeouts included, the
  node stays disabled for the manual reason and out of the vector the selection reads.
\<close>

theorem manual_disable_sticky:
  assumes "lb_inv lb" "a \<in> set (node_addresses lb)"
    and "EnableNode a \<notin> set ops" "RemoveNode a \<notin> set ops"
  shows "a \<notin> set (enabled_nodes (lb_run (DisableNode a # ops) lb))
     \<and> map_option disable_reason (map_of (nodes (lb_run (DisableNode a # ops) lb)) a) = Some (Some Manual)"
proof -
  from assms(2) obtain n where n: "map_of (nodes lb) a = Some n"
    by (metis map_of_eq_None_iff node_addresses_def not_None_eq set_map)
  let ?lb = "lb_exec (DisableNode a) lb"
  from n have "map_of (nodes ?lb) a = Some (n\<lparr>enabled := False, disable_reason := Some Manual\<rparr>)"
    by (simp add: disable_node_def)
  then obtain n' where n': "map_of (nodes (lb_run ops ?lb)) a = Some n'" "disable_reason n' = Some Manual"
    using manual_run [of ?lb a _ ops] assms(3,4) by auto
  have inv: "lb_inv (lb_run ops ?lb)" using assms(1) by (intro lb_inv_run lb_inv_exec)
  from lb_inv_enabled [OF inv, of a] lb_inv_reason [OF inv n'(1)] n'
  show ?thesis by (simp add: lb_run_def)
qed

theorem manual_disable_sticky_witness:
  "''a'' \<notin> set (enabled_nodes (lb_run (DisableNode ''a'' #
      [UpdateHealthStatus 1 2 ''a'' Healthy, AutoEnableNode ''a'', NextNode 4]) (lb_new [''a'', ''b''])))"
  by (rule manual_disable_sticky [THEN conjunct1])
     (simp_all add: lb_new_eq lb_inv_with_config, simp add: node_addresses_def with_config_def collect_nodes_def)

text \<open>
  C28. Every operation moves every circuit along the documented state machine only: closed to
  open, open to half open, half open to closed or open, or no move; and a closed circuit opens
  only with its failure count at the threshold or above.
\<close>

theorem circuit_steps_legal:
  assumes "map_of (nodes lb) a = Some n" "map_of (nodes (lb_exec op lb)) a = Some n'"
  shows "cb_step (circuit_state n) (circuit_state n')
     \<and> (circuit_state n = Closed \<and> circuit_state n' = Open \<longrightarrow>
          consecutive_failures n' \<ge> failure_threshold (circuit_config lb))"
proof
  show "cb_step (circuit_state n) (circuit_state n')" using map_of_exec [OF assms(2)] assms(1) by auto
  show "circuit_state n = Closed \<and> circuit_state n' = Open \<longrightarrow>
      consecutive_failures n' \<ge> failure_threshold (circuit_config lb)"
  proof (cases op)
    case (NextNode now)
    then show ?thesis using assms by (auto elim!: map_of_next)
  next
    case (UpdateHealthStatus inst now b st)
    then show ?thesis using assms
      by (auto simp: update_health_status_def record_health_def Let_def
          split: if_splits health_check_status.splits circuit_breaker_state.splits)
  next
    case (CheckCircuitTimeouts clk)
    then show ?thesis using assms
      by (auto simp: map_of_check_timeouts check_timeout_def should_attempt_half_open_def)
  qed (use assms in \<open>auto simp: disable_node_def enable_node_def auto_disable_node_def
      auto_enable_node_def add_node_def remove_node_def split: option.splits if_splits\<close>)
qed

text \<open>One failed check with a threshold of one.\<close>

theorem circuit_steps_legal_witness:
  "\<exists>n n'. map_of (nodes ((lb_new [''a''])\<lparr>circuit_config := default_circuit_config\<lparr>failure_threshold := 1\<rparr>\<rparr>)) ''a'' = Some n
     \<and> map_of (nodes (lb_exec (UpdateHealthStatus 1 2 ''a'' (Unhealthy ''down''))
         ((lb_new [''a''])\<lparr>circuit_config := default_circuit_config\<lparr>failure_threshold := 1\<rparr>\<rparr>))) ''a'' = Some n'
     \<and> circuit_state n = Closed \<and> circuit_state n' = Open \<and> cb_step Closed Open \<and> 1 \<le> consecutive_failures n'"
proof -
  let ?lb = "(lb_new [''a''])\<lparr>circuit_config := default_circuit_config\<lparr>failure_threshold := 1\<rparr>\<rparr>"
  let ?n = "node_new ''a''"
  define m where "m = record_health (circuit_config ?lb) 1 2 (Unhealthy ''down'') ?n"
  have n: "map_of (nodes ?lb) ''a'' = Some ?n" by (simp add: lb_new_eq with_config_def map_of_collect)
  have m: "map_of (nodes (lb_exec (UpdateHealthStatus 1 2 ''a'' (Unhealthy ''down'')) ?lb)) ''a'' = Some m"
    using n by (simp add: update_health_status_def m_def)
  have s: "circuit_state ?n = Closed" "circuit_state m = Open"
    by (simp_all add: m_def node_new_def record_health_def transition_circuit_state_def Let_def)
  from circuit_steps_legal [OF n m] have "cb_step Closed Open" "1 \<le> consecutive_failures m" by (simp_all add: s)
  with n m s show ?thesis by blast
qed

text \<open>
  No circuit stays open for ever: once the maximum timeout has passed since it opened, a
  round of timeout checks moves it to half open, reports a transition, and makes the node
  selectable again.
\<close>

theorem open_circuit_probed:
  assumes "lb_inv lb" "map_of (nodes lb) a = Some n" "circuit_opened_at n = Some t"
    and "t + int (from_millis (unat (max_timeout_secs (circuit_config lb) * 1000))) \<le> clk a"
  shows "fst (check_circuit_timeouts clk lb)
     \<and> lb_circuit_state a (snd (check_circuit_timeouts clk lb)) = Some HalfOpen
     \<and> selectable (snd (check_circuit_timeouts clk lb)) a"
proof -
  have inv: "circuit_inv n" using lb_inv_circuit [OF assms(1,2)] .
  then have op: "circuit_state n = Open" using assms(3) by (auto simp: circuit_inv_def)
  have "calculate_timeout (circuit_config lb) (consecutive_failures n) \<le> elapsed_or_zero (clk a) t"
    using calculate_timeout_le_max [of "circuit_config lb" "consecutive_failures n"] assms(4)
    unfolding elapsed_or_zero_def by linarith
  then have "check_timeout (circuit_config lb) (clk a) n = try_transition_to_half_open n"
    using op assms(3) by (simp add: check_timeout_def should_attempt_half_open_def)
  then have r: "fst (check_timeout (circuit_config lb) (clk a) n)"
      "circuit_state (snd (check_timeout (circuit_config lb) (clk a) n)) = HalfOpen"
    using try_transition_open [OF inv op] by simp_all
  have "(a, n) \<in> set (nodes lb)" using assms(2) by (rule map_of_SomeD)
  with r(1) have "fst (check_circuit_timeouts clk lb)"
    by (force simp: check_circuit_timeouts_def list_ex_iff)
  then show ?thesis
    using r(2) by (simp add: lb_circuit_state_def selectable_def map_of_check_timeouts assms(2))
qed

theorem open_circuit_probed_witness:
  "lb_circuit_state ''a'' (snd (check_circuit_timeouts (\<lambda>a. 300000000007)
     ((lb_new [''a''])\<lparr>nodes := [(''a'', transition_circuit_state 7 Open (node_new ''a''))]\<rparr>)))
   = Some HalfOpen"
proof -
  let ?n = "transition_circuit_state 7 Open (node_new ''a'')"
  let ?lb = "(lb_new [''a''])\<lparr>nodes := [(''a'', ?n)]\<rparr>"
  have "lb_inv ?lb"
    by (auto simp: lb_inv_def lb_new_def node_inv_def circuit_inv_transition)
  then show ?thesis
    using open_circuit_probed [of ?lb "''a''" ?n 7 "\<lambda>a. 300000000007"]
    by (simp add: lb_new_def default_circuit_config_def transition_circuit_state_def)
qed

text \<open>
  The constructors do not remove repeated addresses from the vector: the number of enabled
  addresses is the length of the argument, the number of nodes that of its distinct elements,
  so with a repetition the pool reports more enabled nodes than nodes and breaks its invariant.
\<close>

theorem repeated_addresses:
  "enabled_count (lb_new addrs) = length addrs \<and> node_count (lb_new addrs) = card (set addrs)
   \<and> lb_inv (lb_new addrs) = distinct addrs"
proof -
  have "lb_inv (lb_new addrs) \<Longrightarrow> distinct addrs" by (simp add: lb_inv_def lb_new_def)
  then show ?thesis
    using length_collect lb_inv_with_config by (auto simp: lb_new_eq enabled_count_def with_config_def)
qed

end
