(* ===== verification/Retry.thy ===== *)
theory Retry
  imports Prelude
begin

text \<open>
  Bounded retries. The client's calls, the orchestrator's forwarding and a node's registration
  are loops of one shape: an attempt, and while its result is not conclusive and attempts are
  left, a pause and another one. This theory states that shape once, over any state, and proves
  what follows from it; the components show that their loops have it.
\<close>

section \<open>The reference loop\<close>

text \<open>The results of the attempts a bounded retry makes, in order, and the state it leaves.\<close>

primrec retry_run :: "(nat \<Rightarrow> 's \<Rightarrow> 'r \<times> 's) \<Rightarrow> (nat \<Rightarrow> 's \<Rightarrow> 's) \<Rightarrow> ('r \<Rightarrow> bool) \<Rightarrow> nat \<Rightarrow> nat \<Rightarrow> 's
    \<Rightarrow> 'r list \<times> 's" where
  "retry_run attempt pause conclusive 0 i s = ([], s)"
| "retry_run attempt pause conclusive (Suc left) i s = (case attempt i s of (r, s') \<Rightarrow>
     if conclusive r \<or> left = 0 then ([r], s')
     else map_prod (Cons r) id (retry_run attempt pause conclusive left (Suc i) (pause i s')))"

lemma retry_run_nonempty: "0 < left \<Longrightarrow> fst (retry_run attempt pause conclusive left i s) \<noteq> []"
  by (cases left) (auto split: prod.split)

lemma retry_run_length: "length (fst (retry_run attempt pause conclusive left i s)) \<le> left"
proof (induction left arbitrary: i s)
  case (Suc left)
  then show ?case by (auto split: prod.split)
qed simp

text \<open>Only the last result may be conclusive, and it is unless the attempts are used up.\<close>

lemma retry_run_butlast:
  "r \<in> set (butlast (fst (retry_run attempt pause conclusive left i s))) \<Longrightarrow> \<not> conclusive r"
proof (induction left arbitrary: i s)
  case (Suc left)
  then show ?case by (auto split: prod.splits if_splits)
qed simp

lemma retry_run_exhausted:
  "0 < left \<Longrightarrow> \<not> conclusive (last (fst (retry_run attempt pause conclusive left i s)))
   \<Longrightarrow> length (fst (retry_run attempt pause conclusive left i s)) = left"
proof (induction left arbitrary: i s)
  case (Suc left)
  then show ?case using retry_run_nonempty [of left attempt pause conclusive]
    by (cases "left = 0") (auto split: prod.splits if_splits)
qed simp

text \<open>An invariant of the attempts and the pauses is one of the loop.\<close>

lemma retry_run_inv:
  assumes "\<And>i s. P s \<Longrightarrow> P (snd (attempt i s))" "\<And>i s. P s \<Longrightarrow> P (pause i s)"
  shows "P s \<Longrightarrow> P (snd (retry_run attempt pause conclusive left i s))"
proof (induction left arbitrary: i s)
  case (Suc left)
  then show ?case using assms(1) [of s i] assms(2) by (auto split: prod.split)
qed simp

section \<open>Attempts whose results do not depend on the state\<close>

text \<open>The first conclusive result of a list, or its last one; and how many are looked at.\<close>

primrec settle :: "('r \<Rightarrow> bool) \<Rightarrow> 'r list \<Rightarrow> 'r option" where
  "settle conclusive [] = None"
| "settle conclusive (r # rs) = (if conclusive r \<or> rs = [] then Some r else settle conclusive rs)"

definition attempts_made :: "('r \<Rightarrow> bool) \<Rightarrow> 'r list \<Rightarrow> nat" where
  "attempts_made conclusive rs = min (length rs) (length (takeWhile (\<lambda>r. \<not> conclusive r) rs) + 1)"

lemma attempts_made_simps [simp]:
  "attempts_made conclusive [] = 0"
  "attempts_made conclusive (r # rs)
     = (if conclusive r \<or> rs = [] then 1 else Suc (attempts_made conclusive rs))"
  by (auto simp: attempts_made_def)

lemma settle_take: "rs \<noteq> [] \<Longrightarrow> settle conclusive rs = Some (last (take (attempts_made conclusive rs) rs))"
proof (induction rs)
  case (Cons r rs)
  then show ?case by (cases rs) auto
qed simp

lemma retry_run_settles:
  assumes "\<And>i s. fst (attempt i s) = try i"
  shows "fst (retry_run attempt pause conclusive left i s)
     = take (attempts_made conclusive (map try [i..<i + left])) (map try [i..<i + left])"
proof (induction left arbitrary: i s)
  case (Suc left)
  have upt: "[i..<i + Suc left] = i # [Suc i..<Suc i + left]" by (simp add: upt_rec)
  obtain r s' where a: "attempt i s = (r, s')" by (cases "attempt i s")
  with assms [of i s] have "r = try i" by simp
  then show ?case unfolding upt using Suc.IH [of "Suc i"] by (simp add: a)
qed simp

section \<open>The interface of the loops\<close>

text \<open>
  A loop with a bounded number of attempts: attempt \<open>i\<close>, with \<open>left\<close> more allowed after it up to
  number \<open>final\<close>. \<open>None\<close> is a loop that falls through without a result.
\<close>

locale retry_loop =
  fixes loop :: "nat \<Rightarrow> nat \<Rightarrow> 's \<Rightarrow> ('v \<times> 's) option"
    and attempt :: "nat \<Rightarrow> 's \<Rightarrow> 'r \<times> 's"
    and pause :: "nat \<Rightarrow> 's \<Rightarrow> 's"
    and conclusive :: "'r \<Rightarrow> bool"
    and out :: "'r \<Rightarrow> 'v"
    and final :: nat
    and inv :: "'s \<Rightarrow> bool"
  assumes loop_step: "inv s \<Longrightarrow> i + left = final \<Longrightarrow> loop (Suc left) i s = (case attempt i s of (r, s') \<Rightarrow>
      if conclusive r \<or> left = 0 then Some (out r, s') else loop left (Suc i) (pause i s'))"
    and attempt_inv: "inv s \<Longrightarrow> inv (snd (attempt i s))"
    and pause_inv: "inv s \<Longrightarrow> inv (pause i s)"
begin

abbreviation run :: "nat \<Rightarrow> nat \<Rightarrow> 's \<Rightarrow> 'r list \<times> 's" where
  "run \<equiv> retry_run attempt pause conclusive"

lemma loop_run:
  "inv s \<Longrightarrow> i + left = final \<Longrightarrow>
   loop (Suc left) i s = Some (out (last (fst (run (Suc left) i s))), snd (run (Suc left) i s))"
proof (induction left arbitrary: i s)
  case 0
  then show ?case by (simp add: loop_step split: prod.split)
next
  case (Suc left)
  obtain r s' where a: "attempt i s = (r, s')" by (cases "attempt i s")
  have "fst (run (Suc left) (Suc i) (pause i s')) \<noteq> []" by (rule retry_run_nonempty) simp
  moreover have "inv (pause i s')" using pause_inv attempt_inv [OF Suc.prems(1), of i] a by simp
  ultimately show ?case using Suc.IH [of "pause i s'" "Suc i"] Suc.prems
    by (simp add: loop_step a retry_run.simps(2) [of _ _ _ "Suc left"] del: retry_run.simps)
qed

lemma loop_returns: "inv s \<Longrightarrow> i + left = final \<Longrightarrow> loop (Suc left) i s \<noteq> None"
  by (simp only: loop_run option.distinct not_False_eq_True)

lemma loop_settles:
  assumes "inv s" "i + left = final" "\<And>i s. fst (attempt i s) = try i"
  shows "map_option fst (loop (Suc left) i s) = map_option out (settle conclusive (map try [i..<i + Suc left]))"
proof -
  have "map try [i..<i + Suc left] \<noteq> []" by simp
  then show ?thesis unfolding loop_run [OF assms(1,2)]
    by (subst settle_take) (simp_all only: retry_run_settles [of attempt "try", OF assms(3)]
        not_False_eq_True option.map fst_conv)
qed

end

end
