(* ===== verification/Client.thy ===== *)
theory Client
  imports F64 Protocol Retry
begin

text \<open>
  The RPC client (\<open>madrpc-client/src/client.rs\<close>): the validated retry configuration, the delay
  between attempts, one attempt over HTTP and the retry loop. What other libraries decide is an
  argument: whether the base URL is one \<open>http\<close> accepts, the text of their errors, the parser of
  the body, and the outcome of the HTTP exchange of each attempt. The result of a call comes
  with the trace of its attempts and sleeps.
\<close>

section \<open>Configuration\<close>

record connection_config =
  pool_idle_timeout_secs :: u64
  keep_alive_secs :: "u64 option"
  max_idle_per_host :: "nat option"

definition default_connection :: connection_config where
  "default_connection = \<lparr>pool_idle_timeout_secs = 90, keep_alive_secs = None, max_idle_per_host = None\<rparr>"

definition connection_new :: "u64 \<Rightarrow> u64 option \<Rightarrow> nat option \<Rightarrow> connection_config" where
  "connection_new idle keep per_host = \<lparr>pool_idle_timeout_secs = max idle 1,
     keep_alive_secs = keep, max_idle_per_host = per_host\<rparr>"

definition long_lived :: connection_config where
  "long_lived = \<lparr>pool_idle_timeout_secs = 300, keep_alive_secs = Some 300, max_idle_per_host = Some 100\<rparr>"

definition short_lived :: connection_config where
  "short_lived = \<lparr>pool_idle_timeout_secs = 10, keep_alive_secs = Some 30, max_idle_per_host = Some 5\<rparr>"

datatype retry_config_error =
    InvalidMaxAttempts u32
  | InvalidBackoffMultiplier f64
  | InvalidBaseDelay int
  | InvalidMaxDelay int
  | InvalidDelayRange u64 u64

record retry_config =
  max_attempts :: u32
  base_delay_ms :: u64
  max_delay_ms :: u64
  rc_multiplier :: f64

definition default_retry :: retry_config where
  "default_retry = \<lparr>max_attempts = 3, base_delay_ms = 100, max_delay_ms = 5000, rc_multiplier = Fin 2\<rparr>"

definition retry_new :: "u32 \<Rightarrow> u64 \<Rightarrow> u64 \<Rightarrow> f64 \<Rightarrow> retry_config_error + retry_config" where
  "retry_new attempts base_delay max_delay multiplier =
     (if attempts = 0 then Inl (InvalidMaxAttempts attempts)
      else if f_le multiplier (Fin 0) then Inl (InvalidBackoffMultiplier multiplier)
      else if max_delay < base_delay then Inl (InvalidDelayRange max_delay base_delay)
      else Inr \<lparr>max_attempts = attempts, base_delay_ms = base_delay, max_delay_ms = max_delay,
                rc_multiplier = multiplier\<rparr>)"

definition retry_validate :: "retry_config \<Rightarrow> retry_config_error + unit" where
  "retry_validate cfg =
     (if max_attempts cfg = 0 then Inl (InvalidMaxAttempts (max_attempts cfg))
      else if f_le (rc_multiplier cfg) (Fin 0) then Inl (InvalidBackoffMultiplier (rc_multiplier cfg))
      else if max_delay_ms cfg < base_delay_ms cfg
        then Inl (InvalidDelayRange (max_delay_ms cfg) (base_delay_ms cfg))
      else Inr ())"

text \<open>
  \<open>calculate_delay\<close>; \<open>coin\<close> and \<open>draw\<close> are the two random values. The exponent is the signed
  reading of \<open>attempt - 1\<close>, and the constant is the binary64 number nearest to 0.1.
\<close>

definition calculate_delay :: "retry_config \<Rightarrow> u32 \<Rightarrow> bool \<Rightarrow> u64 \<Rightarrow> duration" where
  "calculate_delay cfg attempt coin draw =
     (let delay_ms = f_to_u64 (f_min
            (f_mul (f_of_nat (unat (base_delay_ms cfg))) (f_powi (rc_multiplier cfg) (sint (attempt - 1))))
            (f_of_nat (unat (max_delay_ms cfg))));
          jitter = f_to_u64 (f_mul (f_of_nat (unat delay_ms)) (rnd (1 / 10)));
          jitter_amount = (if 0 < jitter \<and> coin then draw mod jitter else 0)
      in from_millis (unat (delay_ms + jitter_amount)))"

section \<open>One attempt\<close>

text \<open>
  The functions of other libraries: an error of the URL parser, the parser of a body, the text
  for a tree that is not a response, and the display of a status code.
\<close>

record http_lib =
  uri_error :: "string \<Rightarrow> string option"
  tree_of :: "string \<Rightarrow> string + json"
  shape_text :: "json \<Rightarrow> string"
  status_text :: "nat \<Rightarrow> string"

text \<open>What the network does with a request: it fails, or a status comes back and then a body.\<close>

datatype http_outcome = SendFailed string | Answered nat "string + string"

definition is_success :: "nat \<Rightarrow> bool" where
  "is_success status = (200 \<le> status \<and> status < 300)"

definition is_server_error :: "nat \<Rightarrow> bool" where
  "is_server_error status = (500 \<le> status \<and> status < 600)"

text \<open>The classification of a JSON-RPC error, in the order of the match's arms.\<close>

definition classify_error :: "json_rpc_error \<Rightarrow> madrpc_error" where
  "classify_error e = (let code = err_code e in
     if code = PARSE_ERROR then InvalidResponse (''Parse error: '' @ err_message e)
     else if code = INVALID_REQUEST then InvalidResponse (''Invalid request: '' @ err_message e)
     else if code = METHOD_NOT_FOUND then InvalidRequest (''Method not found: '' @ err_message e)
     else if code = INVALID_PARAMS then InvalidRequest (''Invalid params: '' @ err_message e)
     else if code = INTERNAL_ERROR then NodeUnavailable (''Internal error: '' @ err_message e)
     else if code \<ge> -32099 \<and> code \<le> -32001 then NodeUnavailable (err_message e)
     else if code = REQUEST_TOO_LARGE then InvalidRequest (err_message e)
     else JavaScriptExecution (err_message e))"

definition read_response :: "json_rpc_response \<Rightarrow> json result" where
  "read_response res = (case res_error res of
     Some e \<Rightarrow> Inl (classify_error e)
   | None \<Rightarrow> Inr (case res_result res of Some v \<Rightarrow> v | None \<Rightarrow> JNull))"

definition try_call :: "http_lib \<Rightarrow> string \<Rightarrow> http_outcome \<Rightarrow> json result" where
  "try_call lib base_url outcome = (case uri_error lib base_url of
     Some e \<Rightarrow> Inl (InvalidRequest (''Invalid HTTP request: '' @ e))
   | None \<Rightarrow> (case outcome of
       SendFailed e \<Rightarrow> Inl (Transport (''HTTP request failed: '' @ e))
     | Answered status body \<Rightarrow>
         if \<not> is_success status then
           (if is_server_error status then Inl (Transport (''HTTP error: '' @ status_text lib status))
            else Inl (InvalidResponse (''HTTP error: '' @ status_text lib status)))
         else (case body of
           Inl e \<Rightarrow> Inl (Transport (''Failed to read response body: '' @ e))
         | Inr text \<Rightarrow> (case tree_of lib text of
             Inl e \<Rightarrow> Inl (InvalidResponse (''Failed to parse JSON-RPC response: '' @ e))
           | Inr j \<Rightarrow> (case response_from_json j of
               None \<Rightarrow> Inl (InvalidResponse (''Failed to parse JSON-RPC response: '' @ shape_text lib j))
             | Some res \<Rightarrow> read_response res)))))"

section \<open>The retry loop\<close>

datatype client_event = Tried json_rpc_request | Slept duration

record client =
  base_url :: string
  pool_config :: connection_config
  retry :: retry_config

definition with_configs :: "string \<Rightarrow> retry_config \<Rightarrow> connection_config \<Rightarrow> client result" where
  "with_configs url rc cc = Inr \<lparr>base_url = url, pool_config = cc, retry = rc\<rparr>"

definition client_new :: "string \<Rightarrow> client result" where
  "client_new url = with_configs url default_retry default_connection"

definition with_connection_config :: "string \<Rightarrow> connection_config \<Rightarrow> client result" where
  "with_connection_config url cc = with_configs url default_retry cc"

definition with_retry_config :: "string \<Rightarrow> retry_config \<Rightarrow> client result" where
  "with_retry_config url rc = with_configs url rc default_connection"

definition with_retry :: "retry_config \<Rightarrow> client \<Rightarrow> client" where
  "with_retry rc cl = cl\<lparr>retry := rc\<rparr>"

text \<open>
  The loop over \<open>1..=max_attempts\<close>: \<open>left\<close> attempts remain, \<open>attempt\<close> is the next; \<open>try i\<close> is
  the result of attempt \<open>i\<close> and \<open>rand i\<close> the random values drawn after it.
\<close>

fun call_loop :: "retry_config \<Rightarrow> (nat \<Rightarrow> bool \<times> u64) \<Rightarrow> json_rpc_request \<Rightarrow> (nat \<Rightarrow> json result)
    \<Rightarrow> nat \<Rightarrow> nat \<Rightarrow> madrpc_error option \<Rightarrow> json result \<times> client_event list" where
  "call_loop cfg rand req try 0 attempt last_error =
     (Inl (case last_error of Some e \<Rightarrow> e | None \<Rightarrow> InvalidResponse ''All retry attempts exhausted''), [])"
| "call_loop cfg rand req try (Suc left) attempt last_error = (case try attempt of
     Inr result \<Rightarrow> (Inr result, [Tried req])
   | Inl err \<Rightarrow>
       if \<not> is_retryable err then (Inl err, [Tried req])
       else let sleeps = (if attempt < unat (max_attempts cfg)
                  then [Slept (calculate_delay cfg (of_nat attempt) (fst (rand attempt)) (snd (rand attempt)))]
                  else []);
                (res, events) = call_loop cfg rand req try left (attempt + 1) (Some err)
            in (res, Tried req # sleeps @ events))"

definition call :: "http_lib \<Rightarrow> (nat \<Rightarrow> bool \<times> u64) \<Rightarrow> (nat \<Rightarrow> http_outcome) \<Rightarrow> client \<Rightarrow> string \<Rightarrow> json
    \<Rightarrow> u64 \<Rightarrow> json result \<times> client_event list \<times> u64" where
  "call lib rand net cl method params counter =
     (let req = \<lparr>req_jsonrpc = ''2.0'', req_method = method, req_params = params,
            req_id = JNumber (PosInt counter)\<rparr>;
          (res, events) = call_loop (retry cl) rand req (\<lambda>i. try_call lib (base_url cl) (net i))
            (unat (max_attempts (retry cl))) 1 None
      in (res, events, counter + 1))"

section \<open>The loop is a bounded retry\<close>

definition conclusive :: "json result \<Rightarrow> bool" where
  "conclusive r = (case r of Inr v \<Rightarrow> True | Inl e \<Rightarrow> \<not> is_retryable e)"

fun is_tried :: "client_event \<Rightarrow> bool" where
  "is_tried (Tried r) = True"
| "is_tried (Slept d) = False"

text \<open>The loop over a growing list of events, its attempts and its pauses.\<close>

definition client_loop where
  "client_loop cfg rand req try left i es =
     Some (map_prod id (append es) (call_loop cfg rand req try left i None))"

definition client_attempt :: "json_rpc_request \<Rightarrow> (nat \<Rightarrow> json result) \<Rightarrow> nat \<Rightarrow> client_event list
    \<Rightarrow> json result \<times> client_event list" where
  "client_attempt req try i es = (try i, es @ [Tried req])"

definition client_pause :: "retry_config \<Rightarrow> (nat \<Rightarrow> bool \<times> u64) \<Rightarrow> nat \<Rightarrow> client_event list
    \<Rightarrow> client_event list" where
  "client_pause cfg rand i es = es @ [Slept (calculate_delay cfg (of_nat i) (fst (rand i)) (snd (rand i)))]"

lemma call_loop_last_error:
  "0 < left \<Longrightarrow> call_loop cfg rand req try left i e = call_loop cfg rand req try left i e'"
  by (cases left) simp_all

interpretation client: retry_loop "client_loop cfg rand req try" "client_attempt req try"
    "client_pause cfg rand" conclusive "\<lambda>r. r" "unat (max_attempts cfg)" "\<lambda>_. True"
  for cfg rand req "try"
proof
  fix i left :: nat and es
  assume "i + left = unat (max_attempts cfg)"
  then show "client_loop cfg rand req try (Suc left) i es = (case client_attempt req try i es of (r, es') \<Rightarrow>
      if conclusive r \<or> left = 0 then Some (r, es')
      else client_loop cfg rand req try left (Suc i) (client_pause cfg rand i es'))"
  proof (cases "try i")
    case (Inl e)
    have "call_loop cfg rand req try left (Suc i) (Some e) = call_loop cfg rand req try left (Suc i) None"
      if "left \<noteq> 0" using that by (intro call_loop_last_error) simp
    with Inl \<open>i + left = _\<close> show ?thesis
      by (simp add: client_loop_def client_attempt_def client_pause_def conclusive_def split_beta prod_eq_iff)
  qed (simp add: client_loop_def client_attempt_def conclusive_def)
qed simp_all

lemma call_loop_settles:
  "0 < left \<Longrightarrow> a + left = unat (max_attempts cfg) + 1 \<Longrightarrow>
   Some (fst (call_loop cfg rand req try left a None)) = settle conclusive (map try [a..<a + left])"
  using client.loop_settles [of a "left - 1" cfg req "try" "try" rand "[]"]
  by (simp add: client_attempt_def client_loop_def option.map_ident)

lemma call_loop_tries:
  "length (filter is_tried (snd (call_loop cfg rand req try left a last_error)))
     = attempts_made conclusive (map try [a..<a + left])"
proof (induction left arbitrary: a last_error)
  case (Suc left)
  have upt: "[a..<a + Suc left] = a # [Suc a..<Suc a + left]" by (simp add: upt_rec)
  show ?case unfolding upt using Suc.IH [of "Suc a"]
    by (auto simp: attempts_made_def conclusive_def Let_def split_beta split: sum.split)
qed (simp add: attempts_made_def)

lemma call_loop_sends:
  "filter is_tried (snd (call_loop cfg rand req try left a last_error))
     = replicate (attempts_made conclusive (map try [a..<a + left])) (Tried req)"
proof -
  have "e = Tried req" if "e \<in> set (snd (call_loop cfg rand req try left a last_error))" "is_tried e" for e
    using that by (induction left arbitrary: a last_error) (auto simp: Let_def split_beta split: sum.splits if_splits)
  then show ?thesis unfolding call_loop_tries [of cfg rand req "try" left a last_error, symmetric]
    by (intro replicate_length_same [symmetric]) auto
qed

text \<open>A sleep comes between two attempts and nowhere else.\<close>

fun alternating :: "client_event list \<Rightarrow> bool" where
  "alternating [Tried r] = True"
| "alternating (Tried r # Slept d # es) = alternating es"
| "alternating es = False"

lemma call_loop_alternates:
  "0 < left \<Longrightarrow> a + left = unat (max_attempts cfg) + 1
     \<Longrightarrow> alternating (snd (call_loop cfg rand req try left a last_error))"
proof (induction left arbitrary: a last_error)
  case (Suc left)
  show ?case
  proof (cases "left = 0")
    case True
    then show ?thesis using Suc.prems by (auto simp: Let_def split_beta split: sum.split)
  next
    case False
    then show ?thesis using Suc.IH [of "Suc a"] Suc.prems
      by (auto simp: Let_def split_beta split: sum.split)
  qed
qed simp

section \<open>The delay\<close>

lemma tenth: "rnd (1 / 10) = Fin (rr (1 / 10))" "0 \<le> rr (1 / 10)" "rr (1 / 10) \<le> 1 / 10 + 1 / 2 ^ 57"
proof -
  have "\<bar>1 / 10\<bar> < (2 :: rat) powi (- 3)" by (simp add: power_int_minus)
  from rr_error_lt [OF this] have "\<bar>rr (1 / 10) - 1 / 10\<bar> \<le> 1 / 2 ^ 57" by (simp add: power_int_minus)
  then show b: "rr (1 / 10) \<le> 1 / 10 + 1 / 2 ^ 57" by linarith
  show "0 \<le> rr (1 / 10)" by (simp add: rr_nonneg)
  then show "rnd (1 / 10) = Fin (rr (1 / 10))" using b by (intro rnd_Fin) (simp add: f_big_def)
qed

text \<open>The jitter's modulus exceeds a tenth of the delay by less than one.\<close>

lemma jitter_bound:
  assumes "n < 2 ^ 53"
  shows "10 * unat (f_to_u64 (f_mul (f_of_nat n) (rnd (1 / 10)))) \<le> n + 2"
proof -
  let ?p = "of_nat n * rr (1 / 10)"
  have nn: "(of_nat n :: rat) < of_nat (2 ^ 53)" using assms by (simp only: of_nat_less_iff)
  have "?p \<le> of_nat n * (1 / 10 + 1 / 2 ^ 57)" by (intro mult_left_mono tenth) simp
  also have "\<dots> = of_nat n / 10 + of_nat n / 2 ^ 57" by (simp add: field_simps)
  finally have p: "?p \<le> of_nat n / 10 + 1 / 16" using nn by simp
  have p0: "0 \<le> ?p" using tenth(2) by simp
  have "\<bar>?p\<bar> < 2 powi 50" using p p0 nn by simp
  from rr_upper [OF this] have z: "rr ?p \<le> of_nat n / 10 + 1 / 8" using p by (simp add: power_int_minus)
  have z0: "0 \<le> rr ?p" using p0 by (rule rr_nonneg)
  have "rr ?p < f_big" using z nn by (simp add: f_big_def)
  then have f: "f_mul (f_of_nat n) (rnd (1 / 10)) = Fin (rr ?p)"
    using assms z0 by (simp add: tenth(1) f_of_nat_def rnd_of_nat rnd_Fin)
  have "of_nat (nat \<lfloor>rr ?p\<rfloor>) \<le> rr ?p" using z0 by simp
  then have "(of_nat (10 * nat \<lfloor>rr ?p\<rfloor>) :: rat) \<le> of_nat (n + 2)" using z by simp
  then have fl: "10 * nat \<lfloor>rr ?p\<rfloor> \<le> n + 2" by (simp only: of_nat_le_iff)
  then have "nat \<lfloor>rr ?p\<rfloor> < 2 ^ 64" using assms by simp
  then have "unat (f_to_u64 (Fin (rr ?p))) = nat \<lfloor>rr ?p\<rfloor>"
    by (simp add: f_to_u64_def unsigned_of_nat take_bit_nat_eq_self)
  with fl show ?thesis by (simp add: f)
qed

lemma doubling_delay:
  fixes attempt :: u32
  assumes "rc_multiplier cfg = Fin 2" "unat (base_delay_ms cfg) \<le> 2 ^ 53" "unat (max_delay_ms cfg) < 2 ^ 53"
    and k: "1 \<le> unat attempt" "unat attempt \<le> 1024"
  shows "f_to_nat 64 (f_min (f_mul (f_of_nat (unat (base_delay_ms cfg)))
       (f_powi (rc_multiplier cfg) (sint (attempt - 1)))) (f_of_nat (unat (max_delay_ms cfg))))
     = min (unat (base_delay_ms cfg) * 2 ^ (unat attempt - 1)) (unat (max_delay_ms cfg))"
proof -
  have "unat (attempt - 1) = unat attempt - 1" using k by (simp add: unat_sub word_le_nat_alt)
  with k have s: "sint (attempt - 1) = int (unat attempt - 1)" using sint_small [of "attempt - 1"] by simp
  let ?x = "f_mul (f_of_nat (unat (base_delay_ms cfg))) (pow2f (unat attempt - 1))"
  have n: "f_to_nat 64 ?x = min (unat (base_delay_ms cfg) * 2 ^ (unat attempt - 1)) (2 ^ 64 - 1)"
    using assms(2) by (rule f_to_nat_mul_pow2f)
  have nn: "?x \<noteq> NaN"
    using f_of_nat_small [OF assms(2)] k by (auto simp: pow2f_def)
  have "min (min a (2 ^ 64 - 1)) b = min a b" if "b < 2 ^ 53" for a b :: nat
    using that by (simp add: min_def)
  then show ?thesis using assms(3) f_to_nat_f_min [OF nn, of "unat (max_delay_ms cfg)"]
    by (simp only: assms(1) s f_powi_2 n less_imp_le)
qed

section \<open>Properties\<close>

text \<open>
  C23. A call is a bounded retry: its result is that of its first conclusive attempt, or of the last
  one when all fail with retryable errors; it makes no attempt after that one, never more than
  the configured maximum, and sleeps exactly once between two attempts. Every attempt sends the same
  request, with the method and the parameters of the call and an id that is drawn once for all of them.
\<close>

theorem call_settles:
  assumes "0 < max_attempts (retry cl)"
  shows "case call lib rand net cl method params counter of (res, events, counter') \<Rightarrow>
     let results = map (\<lambda>i. try_call lib (base_url cl) (net i)) [1..<1 + unat (max_attempts (retry cl))] in
     Some res = settle conclusive results
     \<and> filter is_tried events = replicate (attempts_made conclusive results)
          (Tried \<lparr>req_jsonrpc = ''2.0'', req_method = method, req_params = params, req_id = JNumber (PosInt counter)\<rparr>)
     \<and> alternating events \<and> counter' = counter + 1"
proof -
  have pos: "0 < unat (max_attempts (retry cl))" using assms by (simp add: word_less_nat_alt)
  then show ?thesis
    using call_loop_settles [OF pos, of 1] call_loop_sends call_loop_alternates [OF pos]
    by (simp add: call_def Let_def split_beta)
qed

definition down_lib :: http_lib where
  "down_lib = \<lparr>uri_error = \<lambda>_. None, tree_of = \<lambda>_. Inl ''eof'', shape_text = \<lambda>_. ''shape'',
     status_text = \<lambda>_. ''502 Bad Gateway''\<rparr>"

definition down_net :: "nat \<Rightarrow> http_outcome" where
  "down_net i = (if i = 1 then SendFailed ''refused'' else Answered 502 (Inr ''gone''))"

definition down_client :: client where
  "down_client = \<lparr>base_url = ''http://h'', pool_config = default_connection, retry = default_retry\<rparr>"

theorem call_settles_witness:
  "case call down_lib (\<lambda>_. (True, 7)) down_net down_client ''m'' JNull 4 of (res, events, counter') \<Rightarrow>
     let results = map (\<lambda>i. try_call down_lib (base_url down_client) (down_net i))
       [1..<1 + unat (max_attempts (retry down_client))] in
     Some res = settle conclusive results
     \<and> filter is_tried events = replicate (attempts_made conclusive results)
          (Tried \<lparr>req_jsonrpc = ''2.0'', req_method = ''m'', req_params = JNull, req_id = JNumber (PosInt 4)\<rparr>)
     \<and> alternating events \<and> counter' = 4 + 1"
  by (rule call_settles) (simp add: down_client_def default_retry_def)

text \<open>
  The delay before a retry, with the default multiplier 2: at least \<open>min (base * 2 ^ (k - 1)) max\<close>
  milliseconds and at most a tenth more, whatever the random draws (for the first 1024 attempts:
  beyond, the power is infinite, and times a base of zero it is not a number).
\<close>

theorem delay_within_jitter:
  assumes "rc_multiplier cfg = Fin 2" "unat (base_delay_ms cfg) \<le> 2 ^ 53" "unat (max_delay_ms cfg) < 2 ^ 53"
    and "1 \<le> unat attempt" "unat attempt \<le> 1024"
    and "d = min (unat (base_delay_ms cfg) * 2 ^ (unat attempt - 1)) (unat (max_delay_ms cfg))"
  shows "from_millis d \<le> calculate_delay cfg attempt coin draw
     \<and> calculate_delay cfg attempt coin draw \<le> from_millis (d + d div 10)"
proof -
  have d: "d < 2 ^ 53" using assms(3,6) by simp
  define w where "w = f_to_u64 (f_min (f_mul (f_of_nat (unat (base_delay_ms cfg)))
       (f_powi (rc_multiplier cfg) (sint (attempt - 1)))) (f_of_nat (unat (max_delay_ms cfg))))"
  define j where "j = f_to_u64 (f_mul (f_of_nat (unat w)) (rnd (1 / 10)))"
  define a where "a = (if 0 < j \<and> coin then draw mod j else 0)"
  have "unat (of_nat d :: u64) = d" using d by (simp add: unsigned_of_nat take_bit_nat_eq_self)
  then have w: "unat w = d"
    unfolding w_def f_to_u64_def doubling_delay [OF assms(1-5)] assms(6) .
  have j: "10 * unat j \<le> d + 2" unfolding j_def w using d by (rule jitter_bound)
  have "unat a \<le> d div 10"
  proof (cases "0 < j \<and> coin")
    case True
    then have "unat a < unat j" by (simp add: a_def unat_mod word_less_nat_alt)
    then show ?thesis using j by linarith
  qed (auto simp: a_def)
  moreover from this have "d + unat a < 2 ^ LENGTH(64)"
    using d div_le_dividend [of d 10] by simp
  then have "unat (w + a) = d + unat a" using unat_add_lem [of w a] by (simp only: w)
  ultimately show ?thesis
    unfolding calculate_delay_def Let_def w_def [symmetric] j_def [symmetric] a_def [symmetric] by simp
qed

theorem delay_within_jitter_witness:
  "from_millis 200 \<le> calculate_delay default_retry 2 True 12345
   \<and> calculate_delay default_retry 2 True 12345 \<le> from_millis (200 + 200 div 10)"
  by (rule delay_within_jitter) (simp_all add: default_retry_def)

text \<open>
  A request that is too large is retried although it cannot succeed: the arm for its code stands
  behind the range of the server errors, which contains it, so the answer is classified as an
  unavailable node (and so is a failed registration); both are retryable.
\<close>

theorem too_large_is_retried:
  "classify_error (request_too_large limit) = NodeUnavailable (err_message (request_too_large limit))
   \<and> classify_error (node_registration_error msg) = NodeUnavailable msg
   \<and> \<not> conclusive (read_response (rpc_error rid (request_too_large limit)))"
  by (simp add: classify_error_def request_too_large_def node_registration_error_def read_response_def
      rpc_error_def conclusive_def)

section \<open>Conclusive first answers\<close>

lemma call_first:
  assumes "conclusive (try_call lib (base_url cl) (net 1))" "0 < unat (max_attempts (retry cl))"
  shows "fst (call lib rand net cl meth params counter) = try_call lib (base_url cl) (net 1)"
  using assms by (cases "unat (max_attempts (retry cl))")
    (auto simp: call_def Let_def split_beta conclusive_def split: sum.splits)

definition echo_lib :: http_lib where
  "echo_lib = \<lparr>uri_error = (\<lambda>_. None), tree_of = (\<lambda>_. Inr (response_to_json (rpc_success JNull JNull))),
     shape_text = (\<lambda>_. ''shape''), status_text = dec\<rparr>"

definition echo_net :: http_outcome where
  "echo_net = Answered 200 (Inr ''{}'')"

lemma echo_answers: "try_call echo_lib base echo_net = Inr JNull"
  using response_roundtrip_json [of "rpc_success JNull JNull"]
  by (simp add: try_call_def echo_lib_def echo_net_def is_success_def rpc_success_def read_response_def response_view_def null_to_none_def)

end
