(* ===== verification/HealthChecker.thy ===== *)
theory HealthChecker
  imports LoadBalancer Client
begin

text \<open>
  The periodic health checker (\<open>madrpc-orchestrator/src/health_checker.rs\<close>). A round takes the
  lock of the pool once for the circuit timeouts, once for the list of nodes, and twice for each
  node when the answers are in; between these sections other tasks may change the pool, which
  the model makes explicit as lists of pool operations.
\<close>

section \<open>Configuration and probes\<close>

record health_check_config =
  check_interval :: duration
  check_timeout_ns :: duration
  hc_failure_threshold :: u32

definition default_health_config :: health_check_config where
  "default_health_config = \<lparr>check_interval = from_secs 5, check_timeout_ns = from_millis 2000,
     hc_failure_threshold = 3\<rparr>"

definition starts_with :: "string \<Rightarrow> string \<Rightarrow> bool" where
  "starts_with p s = (take (length p) s = p)"

definition normalize_url :: "string \<Rightarrow> string" where
  "normalize_url a = (if starts_with ''http://'' a \<or> starts_with ''https://'' a then a
     else ''http://'' @ a)"

text \<open>
  \<open>check_node_health\<close>: a call of \<open>_health\<close> with a fresh client, under a timeout (\<open>elapsed\<close> says
  whether it fired first). \<open>show_json\<close> is the display of a JSON value.
\<close>

definition check_node_health :: "(json \<Rightarrow> string) \<Rightarrow> http_lib \<Rightarrow> (nat \<Rightarrow> bool \<times> u64) \<Rightarrow> (nat \<Rightarrow> http_outcome)
    \<Rightarrow> u64 \<Rightarrow> bool \<Rightarrow> duration \<Rightarrow> string \<Rightarrow> unit result" where
  "check_node_health show_json lib rand net counter elapsed timeout a =
     (case client_new (normalize_url a) of
        Inl e \<Rightarrow> Inl (Transport (''Failed to create health check client: '' @ error_to_string e))
      | Inr cl \<Rightarrow>
          if elapsed then Inl (Timeout (of_nat (timeout div 1000000)))
          else (case fst (call lib rand net cl ''_health'' (JObject []) counter) of
            Inr response \<Rightarrow>
              if json_index response ''status'' = JString ''healthy'' then Inr ()
              else Inl (NodeUnavailable (''Health check returned unexpected status: '' @ show_json response))
          | Inl e \<Rightarrow> Inl e))"

section \<open>Updates\<close>

record health_check_update =
  upd_addr :: string
  upd_status :: health_check_status
  should_enable :: bool
  should_disable :: bool

definition process_health_result ::
  "health_check_config \<Rightarrow> load_balancer \<Rightarrow> node \<Rightarrow> unit result \<Rightarrow> health_check_update" where
  "process_health_result cfg lb n result = (case result of
     Inr u \<Rightarrow> \<lparr>upd_addr = addr n, upd_status = Healthy,
       should_enable = (\<not> enabled n \<and> disable_reason n = Some HealthCheck), should_disable = False\<rparr>
   | Inl e \<Rightarrow>
       let failures = lb_consecutive_failures (addr n) lb + 1 in
       \<lparr>upd_addr = addr n, upd_status = Unhealthy (error_to_string e), should_enable = False,
         should_disable = (failures \<ge> hc_failure_threshold cfg \<and> enabled n
           \<and> disable_reason n \<noteq> Some Manual)\<rparr>)"

definition apply_health_update ::
  "instant \<Rightarrow> system_time \<Rightarrow> health_check_update \<Rightarrow> load_balancer \<Rightarrow> load_balancer" where
  "apply_health_update inst now u lb =
     (let lb = update_health_status inst now (upd_addr u) (upd_status u) lb;
          lb = (if should_enable u then snd (auto_enable_node (upd_addr u) lb) else lb);
          lb = (if should_disable u then snd (auto_disable_node (upd_addr u) lb) else lb)
      in lb)"

section \<open>A round\<close>

text \<open>
  What a round meets: the clock readings of the timeout check and of the updates, the result of
  each probe, and what other tasks do to the pool before the list of nodes is read, before a
  result is processed and before its update is applied.
\<close>

record round_env =
  timeout_clock :: "string \<Rightarrow> system_time"
  update_clock :: "string \<Rightarrow> instant \<times> system_time"
  probe :: "string \<Rightarrow> unit result"
  before_list :: "lb_op list"
  before_process :: "string \<Rightarrow> lb_op list"
  before_apply :: "string \<Rightarrow> lb_op list"

definition process_node ::
  "health_check_config \<Rightarrow> round_env \<Rightarrow> node \<times> unit result \<Rightarrow> load_balancer \<Rightarrow> load_balancer" where
  "process_node cfg env nr lb =
     (let a = addr (fst nr);
          lb = lb_run (before_process env a) lb;
          update = process_health_result cfg lb (fst nr) (snd nr);
          lb = lb_run (before_apply env a) lb
      in apply_health_update (fst (update_clock env a)) (snd (update_clock env a)) update lb)"

definition check_all_nodes :: "health_check_config \<Rightarrow> round_env \<Rightarrow> load_balancer \<Rightarrow> load_balancer" where
  "check_all_nodes cfg env lb =
     (let lb = snd (check_circuit_timeouts (timeout_clock env) lb);
          lb = lb_run (before_list env) lb;
          results = map (\<lambda>n. (n, probe env (addr n))) (all_nodes lb)
      in fold (process_node cfg env) results lb)"

definition health_run :: "health_check_config \<Rightarrow> round_env list \<Rightarrow> load_balancer \<Rightarrow> load_balancer" where
  "health_run cfg envs lb = fold (check_all_nodes cfg) envs lb"

section \<open>A round is a history of the pool\<close>

definition update_ops :: "instant \<Rightarrow> system_time \<Rightarrow> health_check_update \<Rightarrow> lb_op list" where
  "update_ops inst now u = UpdateHealthStatus inst now (upd_addr u) (upd_status u)
     # (if should_enable u then [AutoEnableNode (upd_addr u)] else [])
     @ (if should_disable u then [AutoDisableNode (upd_addr u)] else [])"

lemma apply_is_run: "apply_health_update inst now u lb = lb_run (update_ops inst now u) lb"
  by (simp add: apply_health_update_def update_ops_def lb_run_def Let_def)

lemma lb_run_append: "lb_run (ops1 @ ops2) lb = lb_run ops2 (lb_run ops1 lb)"
  by (simp add: lb_run_def)

text \<open>The operations other tasks perform during a round.\<close>

definition interference :: "round_env \<Rightarrow> lb_op \<Rightarrow> bool" where
  "interference env op = (op \<in> set (before_list env)
     \<or> (\<exists>a. op \<in> set (before_process env a)) \<or> (\<exists>a. op \<in> set (before_apply env a)))"

lemma process_node_is_run:
  obtains ops where "process_node cfg env nr lb = lb_run ops lb"
    "\<forall>op \<in> set ops. interference env op \<or> (\<forall>b. op \<noteq> EnableNode b \<and> op \<noteq> RemoveNode b)"
proof -
  let ?a = "addr (fst nr)"
  let ?lb = "lb_run (before_process env ?a) lb"
  let ?u = "process_health_result cfg ?lb (fst nr) (snd nr)"
  let ?ops = "before_process env ?a @ before_apply env ?a
    @ update_ops (fst (update_clock env ?a)) (snd (update_clock env ?a)) ?u"
  have "process_node cfg env nr lb = lb_run ?ops lb"
    by (simp add: process_node_def apply_is_run lb_run_append Let_def)
  moreover have "\<forall>op \<in> set ?ops. interference env op \<or> (\<forall>b. op \<noteq> EnableNode b \<and> op \<noteq> RemoveNode b)"
    by (auto simp: interference_def update_ops_def split: if_splits)
  ultimately show thesis by (rule that)
qed

lemma process_all_is_run:
  "\<exists>ops. fold (process_node cfg env) nrs lb = lb_run ops lb
     \<and> (\<forall>op \<in> set ops. interference env op \<or> (\<forall>b. op \<noteq> EnableNode b \<and> op \<noteq> RemoveNode b))"
proof (induction nrs arbitrary: lb)
  case Nil
  then show ?case by (intro exI [of _ "[]"]) (simp add: lb_run_def)
next
  case (Cons nr nrs)
  obtain ops1 where 1: "process_node cfg env nr lb = lb_run ops1 lb"
    "\<forall>op \<in> set ops1. interference env op \<or> (\<forall>b. op \<noteq> EnableNode b \<and> op \<noteq> RemoveNode b)"
    by (rule process_node_is_run)
  from Cons.IH [of "lb_run ops1 lb"] obtain ops2 where 2: "fold (process_node cfg env) nrs (lb_run ops1 lb) = lb_run ops2 (lb_run ops1 lb)"
    "\<forall>op \<in> set ops2. interference env op \<or> (\<forall>b. op \<noteq> EnableNode b \<and> op \<noteq> RemoveNode b)" by blast
  then show ?case using 1 by (intro exI [of _ "ops1 @ ops2"]) (auto simp: lb_run_append)
qed

lemma round_is_run:
  obtains ops where "check_all_nodes cfg env lb = lb_run ops lb"
    "\<forall>op \<in> set ops. interference env op \<or> (\<forall>b. op \<noteq> EnableNode b \<and> op \<noteq> RemoveNode b)"
proof -
  let ?lb = "lb_run (before_list env) (snd (check_circuit_timeouts (timeout_clock env) lb))"
  from process_all_is_run [of cfg env "map (\<lambda>n. (n, probe env (addr n))) (all_nodes ?lb)" ?lb]
  obtain ops where ops: "check_all_nodes cfg env lb = lb_run ops ?lb"
    "\<forall>op \<in> set ops. interference env op \<or> (\<forall>b. op \<noteq> EnableNode b \<and> op \<noteq> RemoveNode b)"
    by (auto simp: check_all_nodes_def Let_def)
  then have "check_all_nodes cfg env lb = lb_run (CheckCircuitTimeouts (timeout_clock env) # before_list env @ ops) lb"
    by (simp add: lb_run_def)
  moreover have "\<forall>op \<in> set (CheckCircuitTimeouts (timeout_clock env) # before_list env @ ops).
      interference env op \<or> (\<forall>b. op \<noteq> EnableNode b \<and> op \<noteq> RemoveNode b)"
    using ops(2) by (auto simp: interference_def)
  ultimately show thesis by (rule that)
qed

lemma lb_inv_round: "lb_inv lb \<Longrightarrow> lb_inv (check_all_nodes cfg env lb)"
  by (rule round_is_run [of cfg env lb]) (simp add: lb_inv_run)

section \<open>What a round does to a node\<close>

text \<open>The part of a node the checker decides on, and its step on the result of a probe.\<close>

abbreviation quiet :: "round_env \<Rightarrow> bool" where
  "quiet env \<equiv> before_list env = [] \<and> before_process env = (\<lambda>_. []) \<and> before_apply env = (\<lambda>_. [])"

definition health_view :: "node \<Rightarrow> bool \<times> disable_reason option \<times> u32" where
  "health_view n = (enabled n, disable_reason n, consecutive_failures n)"

fun health_step :: "u32 \<Rightarrow> bool \<Rightarrow> bool \<times> disable_reason option \<times> u32 \<Rightarrow> bool \<times> disable_reason option \<times> u32" where
  "health_step threshold True (en, reason, f) =
     (if \<not> en \<and> reason = Some HealthCheck then (True, None, 0) else (en, reason, 0))"
| "health_step threshold False (en, reason, f) =
     (if f + 1 \<ge> threshold \<and> en \<and> reason \<noteq> Some Manual then (False, Some HealthCheck, f + 1)
      else (en, reason, f + 1))"

lemma view_check_timeout: "health_view (snd (check_timeout cfg now n)) = health_view n"
  by (simp add: health_view_def check_timeout_def try_transition_to_half_open_def)

lemma transition_view: "health_view (transition_circuit_state now st n) = health_view n"
  by (simp add: health_view_def transition_circuit_state_def Let_def split: circuit_breaker_state.split)

lemma view_record_health:
  "health_view (record_health cfg inst now st n) = (enabled n, disable_reason n,
     case st of Healthy \<Rightarrow> 0 | Unhealthy m \<Rightarrow> consecutive_failures n + 1)"
  using transition_view [unfolded health_view_def]
  by (auto simp: record_health_def Let_def health_view_def split: health_check_status.split
      circuit_breaker_state.split)

lemma process_other:
  assumes "quiet env" "b \<noteq> addr (fst nr)"
  shows "map_of (nodes (process_node cfg env nr lb)) b = map_of (nodes lb) b"
  using assms
  by (auto simp: process_node_def apply_health_update_def process_health_result_def Let_def lb_run_def
      update_health_status_def auto_enable_node_def auto_disable_node_def split: sum.splits option.splits)

lemma process_self:
  assumes "quiet env" "map_of (nodes lb) (addr m) = Some n" "health_view m = health_view n"
  shows "\<exists>n'. map_of (nodes (process_node cfg env (m, r) lb)) (addr m) = Some n'
    \<and> health_view n' = health_step (hc_failure_threshold cfg) (is_ok r) (health_view n)"
proof -
  from assms(3) have m: "enabled m = enabled n" "disable_reason m = disable_reason n"
    by (simp_all add: health_view_def)
  let ?st = "case r of Inr u \<Rightarrow> Healthy | Inl e \<Rightarrow> Unhealthy (error_to_string e)"
  let ?n1 = "record_health (circuit_config lb) (fst (update_clock env (addr m))) (snd (update_clock env (addr m))) ?st n"
  have v: "enabled ?n1 = enabled n" "disable_reason ?n1 = disable_reason n"
    "consecutive_failures ?n1 = (case r of Inr u \<Rightarrow> 0 | Inl e \<Rightarrow> consecutive_failures n + 1)"
    using view_record_health [of "circuit_config lb" _ _ ?st n] by (simp_all add: health_view_def split: sum.splits)
  show ?thesis
  proof (cases r)
    case (Inl e)
    then show ?thesis using assms(1,2) m v
      by (simp add: process_node_def apply_health_update_def process_health_result_def Let_def lb_run_def
          update_health_status_def auto_disable_node_def lb_consecutive_failures_def health_view_def
          split: if_splits)
  next
    case (Inr u)
    then show ?thesis using assms(1,2) m v
      by (simp add: process_node_def apply_health_update_def process_health_result_def Let_def lb_run_def
          update_health_status_def auto_enable_node_def health_view_def split: if_splits)
  qed
qed

section \<open>Histories of rounds\<close>

lemma process_others:
  "quiet env \<Longrightarrow> \<forall>nr \<in> set nrs. addr (fst nr) \<noteq> b \<Longrightarrow>
   map_of (nodes (fold (process_node cfg env) nrs lb)) b = map_of (nodes lb) b"
proof (induction nrs arbitrary: lb)
  case (Cons nr nrs)
  then have "b \<noteq> addr (fst nr)" by auto
  from process_other [OF Cons.prems(1) this] Cons show ?case by simp
qed simp

lemma round_step:
  assumes "quiet env" "lb_inv lb" "map_of (nodes lb) a = Some n"
  shows "\<exists>n'. map_of (nodes (check_all_nodes cfg env lb)) a = Some n'
    \<and> health_view n' = health_step (hc_failure_threshold cfg) (is_ok (probe env a)) (health_view n)"
proof -
  let ?lb = "snd (check_circuit_timeouts (timeout_clock env) lb)"
  let ?f = "\<lambda>n. (n, probe env (addr n))"
  have inv: "lb_inv ?lb" using assms(2) by (rule lb_inv_check_timeouts)
  from assms(3) obtain m where m: "map_of (nodes ?lb) a = Some m" "health_view m = health_view n"
    by (simp add: map_of_check_timeouts view_check_timeout)
  from m(1) have am: "addr m = a" using lb_inv_node [OF inv] by simp
  from m(1) obtain xs ys where s: "nodes ?lb = xs @ (a, m) # ys" by (meson map_of_SomeD split_list)
  with lb_inv_wf [OF inv] have off: "a \<notin> fst ` set xs" "a \<notin> fst ` set ys" by auto
  have keys: "addr k = b" if "(b, k) \<in> set (nodes ?lb)" for b k using inv that by (auto simp: lb_inv_def)
  have "addr (snd p) \<noteq> a" if "p \<in> set xs \<union> set ys" for p
    using keys [of "fst p" "snd p"] off that by (auto simp: s image_iff)
  then have others: "\<forall>nr \<in> set (map ?f (map snd xs)). addr (fst nr) \<noteq> a"
    "\<forall>nr \<in> set (map ?f (map snd ys)). addr (fst nr) \<noteq> a"
    by simp_all
  define lb1 where "lb1 = fold (process_node cfg env) (map ?f (map snd xs)) ?lb"
  have "map_of (nodes lb1) (addr m) = Some m"
    using process_others [OF assms(1) others(1)] m(1) am by (simp add: lb1_def)
  from process_self [OF assms(1) this refl, of cfg "probe env a"]
  obtain n' where n': "map_of (nodes (process_node cfg env (m, probe env a) lb1)) a = Some n'"
    "health_view n' = health_step (hc_failure_threshold cfg) (is_ok (probe env a)) (health_view m)"
    unfolding am by (elim exE conjE)
  have "check_all_nodes cfg env lb
      = fold (process_node cfg env) (map ?f (map snd ys)) (process_node cfg env (m, probe env a) lb1)"
    using assms(1) by (simp add: check_all_nodes_def lb_run_def all_nodes_def s am Let_def lb1_def)
  with process_others [OF assms(1) others(2)] n' m(2) show ?thesis by simp
qed

text \<open>The specification: what the last answers of a node say.\<close>

definition trailing_failures :: "bool list \<Rightarrow> nat" where
  "trailing_failures answers = length (takeWhile Not (rev answers))"

lemma trailing_snoc [simp]:
  "trailing_failures [] = 0"
  "trailing_failures (h @ [b]) = (if b then 0 else Suc (trailing_failures h))"
  by (simp_all add: trailing_failures_def)

lemma trailing_le: "trailing_failures h \<le> length h"
  using length_takeWhile_le [of Not "rev h"] by (simp add: trailing_failures_def)

definition health_spec :: "u32 \<Rightarrow> bool list \<Rightarrow> bool \<times> disable_reason option \<times> u32" where
  "health_spec threshold h = (let k = trailing_failures h; up = k < unat threshold in
     (up, if up then None else Some HealthCheck, of_nat k))"

lemma health_step_spec:
  assumes "1 \<le> threshold" "length h < 2 ^ 32 - 1"
  shows "health_step threshold b (health_spec threshold h) = health_spec threshold (h @ [b])"
proof -
  have k: "trailing_failures h < 2 ^ 32 - 1" using trailing_le [of h] assms(2) by simp
  then have u: "unat (of_nat (trailing_failures h) + 1 :: u32) = Suc (trailing_failures h)"
    by (simp add: unat_word_ariths unat_of_nat)
  have "0 < unat threshold" using assms(1) by (simp add: word_le_nat_alt)
  then show ?thesis using u by (cases b) (auto simp: health_spec_def Let_def word_le_nat_alt)
qed

lemma health_run_spec:
  assumes "lb_inv lb" "map_of (nodes lb) a = Some n" "\<forall>env \<in> set envs. quiet env"
    and "1 \<le> hc_failure_threshold cfg" "length h + length envs < 2 ^ 32"
    and "health_view n = health_spec (hc_failure_threshold cfg) h"
  shows "lb_inv (health_run cfg envs lb) \<and> (\<exists>n'. map_of (nodes (health_run cfg envs lb)) a = Some n'
    \<and> health_view n' = health_spec (hc_failure_threshold cfg) (h @ map (\<lambda>env. is_ok (probe env a)) envs))"
  using assms
proof (induction envs arbitrary: lb n h)
  case Nil
  then show ?case by (simp add: health_run_def)
next
  case (Cons env envs)
  from Cons.prems have q: "quiet env" by simp
  from round_step [OF q Cons.prems(1,2)] obtain n' where n': "map_of (nodes (check_all_nodes cfg env lb)) a = Some n'"
    "health_view n' = health_step (hc_failure_threshold cfg) (is_ok (probe env a)) (health_view n)" by blast
  have "health_view n' = health_spec (hc_failure_threshold cfg) (h @ [is_ok (probe env a)])"
    using n'(2) Cons.prems(4-6) by (simp add: health_step_spec)
  from Cons.IH [OF lb_inv_round [OF Cons.prems(1)] n'(1) _ Cons.prems(4) _ this] Cons.prems(3,5)
  show ?case by (simp add: health_run_def)
qed

lemma history_decides:
  assumes "distinct addrs" "a \<in> set addrs" "1 \<le> hc_failure_threshold cfg"
    and "\<forall>env \<in> set envs. quiet env" "length envs < 2 ^ 32"
  shows "(a \<in> set (enabled_nodes (health_run cfg envs (lb_new addrs))) \<longleftrightarrow>
      trailing_failures (map (\<lambda>env. is_ok (probe env a)) envs) < unat (hc_failure_threshold cfg))
    \<and> lb_consecutive_failures a (health_run cfg envs (lb_new addrs))
      = of_nat (trailing_failures (map (\<lambda>env. is_ok (probe env a)) envs))"
proof -
  have inv: "lb_inv (lb_new addrs)" using assms(1) by (simp add: lb_new_eq lb_inv_with_config)
  have n: "map_of (nodes (lb_new addrs)) a = Some (node_new a)" using assms(2) by (simp add: lb_new_def map_of_collect)
  have "health_view (node_new a) = health_spec (hc_failure_threshold cfg) []"
    using assms(3) by (simp add: health_view_def health_spec_def node_new_def word_le_nat_alt)
  from health_run_spec [OF inv n assms(4,3) _ this] assms(5)
  obtain n' where inv': "lb_inv (health_run cfg envs (lb_new addrs))"
    and n': "map_of (nodes (health_run cfg envs (lb_new addrs))) a = Some n'"
      "health_view n' = health_spec (hc_failure_threshold cfg) (map (\<lambda>env. is_ok (probe env a)) envs)" by auto
  then show ?thesis using lb_inv_enabled [OF inv', of a]
    by (simp add: health_view_def health_spec_def lb_consecutive_failures_def Let_def)
qed

section \<open>Properties\<close>

text \<open>
  C13. The checker takes a node out of rotation exactly when its last answers were failures, as many
  as the threshold, and puts it back at the first good answer: after any number of rounds
  undisturbed by other tasks, a node is enabled exactly when fewer than threshold probes have
  failed since its last healthy one, and its failure counter is that number.
\<close>

theorem health_decides_enabled:
  assumes "distinct addrs" "a \<in> set addrs" "1 \<le> hc_failure_threshold cfg"
    and "\<forall>env \<in> set envs. quiet env" "length envs < 2 ^ 32"
  shows "(a \<in> set (enabled_nodes (health_run cfg envs (lb_new addrs))) \<longleftrightarrow>
      trailing_failures (map (\<lambda>env. is_ok (probe env a)) envs) < unat (hc_failure_threshold cfg))
    \<and> lb_consecutive_failures a (health_run cfg envs (lb_new addrs))
      = of_nat (trailing_failures (map (\<lambda>env. is_ok (probe env a)) envs))"
  using assms by (rule history_decides)

definition calm :: "(string \<Rightarrow> unit result) \<Rightarrow> round_env" where
  "calm answers = \<lparr>timeout_clock = (\<lambda>_. 0), update_clock = (\<lambda>_. (0, 0)), probe = answers,
     before_list = [], before_process = (\<lambda>_. []), before_apply = (\<lambda>_. [])\<rparr>"

theorem health_decides_enabled_witness:
  "''a'' \<notin> set (enabled_nodes (health_run default_health_config
     (map calm [\<lambda>_. Inr (), \<lambda>_. Inl (Transport ''''), \<lambda>_. Inl (Transport ''''), \<lambda>_. Inl (Transport '''')])
     (lb_new [''a'', ''b''])))"
  by (subst health_decides_enabled [THEN conjunct1])
     (simp_all add: default_health_config_def calm_def trailing_failures_def)

text \<open>
  C36. The checker never overrules the operator: a node disabled by hand stays disabled and out of
  the rotation over any rounds and answers, whatever the other tasks do to the pool between the
  checker's sections, except a manual enable or a removal of that node.
\<close>

theorem rounds_respect_manual_disable:
  assumes "lb_inv lb" "a \<in> set (node_addresses lb)"
    and "\<forall>env \<in> set envs. \<not> interference env (EnableNode a) \<and> \<not> interference env (RemoveNode a)"
  shows "a \<notin> set (enabled_nodes (health_run cfg envs (snd (disable_node a lb))))"
proof -
  from assms(2) obtain n where n: "map_of (nodes lb) a = Some n"
    by (metis map_of_eq_None_iff node_addresses_def not_None_eq set_map)
  have "lb_inv (health_run cfg envs lb') \<and> (\<exists>n'. map_of (nodes (health_run cfg envs lb')) a = Some n'
      \<and> disable_reason n' = Some Manual)"
    if "lb_inv lb'" "map_of (nodes lb') a = Some m" "disable_reason m = Some Manual" for lb' m
    using assms(3) that
  proof (induction envs arbitrary: lb' m)
    case Nil
    then show ?case by (simp add: health_run_def)
  next
    case (Cons env envs)
    obtain ops where ops: "check_all_nodes cfg env lb' = lb_run ops lb'"
      "\<forall>op \<in> set ops. interference env op \<or> (\<forall>b. op \<noteq> EnableNode b \<and> op \<noteq> RemoveNode b)"
      by (rule round_is_run)
    from ops(2) Cons.prems(1) have "EnableNode a \<notin> set ops" "RemoveNode a \<notin> set ops" by auto
    from manual_run [OF Cons.prems(3,4) this] obtain m' where
      "map_of (nodes (check_all_nodes cfg env lb')) a = Some m'" "disable_reason m' = Some Manual"
      by (auto simp: ops(1))
    from Cons.IH [OF _ lb_inv_round [OF Cons.prems(2)] this] Cons.prems(1)
    show ?case by (simp add: health_run_def)
  qed
  note keep = this
  have "map_of (nodes (snd (disable_node a lb))) a = Some (n\<lparr>enabled := False, disable_reason := Some Manual\<rparr>)"
    using n by (simp add: disable_node_def)
  from keep [OF lb_inv_disable_node [OF assms(1)] this] obtain n' where
    inv: "lb_inv (health_run cfg envs (snd (disable_node a lb)))" and
    n': "map_of (nodes (health_run cfg envs (snd (disable_node a lb)))) a = Some n'" "disable_reason n' = Some Manual"
    by auto
  from lb_inv_enabled [OF inv, of a] lb_inv_reason [OF inv n'(1)] n' show ?thesis by simp
qed

theorem rounds_respect_manual_disable_witness:
  "''a'' \<notin> set (enabled_nodes (health_run default_health_config
     [(calm (\<lambda>_. Inr ()))\<lparr>before_list := [AutoEnableNode ''a'', AddNode ''c'']\<rparr>, calm (\<lambda>_. Inr ())]
     (snd (disable_node ''a'' (lb_new [''a'', ''b''])))))"
  by (rule rounds_respect_manual_disable)
     (simp_all add: lb_new_eq lb_inv_with_config calm_def interference_def,
      simp_all add: node_addresses_def with_config_def collect_nodes_def)

end
