(* ===== verification/Histogram.thy ===== *)
theory Histogram
  imports F64
begin

text \<open>
  The latency histogram of \<open>madrpc-metrics/src/registry.rs\<close>: one hundred counters with bins
  that divide each decade of microseconds into nine, the sum of the samples and their number.
  The atomic counters are 64-bit words that wrap; the percentile is interpolated in binary64.
\<close>

section \<open>Operations\<close>

definition NUM_HISTOGRAM_BINS :: nat where
  "NUM_HISTOGRAM_BINS = 100"

record latency_histogram =
  bins :: "u64 list"
  total_latency :: u64
  sample_count :: u64

definition hist_new :: latency_histogram where
  "hist_new = \<lparr>bins = replicate NUM_HISTOGRAM_BINS 0, total_latency = 0, sample_count = 0\<rparr>"

text \<open>\<open>ilog10\<close>; the argument is the value of a 64-bit word.\<close>

fun ilog10 :: "nat \<Rightarrow> nat" where
  "ilog10 n = (if n < 10 then 0 else ilog10 (n div 10) + 1)"

declare ilog10.simps [simp del]

definition latency_to_bin :: "u64 \<Rightarrow> nat" where
  "latency_to_bin latency_us = (let l = unat latency_us in
     if l = 0 then 0 else
     let log10_value = ilog10 l;
         scale_factor =
           (if l < 10 then l
            else if l < 100 then l div 10
            else if l < 1000 then l div 100
            else if l < 10000 then l div 1000
            else if l < 100000 then l div 10000
            else if l < 1000000 then l div 100000
            else 10 + min (ilog10 (l div 1000000)) 3 * 10);
         decade_offset = log10_value * 10;
         bin = decade_offset + min scale_factor 9
     in min bin (NUM_HISTOGRAM_BINS - 1))"

definition hist_record :: "u64 \<Rightarrow> latency_histogram \<Rightarrow> latency_histogram" where
  "hist_record latency_us h = (let bin = latency_to_bin latency_us in
     h\<lparr>bins := (bins h)[bin := bins h ! bin + 1],
       total_latency := total_latency h + latency_us,
       sample_count := sample_count h + 1\<rparr>)"

definition bin_to_latency :: "nat \<Rightarrow> u64" where
  "bin_to_latency bin = (if bin = 0 then 1
     else 10 ^ (bin div 10) * of_nat (max (bin mod 10) 1))"

text \<open>The value the loop returns in the bin \<open>idx\<close> that reaches the target.\<close>

definition interpolate :: "u64 \<Rightarrow> u64 \<Rightarrow> nat \<Rightarrow> u64 \<Rightarrow> u64" where
  "interpolate target cumulative idx bin_count =
     (let bin_start = bin_to_latency idx; bin_end = bin_to_latency (idx + 1) in
      if bin_count = 0 then (bin_start + bin_end) div 2
      else let offset_in_bin = target - cumulative;
               fraction = f_div (f_of_nat (unat offset_in_bin)) (f_of_nat (unat bin_count));
               interpolated = f_add (f_of_nat (unat bin_start))
                 (f_mul fraction (f_of_nat (unat (bin_end - bin_start))))
           in f_to_u64 interpolated)"

fun scan_bins :: "u64 \<Rightarrow> u64 \<Rightarrow> nat \<Rightarrow> u64 list \<Rightarrow> u64" where
  "scan_bins target cumulative idx [] = bin_to_latency NUM_HISTOGRAM_BINS"
| "scan_bins target cumulative idx (bin_count # bs) =
     (if cumulative + bin_count \<ge> target then interpolate target cumulative idx bin_count
      else scan_bins target (cumulative + bin_count) (idx + 1) bs)"

definition estimate_percentile :: "u64 \<Rightarrow> latency_histogram \<Rightarrow> u64" where
  "estimate_percentile percentile h = (let total = sample_count h in
     if total = 0 then 0
     else scan_bins ((total * percentile) div 100) 0 0 (bins h))"

definition calculate_percentiles :: "latency_histogram \<Rightarrow> u64 \<times> u64 \<times> u64 \<times> u64" where
  "calculate_percentiles h = (let total = sample_count h in
     if total = 0 then (0, 0, 0, 0)
     else (total_latency h div total, estimate_percentile 50 h, estimate_percentile 95 h,
           estimate_percentile 99 h))"

abbreviation histogram_of :: "u64 list \<Rightarrow> latency_histogram" where
  "histogram_of xs \<equiv> fold hist_record xs hist_new"

section \<open>Bins\<close>

lemma ilog10_bounds: "0 < n \<Longrightarrow> 10 ^ ilog10 n \<le> n \<and> n < 10 ^ Suc (ilog10 n)"
proof (induction n rule: ilog10.induct)
  case (1 n)
  show ?case
  proof (cases "n < 10")
    case True
    with 1 show ?thesis by (subst (1 2) ilog10.simps) auto
  next
    case False
    with 1 have "10 ^ ilog10 (n div 10) \<le> n div 10" "n div 10 < 10 ^ Suc (ilog10 (n div 10))" by auto
    moreover from False have "ilog10 n = Suc (ilog10 (n div 10))" by (subst ilog10.simps) simp
    ultimately show ?thesis by auto
  qed
qed

lemma ilog10_unique:
  assumes "10 ^ d \<le> n" "n < 10 ^ Suc d"
  shows "ilog10 n = d"
proof -
  have "0 < (10::nat) ^ d" by simp
  then have "0 < n" using assms(1) by (rule less_le_trans)
  note b = ilog10_bounds [OF this]
  have "(10::nat) ^ d < 10 ^ Suc (ilog10 n)" "(10::nat) ^ ilog10 n < 10 ^ Suc d"
    using assms b by linarith+
  then have "d < Suc (ilog10 n)" "ilog10 n < Suc d" by (simp_all only: power_strict_increasing_iff)
  then show ?thesis by simp
qed

lemma bin_less: "latency_to_bin l < NUM_HISTOGRAM_BINS"
  unfolding latency_to_bin_def Let_def NUM_HISTOGRAM_BINS_def by (auto simp: min_less_iff_disj)

text \<open>Below one second a latency \<open>s * 10 ^ d\<close> to \<open>(s + 1) * 10 ^ d\<close> falls into bin \<open>10 * d + s\<close>.\<close>

lemma bin_below_second:
  assumes "0 < unat l" "unat l < 1000000"
  obtains d s where "latency_to_bin l = 10 * d + s" "1 \<le> s" "s \<le> 9" "d \<le> 5"
    "10 ^ d * s \<le> unat l" "unat l < 10 ^ d * (s + 1)"
proof -
  define n where "n = unat l"
  define d where "d = ilog10 n"
  define s where "s = n div 10 ^ d"
  have n: "0 < n" "n < 1000000" using assms by (simp_all add: n_def)
  note b = ilog10_bounds [OF n(1), folded d_def]
  have "(10::nat) ^ d < 10 ^ 6" using b n(2) by simp
  then have d: "d \<le> 5" by (simp only: power_strict_increasing_iff)
  have s: "1 \<le> s" "s \<le> 9"
  proof -
    show "1 \<le> s" using b by (simp add: s_def Suc_le_eq div_greater_zero_iff)
    have "s < 10" unfolding s_def using b by (intro less_mult_imp_div_less) (simp add: mult.commute)
    then show "s \<le> 9" by simp
  qed
  have m: "n = 10 ^ d * s + n mod 10 ^ d" by (simp add: s_def)
  moreover have "n mod 10 ^ d < 10 ^ d" by simp
  ultimately have range: "10 ^ d * s \<le> n" "n < 10 ^ d * (s + 1)" by (simp_all only: distrib_left)
  have d_cases: "d = 0 \<or> d = 1 \<or> d = 2 \<or> d = 3 \<or> d = 4 \<or> d = 5" using d by auto
  have "latency_to_bin l = 10 * d + s"
    using d_cases
  proof (elim disjE)
  qed (use b s n in \<open>auto simp: latency_to_bin_def n_def [symmetric] d_def [symmetric] s_def Let_def
        NUM_HISTOGRAM_BINS_def\<close>)
  then show thesis using that [of d s] s d range by (simp add: n_def)
qed

lemma bin_to_latency_grid:
  assumes "1 \<le> s" "s \<le> 9" "d \<le> 5"
  shows "unat (bin_to_latency (10 * d + s)) = 10 ^ d * s"
    and "unat (bin_to_latency (10 * d + s + 1)) = 10 ^ d * (s + 1)"
proof -
  have d: "d \<in> {0, 1, 2, 3, 4, 5}" and s: "s \<in> {1, 2, 3, 4, 5, 6, 7, 8, 9}" using assms by auto
  show "unat (bin_to_latency (10 * d + s)) = 10 ^ d * s"
    using d s by (elim insertE) (simp_all add: bin_to_latency_def)
  show "unat (bin_to_latency (10 * d + s + 1)) = 10 ^ d * (s + 1)"
    using d s by (elim insertE) (simp_all add: bin_to_latency_def)
qed

lemma bin_mono_below_second:
  assumes "0 < unat a" "a \<le> b" "unat b < 1000000"
  shows "latency_to_bin a \<le> latency_to_bin b"
proof -
  have ab: "unat a \<le> unat b" using assms(2) by (simp add: word_le_nat_alt)
  from assms(1,3) ab have in_range: "0 < unat a" "unat a < 1000000" "0 < unat b" "unat b < 1000000" by auto
  obtain d s where a: "latency_to_bin a = 10 * d + s" "1 \<le> s" "s \<le> 9" "d \<le> 5"
    "10 ^ d * s \<le> unat a" "unat a < 10 ^ d * (s + 1)" using in_range(1,2) by (rule bin_below_second)
  obtain e t where b: "latency_to_bin b = 10 * e + t" "1 \<le> t" "t \<le> 9" "e \<le> 5"
    "10 ^ e * t \<le> unat b" "unat b < 10 ^ e * (t + 1)" using in_range(3,4) by (rule bin_below_second)
  have lt: "10 ^ d * s < 10 ^ e * (t + 1)" using a(5) b(6) ab by linarith
  have "(10::nat) ^ d * 1 \<le> 10 ^ d * s" using a(2) by (intro mult_left_mono) simp_all
  also note lt
  also have "10 ^ e * (t + 1) \<le> 10 ^ e * (10::nat)" using b(3) by (intro mult_left_mono) simp_all
  finally have "(10::nat) ^ d < 10 ^ Suc e" by simp
  then have "d < Suc e" by (simp only: power_strict_increasing_iff)
  then consider "d < e" | "d = e" by linarith
  then show ?thesis
  proof cases
    case 1
    then show ?thesis using a b by simp
  next
    case 2
    with lt have "s < t + 1" by (simp only: mult_less_cancel1)
    then show ?thesis using a b 2 by simp
  qed
qed

section \<open>What the counters count\<close>

lemma length_bins [simp]: "length (bins (histogram_of xs)) = NUM_HISTOGRAM_BINS"
proof -
  have "length (bins (fold hist_record xs h)) = length (bins h)" for h
    by (induction xs arbitrary: h) (simp_all add: hist_record_def Let_def)
  then show ?thesis by (simp add: hist_new_def)
qed

lemma histogram_counts:
  "sample_count (histogram_of xs) = of_nat (length xs)"
  "total_latency (histogram_of xs) = sum_list xs"
  "i < NUM_HISTOGRAM_BINS \<Longrightarrow>
     bins (histogram_of xs) ! i = of_nat (length (filter (\<lambda>x. latency_to_bin x = i) xs))"
proof -
  have "sample_count (fold hist_record xs h) = sample_count h + of_nat (length xs)" for h
    by (induction xs arbitrary: h) (simp_all add: hist_record_def Let_def)
  then show "sample_count (histogram_of xs) = of_nat (length xs)" by (simp add: hist_new_def)
  have "total_latency (fold hist_record xs h) = total_latency h + sum_list xs" for h
    by (induction xs arbitrary: h) (simp_all add: hist_record_def Let_def)
  then show "total_latency (histogram_of xs) = sum_list xs" by (simp add: hist_new_def)
  assume i: "i < NUM_HISTOGRAM_BINS"
  have "i < length (bins h) \<Longrightarrow> bins (fold hist_record xs h) ! i
      = bins h ! i + of_nat (length (filter (\<lambda>x. latency_to_bin x = i) xs))" for h
    by (induction xs arbitrary: h) (simp_all add: hist_record_def Let_def)
  then show "bins (histogram_of xs) ! i = of_nat (length (filter (\<lambda>x. latency_to_bin x = i) xs))"
    using i by (simp add: hist_new_def)
qed

lemma unat_of_nat_small: "n < 2 ^ 64 \<Longrightarrow> unat (of_nat n :: u64) = n"
  by (simp add: unsigned_of_nat take_bit_nat_eq_self)

lemma filter_less_Suc:
  "length (filter (\<lambda>x. f x < Suc j) xs) = length (filter (\<lambda>x. f x < j) xs) + length (filter (\<lambda>x. f x = j) xs)"
  by (induction xs) auto

lemma sum_take_bins:
  assumes "length xs < 2 ^ 64" "j \<le> NUM_HISTOGRAM_BINS"
  shows "sum_list (map unat (take j (bins (histogram_of xs))))
    = length (filter (\<lambda>x. latency_to_bin x < j) xs)"
  using assms(2)
proof (induction j)
  case (Suc j)
  have "length (filter (\<lambda>x. latency_to_bin x = j) xs) < 2 ^ 64"
    using assms(1) length_filter_le [of _ xs] by (rule le_less_trans [rotated])
  then have "unat (bins (histogram_of xs) ! j) = length (filter (\<lambda>x. latency_to_bin x = j) xs)"
    using Suc.prems by (simp add: histogram_counts unat_of_nat_small)
  then show ?case using Suc by (simp add: take_Suc_conv_app_nth filter_less_Suc)
qed simp

lemma scan_bins_finds:
  assumes "unat c + sum_list (map unat bs) < 2 ^ 64" "unat c < unat t"
    and "unat t \<le> unat c + sum_list (map unat bs)"
  obtains j c' where "j < length bs" "scan_bins t c idx bs = interpolate t c' (idx + j) (bs ! j)"
    "unat c' = unat c + sum_list (map unat (take j bs))" "unat c' < unat t" "unat t \<le> unat c' + unat (bs ! j)"
  using assms
proof (induction bs arbitrary: c idx thesis)
  case (Cons b bs)
  have sum: "unat (c + b) = unat c + unat b"
    using Cons.prems(2) by (intro unat_add_lem [THEN iffD1]) simp
  show ?case
  proof (cases "t \<le> c + b")
    case True
    then have "unat t \<le> unat c + unat b" using sum by (simp add: word_le_nat_alt)
    then show ?thesis using Cons.prems(1) [of 0 c] Cons.prems(3) True by simp
  next
    case False
    then have lt: "unat (c + b) < unat t" by (simp add: word_le_nat_alt)
    have "unat (c + b) + sum_list (map unat bs) < 2 ^ 64" "unat t \<le> unat (c + b) + sum_list (map unat bs)"
      using Cons.prems(2,4) sum by simp_all
    then obtain j c' where "j < length bs"
      "scan_bins t (c + b) (idx + 1) bs = interpolate t c' (idx + 1 + j) (bs ! j)"
      "unat c' = unat (c + b) + sum_list (map unat (take j bs))" "unat c' < unat t"
      "unat t \<le> unat c' + unat (bs ! j)" using Cons.IH lt by metis
    then show ?thesis using Cons.prems(1) [of "Suc j" c'] False sum by simp
  qed
qed simp

section \<open>Interpolation stays inside the bin\<close>

lemma rr_unit: "0 \<le> x \<Longrightarrow> x \<le> of_nat n \<Longrightarrow> n \<le> 2 ^ 53 \<Longrightarrow> 0 \<le> rr x \<and> rr x \<le> of_nat n"
  using rr_mono [of x "of_nat n"] by (simp add: rr_nonneg rr_of_nat)

lemma rnd_range:
  assumes "of_nat m \<le> x" "x \<le> of_nat n" "n \<le> 2 ^ 53"
  obtains y where "rnd x = Fin y" "of_nat m \<le> y" "y \<le> of_nat n"
proof -
  have mn: "(of_nat m :: rat) \<le> of_nat n" using assms by linarith
  then have "m \<le> n" by (simp only: of_nat_le_iff)
  then have "rr (of_nat m) = of_nat m" "rr (of_nat n) = of_nat n" using assms(3) by (simp_all add: rr_of_nat)
  then have y: "of_nat m \<le> rr x" "rr x \<le> of_nat n" using rr_mono assms(1,2) by metis+
  have "(of_nat n :: rat) < f_big" using assms(3) by (rule of_nat_less_f_big)
  moreover have "(0 :: rat) \<le> of_nat m" by simp
  ultimately have "\<bar>rr x\<bar> < f_big" using y by linarith
  then show thesis using that y by (simp add: rnd_Fin)
qed

lemma f_of_nat_u64: obtains x where "f_of_nat n = Fin x \<and> x = rr (of_nat n)" | "2 ^ 64 \<le> n"
proof (cases "2 ^ 64 \<le> n")
  case False
  then have "(of_nat n :: rat) \<le> of_nat (2 ^ 64)" by (intro of_nat_mono) simp
  moreover have "rr (2 powi 64) = 2 powi 64" by (rule rr_powi) simp
  ultimately have "rr (of_nat n) \<le> 2 powi 64" using rr_mono [of "of_nat n" "2 powi 64"] by simp
  then have "rnd (of_nat n) = Fin (rr (of_nat n))"
    by (intro rnd_Fin) (simp add: rr_nonneg f_big_def)
  then show thesis using that(1) by (simp add: f_of_nat_def)
qed

lemma interpolate_range:
  assumes "1 \<le> s" "s \<le> 9" "d \<le> 5" "unat c < unat t" "unat t \<le> unat c + unat b"
  shows "10 ^ d * s \<le> unat (interpolate t c (10 * d + s) b)"
    and "unat (interpolate t c (10 * d + s) b) \<le> 10 ^ d * (s + 1)"
proof -
  let ?off = "unat (t - c)" and ?w = "10 ^ d :: nat" and ?lo = "10 ^ d * s"
  note grid = bin_to_latency_grid [OF assms(1-3)]
  have off: "?off = unat t - unat c"
    using assms(4) by (intro unat_sub) (simp add: word_le_nat_alt)
  have w: "unat (bin_to_latency (10 * d + s + 1) - bin_to_latency (10 * d + s)) = ?w"
  proof -
    have "bin_to_latency (10 * d + s) \<le> bin_to_latency (10 * d + s + 1)"
      by (simp add: word_le_nat_alt grid [simplified])
    then show ?thesis using grid by (simp add: unat_sub)
  qed
  have small: "?w \<le> 10 ^ 5" "10 ^ d * (s + 1) \<le> 10 ^ 6"
  proof -
    show "?w \<le> 10 ^ 5" using assms(3) by (intro power_increasing) simp_all
    then have "10 ^ d * (s + 1) \<le> 10 ^ 5 * (10::nat)" using assms(2) by (intro mult_mono) simp_all
    then show "10 ^ d * (s + 1) \<le> 10 ^ 6" by simp
  qed
  obtain x where x: "f_of_nat ?off = Fin x" "x = rr (of_nat ?off)"
    using unsigned_less [of "t - c", where ?'a = nat] by (cases rule: f_of_nat_u64 [of ?off]) auto
  obtain y where y: "f_of_nat (unat b) = Fin y" "y = rr (of_nat (unat b))"
    using unsigned_less [of b, where ?'a = nat] by (cases rule: f_of_nat_u64 [of "unat b"]) auto
  have "(of_nat 1 :: rat) \<le> of_nat (unat b)" "(of_nat ?off :: rat) \<le> of_nat (unat b)"
    using assms(4,5) off by (intro of_nat_mono; simp)+
  then have "rr (of_nat 1) \<le> y" "x \<le> y" unfolding x(2) y(2) by (blast intro: rr_mono)+
  moreover have "0 \<le> x" unfolding x(2) by (rule rr_nonneg [OF of_nat_0_le_iff])
  ultimately have xy: "0 \<le> x" "x \<le> y" "1 \<le> y" using rr_of_nat [of 1] by simp_all
  then have "0 \<le> x / y" "x / y \<le> 1" by simp_all
  then obtain q where q: "rnd (x / y) = Fin q" "0 \<le> q" "q \<le> 1"
    using rnd_range [of 0 "x / y" 1] by auto
  have "?w \<le> 2 ^ 53" "?lo \<le> 2 ^ 53" using small by (simp_all add: distrib_left)
  then have f: "f_of_nat ?w = Fin (of_nat ?w)" "f_of_nat ?lo = Fin (of_nat ?lo)"
    unfolding f_of_nat_def using rnd_of_nat by blast+
  have "q * of_nat ?w \<le> 1 * of_nat ?w" using q(3) by (intro mult_right_mono) simp_all
  then obtain p where p: "rnd (q * of_nat ?w) = Fin p" "0 \<le> p" "p \<le> of_nat ?w"
    using rnd_range [of 0 "q * of_nat ?w" ?w] q(2) small by auto
  have "of_nat ?lo + p \<le> of_nat (10 ^ d * (s + 1))" using p(3) by (simp add: distrib_left)
  then obtain z where z: "rnd (of_nat ?lo + p) = Fin z" "of_nat ?lo \<le> z" "z \<le> of_nat (10 ^ d * (s + 1))"
    using rnd_range [of ?lo "of_nat ?lo + p" "10 ^ d * (s + 1)"] p(2) small by auto
  have b0: "b \<noteq> 0" using assms(4,5) by auto
  have y0: "y \<noteq> 0" using xy(3) by auto
  have res: "interpolate t c (10 * d + s) b = f_to_u64 (Fin z)"
    unfolding interpolate_def Let_def w grid(1) x(1) y(1) f using b0 y0
    by (simp only: if_False f_div.simps q(1) f_mul.simps p(1) f_add.simps z(1))
  have fl: "int ?lo \<le> \<lfloor>z\<rfloor>" "\<lfloor>z\<rfloor> \<le> int (10 ^ d * (s + 1))"
    using z(2,3) by (simp_all only: le_floor_iff floor_le_iff of_int_of_nat_eq)
  then have "nat \<lfloor>z\<rfloor> \<le> 10 ^ 6" using small by linarith
  then have "unat (f_to_u64 (Fin z)) = nat \<lfloor>z\<rfloor>"
    by (simp add: f_to_u64_def unat_of_nat_small)
  with fl show "10 ^ d * s \<le> unat (interpolate t c (10 * d + s) b)"
    "unat (interpolate t c (10 * d + s) b) \<le> 10 ^ d * (s + 1)" unfolding res by linarith+
qed

section \<open>Ranks\<close>

lemma sorted_rank:
  assumes "sorted ys" "\<And>a b. a \<in> set ys \<Longrightarrow> b \<in> set ys \<Longrightarrow> a \<le> b \<Longrightarrow> (f a :: nat) \<le> f b"
    and "length (filter (\<lambda>y. f y < i) ys) < k" "k \<le> length (filter (\<lambda>y. f y < Suc i) ys)"
  shows "f (ys ! (k - 1)) = i"
proof -
  have k: "0 < k" using assms(3) by simp
  have k2: "k \<le> length ys" using assms(4) length_filter_le by (rule order_trans)
  have mono: "f (ys ! a) \<le> f (ys ! b)" if "a \<le> b" "b < length ys" for a b
    using assms(1,2) that by (simp add: sorted_nth_mono)
  have count: "length (filter P ys) = card {j. j < length ys \<and> P (ys ! j)}" for P
    by (rule length_filter_conv_card)
  have "\<not> f (ys ! (k - 1)) < i"
  proof
    assume low: "f (ys ! (k - 1)) < i"
    have "{..<k} \<subseteq> {j. j < length ys \<and> f (ys ! j) < i}"
    proof
      fix j assume "j \<in> {..<k}"
      then have "j \<le> k - 1" "j < length ys" using k2 by simp_all
      moreover have "k - 1 < length ys" using k k2 by simp
      ultimately have "f (ys ! j) \<le> f (ys ! (k - 1))" using mono by blast
      then show "j \<in> {j. j < length ys \<and> f (ys ! j) < i}"
        using low \<open>j < length ys\<close> by simp
    qed
    then have "card {..<k} \<le> card {j. j < length ys \<and> f (ys ! j) < i}" by (intro card_mono) auto
    then show False using assms(3) by (simp add: count)
  qed
  moreover have "\<not> Suc i \<le> f (ys ! (k - 1))"
  proof
    assume big: "Suc i \<le> f (ys ! (k - 1))"
    have "{j. j < length ys \<and> f (ys ! j) < Suc i} \<subseteq> {..<k - 1}"
    proof
      fix j assume j: "j \<in> {j. j < length ys \<and> f (ys ! j) < Suc i}"
      then show "j \<in> {..<k - 1}" using big mono [of "k - 1" j] by (cases "j < k - 1") auto
    qed
    then have "card {j. j < length ys \<and> f (ys ! j) < Suc i} \<le> card {..<k - 1}" by (intro card_mono) auto
    then show False using assms(4) k k2 by (simp add: count)
  qed
  ultimately show ?thesis by simp
qed

lemma filter_sort_length:
  "length (filter P (sort xs)) = length (filter P (xs :: 'a :: linorder list))"
  by (metis filter_sort length_sort)

text \<open>The scan stops in a bin that holds the sample of the rank.\<close>

lemma percentile_bin:
  assumes "p \<le> 100" "length xs * 100 < 2 ^ 64" "k = length xs * unat p div 100" "1 \<le> k"
  obtains t c j where "estimate_percentile p (histogram_of xs) = interpolate t c j (bins (histogram_of xs) ! j)"
    "unat c < unat t" "unat t \<le> unat c + unat (bins (histogram_of xs) ! j)" "k \<le> length xs"
    "length (filter (\<lambda>y. latency_to_bin y < j) (sort xs)) < k" "k \<le> length (filter (\<lambda>y. latency_to_bin y < Suc j) (sort xs))"
proof -
  let ?h = "histogram_of xs"
  have p: "unat p \<le> 100" using assms(1) by (simp add: word_le_nat_alt)
  then have lp: "length xs * unat p \<le> length xs * 100" by (rule mult_left_mono) simp
  have len: "length xs < 2 ^ 64" using assms(2) by simp
  define t where "t = (sample_count ?h * p) div 100"
  have n: "unat (sample_count ?h) = length xs" using unat_of_nat_small [OF len] by (simp only: histogram_counts)
  have "unat (sample_count ?h) * unat p < 2 ^ LENGTH(64)" using order.strict_trans1 [OF lp assms(2)] by (simp add: n)
  then have "unat (sample_count ?h * p) = length xs * unat p"
    unfolding n [symmetric] by (rule unat_mult_lem [THEN iffD1])
  then have t: "unat t = k" using assms(3) by (simp add: t_def unat_div)
  have "length xs \<noteq> 0" using assms(3,4) by auto
  then have "sample_count ?h \<noteq> 0"
    using unat_of_nat_small [OF len] by (auto simp: histogram_counts)
  then have est: "estimate_percentile p ?h = scan_bins t 0 0 (bins ?h)"
    by (simp add: estimate_percentile_def Let_def t_def)
  have all: "sum_list (map unat (bins ?h)) = length xs"
  proof -
    have "sum_list (map unat (take NUM_HISTOGRAM_BINS (bins ?h))) = length (filter (\<lambda>x. latency_to_bin x < NUM_HISTOGRAM_BINS) xs)"
      by (rule sum_take_bins [OF len order_refl])
    then show ?thesis by (simp add: bin_less)
  qed
  have "k \<le> length xs" using lp assms(3) by linarith
  then have pre: "unat (0 :: u64) + sum_list (map unat (bins ?h)) < 2 ^ 64" "unat (0 :: u64) < unat t"
    "unat t \<le> unat (0 :: u64) + sum_list (map unat (bins ?h))"
    using all len t assms(4) by simp_all
  obtain j c where "j < length (bins ?h)" "scan_bins t 0 0 (bins ?h) = interpolate t c (0 + j) (bins ?h ! j)"
    "unat c = unat (0 :: u64) + sum_list (map unat (take j (bins ?h)))" "unat c < unat t"
    "unat t \<le> unat c + unat (bins ?h ! j)" using pre by (rule scan_bins_finds)
  then have j: "j < NUM_HISTOGRAM_BINS" "estimate_percentile p ?h = interpolate t c j (bins ?h ! j)"
    "unat c = length (filter (\<lambda>x. latency_to_bin x < j) xs)" "unat c < unat t" "unat t \<le> unat c + unat (bins ?h ! j)"
    using sum_take_bins [OF len, of j] by (simp_all add: est)
  have "unat (bins ?h ! j) = length (filter (\<lambda>x. latency_to_bin x = j) xs)"
    unfolding histogram_counts(3) [OF j(1)]
    by (rule unat_of_nat_small [OF order.strict_trans1 [OF length_filter_le len]])
  then have "length (filter (\<lambda>y. latency_to_bin y < j) (sort xs)) < k"
    "k \<le> length (filter (\<lambda>y. latency_to_bin y < Suc j) (sort xs))"
    using j(3-5) t by (simp_all add: filter_sort_length filter_less_Suc)
  with that j(2,4,5) \<open>k \<le> length xs\<close> show thesis by blast
qed

section \<open>Properties\<close>

text \<open>
  C35. The estimate of a percentile is within a factor of two of the sample of that rank, for any
  samples from one microsecond to below one second, once the rank is at least one.
\<close>

theorem percentile_factor_two:
  assumes "\<forall>x \<in> set xs. 0 < unat x \<and> unat x < 1000000" "p \<le> 100" "length xs * 100 < 2 ^ 64"
    and "k = length xs * unat p div 100" "1 \<le> k"
  shows "unat (sort xs ! (k - 1)) \<le> 2 * unat (estimate_percentile p (histogram_of xs))
     \<and> unat (estimate_percentile p (histogram_of xs)) \<le> 2 * unat (sort xs ! (k - 1))"
proof -
  let ?h = "histogram_of xs"
  obtain t c j where j: "estimate_percentile p ?h = interpolate t c j (bins ?h ! j)" "unat c < unat t"
    "unat t \<le> unat c + unat (bins ?h ! j)" "k \<le> length xs" "length (filter (\<lambda>y. latency_to_bin y < j) (sort xs)) < k"
    "k \<le> length (filter (\<lambda>y. latency_to_bin y < Suc j) (sort xs))" using assms(2-5) by (rule percentile_bin)
  define x where "x = sort xs ! (k - 1)"
  have "latency_to_bin x = j" unfolding x_def
    using j(5,6) assms(1) by (intro sorted_rank) (simp_all add: bin_mono_below_second)
  moreover have "x \<in> set xs" unfolding x_def
    using j(4) assms(5) by (metis One_nat_def Suc_le_lessD Suc_pred diff_less_Suc length_sort less_Suc_eq_le nth_mem order_less_le_trans set_sort zero_less_Suc)
  then have x: "0 < unat x" "unat x < 1000000" using assms(1) by auto
  from x obtain d s where ds: "latency_to_bin x = 10 * d + s" "1 \<le> s" "s \<le> 9" "d \<le> 5"
    "10 ^ d * s \<le> unat x" "unat x < 10 ^ d * (s + 1)" by (rule bin_below_second)
  ultimately have est': "estimate_percentile p ?h = interpolate t c (10 * d + s) (bins ?h ! j)"
    using j(1) by simp
  note r = interpolate_range [OF ds(2-4) j(2,3), folded est']
  have "10 ^ d * (s + 1) \<le> 10 ^ d * (2 * s)" using ds(2) by (intro mult_left_mono) simp_all
  moreover have "10 ^ d * (2 * s) = 2 * (10 ^ d * s)" by simp
  ultimately show ?thesis using r ds(5,6) unfolding x_def by linarith
qed

theorem percentile_factor_two_witness:
  "unat (sort [100, 250, 400 :: u64] ! (1 - 1)) \<le> 2 * unat (estimate_percentile 50 (histogram_of [100, 250, 400]))
   \<and> unat (estimate_percentile 50 (histogram_of [100, 250, 400])) \<le> 2 * unat (sort [100, 250, 400 :: u64] ! (1 - 1))"
  by (rule percentile_factor_two) simp_all

text \<open>
  The rank is rounded down, to zero when there are fewer than two samples for the median (or
  fewer than a hundred for the 99th percentile), and rank zero stops at the empty first bin: a
  single sample of any latency reports percentiles of one microsecond.
\<close>

theorem single_sample_percentiles:
  assumes "l \<noteq> 0"
  shows "calculate_percentiles (histogram_of [l]) = (l, 1, 1, 1)"
proof -
  have l: "unat l \<noteq> 0" using assms by (simp add: unat_eq_0)
  have "latency_to_bin l \<noteq> 0"
  proof (cases "unat l < 1000000")
    case True
    have "0 < unat l" using l by simp
    from this True show ?thesis by (rule bin_below_second) auto
  next
    case False
    then show ?thesis by (simp add: latency_to_bin_def Let_def NUM_HISTOGRAM_BINS_def)
  qed
  moreover have "scan_bins 0 0 0 bs = 1" if "bs \<noteq> []" "hd bs = 0" for bs
    using that by (cases bs) (simp_all add: interpolate_def bin_to_latency_def)
  ultimately have "scan_bins 0 0 0 (bins (histogram_of [l])) = 1"
    by (simp add: hist_record_def hist_new_def Let_def NUM_HISTOGRAM_BINS_def hd_conv_nth)
  then show ?thesis
    by (simp add: calculate_percentiles_def estimate_percentile_def Let_def)
      (simp add: hist_record_def hist_new_def Let_def)
qed

theorem single_sample_percentiles_witness:
  "calculate_percentiles (histogram_of [250000]) = (250000, 1, 1, 1)"
  by (rule single_sample_percentiles) simp

text \<open>
  From one second on the position inside the decade is lost: every latency from one to ten
  seconds falls into the bin that starts at nine seconds.
\<close>

theorem seconds_reported_as_nine:
  assumes "1000000 \<le> unat l" "unat l < 10000000"
  shows "unat (bin_to_latency (latency_to_bin l)) = 9000000"
proof -
  have "ilog10 (unat l) = 6" by (rule ilog10_unique) (use assms in simp_all)
  then have "latency_to_bin l = 69" using assms
    by (simp add: latency_to_bin_def Let_def NUM_HISTOGRAM_BINS_def)
  then show ?thesis by (simp add: bin_to_latency_def)
qed

theorem seconds_reported_as_nine_witness:
  "unat (bin_to_latency (latency_to_bin 1000000)) = 9000000"
  by (rule seconds_reported_as_nine) simp_all

end
