(* ===== verification/Registry.thy ===== *)
theory Registry
  imports Histogram Protocol "HOL-Library.Multiset"
begin

text \<open>
  The metrics registry of \<open>madrpc-metrics/src/registry.rs\<close> and the two collectors of
  \<open>collector.rs\<close>. The process-wide statics that make timestamps strictly increase are the
  record \<open>ts_clock\<close>, with the readings the system clock is going to give; every operation that
  reads the time takes the clock and returns it. The counters are words that wrap, as
  \<open>fetch_add\<close> does; here a recording is one function, and \<open>Atomics\<close> takes it apart into the steps
  between which other threads act.
\<close>

section \<open>Timestamps\<close>

record ts_clock =
  wall :: "nat \<Rightarrow> system_time"
  reads :: nat
  TIMESTAMP_FALLBACK :: u64
  LAST_TIMESTAMP :: u64

definition clock_start :: "(nat \<Rightarrow> system_time) \<Rightarrow> ts_clock" where
  "clock_start w = \<lparr>wall = w, reads = 0, TIMESTAMP_FALLBACK = 1, LAST_TIMESTAMP = 0\<rparr>"

definition read_millis :: "ts_clock \<Rightarrow> u64 \<times> ts_clock" where
  "read_millis c = (let t = wall c (reads c); c = c\<lparr>reads := reads c + 1\<rparr> in
     if 0 \<le> t then (of_int (t div 1000000), c)
     else (TIMESTAMP_FALLBACK c, c\<lparr>TIMESTAMP_FALLBACK := TIMESTAMP_FALLBACK c + 1\<rparr>))"

definition get_monotonic_timestamp :: "ts_clock \<Rightarrow> u64 \<times> ts_clock" where
  "get_monotonic_timestamp c = (case read_millis c of (system_time, c) \<Rightarrow>
     let new_timestamp = max system_time (LAST_TIMESTAMP c + 1)
     in (new_timestamp, c\<lparr>LAST_TIMESTAMP := new_timestamp\<rparr>))"

section \<open>Statistics of a method and of a node\<close>

record metrics_config =
  max_methods :: nat
  max_nodes :: nat
  method_ttl_secs :: u64
  node_ttl_secs :: u64

definition default_metrics_config :: metrics_config where
  "default_metrics_config = \<lparr>max_methods = 1000, max_nodes = 100,
     method_ttl_secs = 3600, node_ttl_secs = 3600\<rparr>"

record method_stats =
  call_count :: u64
  success_count :: u64
  failure_count :: u64
  latencies :: latency_histogram
  last_access_ms :: u64

definition method_stats_new :: "ts_clock \<Rightarrow> method_stats \<times> ts_clock" where
  "method_stats_new c = (case get_monotonic_timestamp c of (now, c) \<Rightarrow>
     (\<lparr>call_count = 0, success_count = 0, failure_count = 0, latencies = hist_new,
       last_access_ms = now\<rparr>, c))"

definition update_last_access :: "method_stats \<Rightarrow> ts_clock \<Rightarrow> method_stats \<times> ts_clock" where
  "update_last_access s c = (case get_monotonic_timestamp c of (now, c) \<Rightarrow>
     (s\<lparr>last_access_ms := now\<rparr>, c))"

definition stats_increment_call :: "method_stats \<Rightarrow> ts_clock \<Rightarrow> method_stats \<times> ts_clock" where
  "stats_increment_call s c = update_last_access (s\<lparr>call_count := call_count s + 1\<rparr>) c"

definition stats_increment_success :: "method_stats \<Rightarrow> ts_clock \<Rightarrow> method_stats \<times> ts_clock" where
  "stats_increment_success s c = update_last_access (s\<lparr>success_count := success_count s + 1\<rparr>) c"

definition stats_increment_failure :: "method_stats \<Rightarrow> ts_clock \<Rightarrow> method_stats \<times> ts_clock" where
  "stats_increment_failure s c = update_last_access (s\<lparr>failure_count := failure_count s + 1\<rparr>) c"

definition record_latency :: "u64 \<Rightarrow> method_stats \<Rightarrow> ts_clock \<Rightarrow> method_stats \<times> ts_clock" where
  "record_latency latency_us s c =
     update_last_access (s\<lparr>latencies := hist_record latency_us (latencies s)\<rparr>) c"

definition method_snapshot :: "method_stats \<Rightarrow> method_metrics" where
  "method_snapshot s = (case calculate_percentiles (latencies s) of (avg, p50, p95, p99) \<Rightarrow>
     \<lparr>mm_call_count = call_count s, mm_success_count = success_count s,
       mm_failure_count = failure_count s, mm_avg_latency_us = avg, mm_p50_latency_us = p50,
       mm_p95_latency_us = p95, mm_p99_latency_us = p99\<rparr>)"

record node_stats =
  ns_request_count :: u64
  ns_last_request_ms :: u64

definition node_stats_new :: node_stats where
  "node_stats_new = \<lparr>ns_request_count = 0, ns_last_request_ms = 0\<rparr>"

definition record_request :: "node_stats \<Rightarrow> ts_clock \<Rightarrow> node_stats \<times> ts_clock" where
  "record_request s c = (let s = s\<lparr>ns_request_count := ns_request_count s + 1\<rparr> in
     case get_monotonic_timestamp c of (now, c) \<Rightarrow> (s\<lparr>ns_last_request_ms := now\<rparr>, c))"

definition node_snapshot :: "string \<Rightarrow> node_stats \<Rightarrow> node_metrics" where
  "node_snapshot node_addr s = \<lparr>nm_node_addr = node_addr, nm_request_count = ns_request_count s,
     nm_last_request_ms = ns_last_request_ms s\<rparr>"

section \<open>The registry\<close>

record registry =
  total_requests :: u64
  successful_requests :: u64
  failed_requests :: u64
  active_connections :: u64
  mr_methods :: "(string \<times> method_stats) list"
  mr_nodes :: "(string \<times> node_stats) list"
  mr_start_time :: instant
  mr_config :: metrics_config
  cleanup_counter :: u64

definition registry_with_config :: "instant \<Rightarrow> metrics_config \<Rightarrow> registry" where
  "registry_with_config now cfg = \<lparr>total_requests = 0, successful_requests = 0, failed_requests = 0,
     active_connections = 0, mr_methods = [], mr_nodes = [], mr_start_time = now, mr_config = cfg,
     cleanup_counter = 0\<rparr>"

definition registry_new :: "instant \<Rightarrow> registry" where
  "registry_new now = registry_with_config now default_metrics_config"

definition increment_total :: "registry \<Rightarrow> registry" where
  "increment_total r = r\<lparr>total_requests := total_requests r + 1\<rparr>"

definition increment_success :: "registry \<Rightarrow> registry" where
  "increment_success r = r\<lparr>successful_requests := successful_requests r + 1\<rparr>"

definition increment_failure :: "registry \<Rightarrow> registry" where
  "increment_failure r = r\<lparr>failed_requests := failed_requests r + 1\<rparr>"

definition increment_active_connections :: "registry \<Rightarrow> registry" where
  "increment_active_connections r = r\<lparr>active_connections := active_connections r + 1\<rparr>"

definition decrement_active_connections :: "registry \<Rightarrow> registry" where
  "decrement_active_connections r = r\<lparr>active_connections := active_connections r - 1\<rparr>"

definition saturating_sub :: "u64 \<Rightarrow> u64 \<Rightarrow> u64" where
  "saturating_sub a b = (if b \<le> a then a - b else 0)"

text \<open>
  The two halves of \<open>cleanup_stale_entries\<close> are the same code over the two maps: \<open>stamp\<close> reads
  the timestamp of an entry, \<open>ttl_ms\<close> and \<open>limit\<close> are the map's settings.
\<close>

definition retain_fresh :: "('v \<Rightarrow> u64) \<Rightarrow> u64 \<Rightarrow> u64 \<Rightarrow> (string \<times> 'v) list \<Rightarrow> (string \<times> 'v) list" where
  "retain_fresh stamp now ttl_ms m = filter (\<lambda>(_, stats). saturating_sub now (stamp stats) < ttl_ms) m"

definition evict_lru :: "('v \<Rightarrow> u64) \<Rightarrow> nat \<Rightarrow> (string \<times> 'v) list \<Rightarrow> (string \<times> 'v) list" where
  "evict_lru stamp limit m = (if length m > limit then
       let entries = sort_key snd (map (\<lambda>(name, stats). (name, stamp stats)) m);
           to_remove = length entries - limit
       in fold (\<lambda>(name, _) m. AList.delete name m) (take to_remove entries) m
     else m)"

definition cleanup_stale_entries :: "registry \<Rightarrow> ts_clock \<Rightarrow> registry \<times> ts_clock" where
  "cleanup_stale_entries r c = (case get_monotonic_timestamp c of (now, c) \<Rightarrow>
     let r = r\<lparr>mr_methods := evict_lru last_access_ms (max_methods (mr_config r))
           (retain_fresh last_access_ms now (method_ttl_secs (mr_config r) * 1000) (mr_methods r))\<rparr>;
         r = r\<lparr>mr_nodes := evict_lru ns_last_request_ms (max_nodes (mr_config r))
           (retain_fresh ns_last_request_ms now (node_ttl_secs (mr_config r) * 1000) (mr_nodes r))\<rparr>
     in (r, c))"

definition maybe_cleanup :: "registry \<Rightarrow> ts_clock \<Rightarrow> registry \<times> ts_clock" where
  "maybe_cleanup r c = (let count = cleanup_counter r; r = r\<lparr>cleanup_counter := count + 1\<rparr> in
     if count mod 1000 = 0 then cleanup_stale_entries r c else (r, c))"

definition record_method_call ::
  "string \<Rightarrow> u64 \<Rightarrow> bool \<Rightarrow> registry \<Rightarrow> ts_clock \<Rightarrow> registry \<times> ts_clock" where
  "record_method_call method latency_us success r c =
     (let r = increment_total r;
          r = (if success then increment_success r else increment_failure r);
          (r, c) = maybe_cleanup r c;
          (stats, c) = (case map_of (mr_methods r) method of
             Some s \<Rightarrow> (s, c) | None \<Rightarrow> method_stats_new c);
          (stats, c) = stats_increment_call stats c;
          (stats, c) = record_latency latency_us stats c;
          (stats, c) = (if success then stats_increment_success stats c
                        else stats_increment_failure stats c)
      in (r\<lparr>mr_methods := AList.update method stats (mr_methods r)\<rparr>, c))"

definition record_node_request :: "string \<Rightarrow> registry \<Rightarrow> ts_clock \<Rightarrow> registry \<times> ts_clock" where
  "record_node_request node_addr r c =
     (let (r, c) = maybe_cleanup r c;
          stats = (case map_of (mr_nodes r) node_addr of Some s \<Rightarrow> s | None \<Rightarrow> node_stats_new);
          (stats, c) = record_request stats c
      in (r\<lparr>mr_nodes := AList.update node_addr stats (mr_nodes r)\<rparr>, c))"

definition uptime_ms :: "instant \<Rightarrow> registry \<Rightarrow> u64" where
  "uptime_ms now r = of_nat (duration_since now (mr_start_time r) div 1000000)"

definition registry_snapshot :: "instant \<Rightarrow> bool \<Rightarrow> registry \<Rightarrow> metrics_snapshot" where
  "registry_snapshot now include_nodes r =
     \<lparr>ms_total_requests = total_requests r, ms_successful_requests = successful_requests r,
       ms_failed_requests = failed_requests r, ms_active_connections = active_connections r,
       ms_uptime_ms = uptime_ms now r,
       ms_methods = map (\<lambda>(name, stats). (name, method_snapshot stats)) (mr_methods r),
       ms_nodes = (if include_nodes then Some (map (\<lambda>(addr, stats). (addr, node_snapshot addr stats)) (mr_nodes r))
                   else None)\<rparr>"

section \<open>The collectors\<close>

text \<open>
  A node's and an orchestrator's collector hold a registry and differ in the server type they
  report and in the node table of the snapshot. \<open>version\<close> is the package version the build
  sets; \<open>snapshot_to_json\<close> is the derived serialisation of a snapshot.
\<close>

definition u64_json :: "u64 \<Rightarrow> json" where
  "u64_json n = JNumber (PosInt n)"

definition method_metrics_to_json :: "method_metrics \<Rightarrow> json" where
  "method_metrics_to_json m = JObject
     [(''call_count'', u64_json (mm_call_count m)), (''success_count'', u64_json (mm_success_count m)),
      (''failure_count'', u64_json (mm_failure_count m)), (''avg_latency_us'', u64_json (mm_avg_latency_us m)),
      (''p50_latency_us'', u64_json (mm_p50_latency_us m)), (''p95_latency_us'', u64_json (mm_p95_latency_us m)),
      (''p99_latency_us'', u64_json (mm_p99_latency_us m))]"

definition node_metrics_to_json :: "node_metrics \<Rightarrow> json" where
  "node_metrics_to_json n = JObject
     [(''node_addr'', JString (nm_node_addr n)), (''request_count'', u64_json (nm_request_count n)),
      (''last_request_ms'', u64_json (nm_last_request_ms n))]"

definition snapshot_to_json :: "metrics_snapshot \<Rightarrow> json" where
  "snapshot_to_json s = JObject
     [(''total_requests'', u64_json (ms_total_requests s)),
      (''successful_requests'', u64_json (ms_successful_requests s)),
      (''failed_requests'', u64_json (ms_failed_requests s)),
      (''active_connections'', u64_json (ms_active_connections s)),
      (''uptime_ms'', u64_json (ms_uptime_ms s)),
      (''methods'', JObject (map (\<lambda>(name, m). (name, method_metrics_to_json m)) (ms_methods s))),
      (''nodes'', (case ms_nodes s of None \<Rightarrow> JNull
         | Some ns \<Rightarrow> JObject (map (\<lambda>(addr, n). (addr, node_metrics_to_json n)) ns)))]"

definition server_base_to_json :: "server_base \<Rightarrow> json" where
  "server_base_to_json b = JObject
     [(''server_type'', JString (case sb_server_type b of ServerNode \<Rightarrow> ''node''
         | ServerOrchestrator \<Rightarrow> ''orchestrator'')),
      (''version'', JString (sb_version b)), (''uptime_ms'', u64_json (sb_uptime_ms b))]"

definition is_metrics_request :: "string \<Rightarrow> bool" where
  "is_metrics_request method = (method = ''_metrics'' \<or> method = ''_info'')"

text \<open>\<open>None\<close> is the panic of \<open>unreachable!\<close>.\<close>

definition handle_metrics_request ::
  "server_type \<Rightarrow> string \<Rightarrow> instant \<Rightarrow> string \<Rightarrow> u64 \<Rightarrow> registry \<Rightarrow> response option" where
  "handle_metrics_request ty version now method rid r =
     (if method = ''_metrics'' then
        Some (response_success rid (snapshot_to_json (registry_snapshot now (ty = ServerOrchestrator) r)))
      else if method = ''_info'' then
        Some (response_success rid (server_base_to_json
          \<lparr>sb_server_type = ty, sb_version = version, sb_uptime_ms = uptime_ms now r\<rparr>))
      else None)"

definition record_call ::
  "string \<Rightarrow> instant \<Rightarrow> instant \<Rightarrow> bool \<Rightarrow> registry \<Rightarrow> ts_clock \<Rightarrow> registry \<times> ts_clock" where
  "record_call method start now success r c =
     record_method_call method (of_nat (duration_since now start div 1000)) success r c"

section \<open>Eviction\<close>

lemma fold_delete:
  "fold (\<lambda>(name, _) m. AList.delete name m) es m = filter (\<lambda>x. fst x \<notin> fst ` set es) m"
proof (induction es arbitrary: m)
  case (Cons e es)
  have "AList.delete (fst e) m = filter (\<lambda>x. fst x \<noteq> fst e) m"
    by (induction m) auto
  then have "fold (\<lambda>(name, _) m. AList.delete name m) (e # es) m
      = filter (\<lambda>x. fst x \<notin> fst ` set es) (filter (\<lambda>x. fst x \<noteq> fst e) m)"
    by (cases e) (simp add: Cons.IH)
  also have "\<dots> = filter (\<lambda>x. fst x \<notin> fst ` set (e # es)) m" by (auto intro!: filter_cong)
  finally show ?case .
qed simp

text \<open>The names that eviction removes: the oldest ones, as many as exceed the limit.\<close>

definition victims :: "('v \<Rightarrow> u64) \<Rightarrow> nat \<Rightarrow> (string \<times> 'v) list \<Rightarrow> string list" where
  "victims stamp limit m = keys (take (length m - limit) (sort_key snd (map (\<lambda>(name, stats). (name, stamp stats)) m)))"

lemma evict_lru_filter:
  "evict_lru stamp limit m = filter (\<lambda>x. fst x \<notin> set (victims stamp limit m)) m"
  by (simp add: evict_lru_def victims_def fold_delete Let_def)

lemma keys_entries: "keys (map (\<lambda>(name, stats). (name, stamp stats)) m) = keys m"
  by (induction m) auto

lemma wf_evict [simp]: "wf_map m \<Longrightarrow> wf_map (evict_lru stamp limit m)"
  by (simp add: evict_lru_filter)

lemma wf_retain [simp]: "wf_map m \<Longrightarrow> wf_map (retain_fresh stamp now ttl m)"
  by (simp add: retain_fresh_def)

lemma victims_props:
  assumes "wf_map m"
  shows "distinct (victims stamp limit m)" "set (victims stamp limit m) \<subseteq> set (keys m)"
    and "length (victims stamp limit m) = length m - limit"
proof -
  let ?es = "sort_key snd (map (\<lambda>(name, stats). (name, stamp stats)) m)"
  have "mset (keys ?es) = image_mset fst (mset ?es)" by (rule mset_map)
  also have "mset ?es = mset (map (\<lambda>(name, stats). (name, stamp stats)) m)" by (rule mset_sort)
  also have "image_mset fst \<dots> = mset (keys m)" by (simp only: mset_map [symmetric] keys_entries)
  finally have eq: "mset (keys ?es) = mset (keys m)" .
  have k: "distinct (keys ?es)" "set (keys ?es) = set (keys m)"
    using mset_eq_imp_distinct_iff [OF eq] mset_eq_setD [OF eq] assms by blast+
  have t: "victims stamp limit m = take (length m - limit) (keys ?es)" by (simp add: victims_def take_map)
  show "distinct (victims stamp limit m)" unfolding t using k(1) by (rule distinct_take)
  show "set (victims stamp limit m) \<subseteq> set (keys m)" unfolding t k(2) [symmetric] by (rule set_take_subset)
  show "length (victims stamp limit m) = length m - limit" by (simp add: victims_def)
qed

lemma length_evict:
  assumes "wf_map m"
  shows "length (evict_lru stamp limit m) = min limit (length m)"
proof -
  note v = victims_props [OF assms, of stamp limit]
  have "length (evict_lru stamp limit m) = card (set (keys (evict_lru stamp limit m)))"
    using assms by (metis distinct_card length_map wf_evict)
  also have "set (keys (evict_lru stamp limit m)) = set (keys m) - set (victims stamp limit m)"
    by (auto simp: evict_lru_filter image_iff)
  also have "card \<dots> = card (set (keys m)) - card (set (victims stamp limit m))"
    using v(2) by (intro card_Diff_subset) simp_all
  also have "\<dots> = length m - (length m - limit)"
    using distinct_card [OF assms] distinct_card [OF v(1)] v(3) by simp
  finally show ?thesis by simp
qed

lemma victims_oldest:
  assumes "wf_map m" "(a, s) \<in> set m" "(b, t) \<in> set m"
    and "a \<in> set (victims stamp limit m)" "b \<notin> set (victims stamp limit m)"
  shows "stamp s \<le> stamp t"
proof -
  let ?ms = "map (\<lambda>(name, stats). (name, stamp stats)) m"
  let ?es = "sort_key snd ?ms" and ?n = "length m - limit"
  have wf: "wf_map ?ms" using assms(1) by (simp only: keys_entries)
  have in_es: "(a, stamp s) \<in> set ?es" "(b, stamp t) \<in> set ?es" using assms(2,3) by force+
  from assms(4) obtain x where x: "(a, x) \<in> set (take ?n ?es)" by (auto simp: victims_def)
  then have "(a, x) \<in> set ?ms" using set_take_subset [of ?n ?es] by auto
  then have "x = stamp s" using wf in_es(1) by (metis eq_key_imp_eq_value set_sort)
  then have a: "(a, stamp s) \<in> set (take ?n ?es)" using x by simp
  have "(b, stamp t) \<notin> set (take ?n ?es)" using assms(5) by (force simp: victims_def)
  then have b: "(b, stamp t) \<in> set (drop ?n ?es)"
    using in_es(2) by (metis Un_iff append_take_drop_id set_append)
  have "sorted (map snd (take ?n ?es @ drop ?n ?es))" by (simp only: append_take_drop_id sorted_sort_key)
  then have "\<forall>x \<in> set (take ?n ?es). \<forall>y \<in> set (drop ?n ?es). snd x \<le> snd y"
    by (simp only: map_append sorted_append set_map) blast
  then show ?thesis using a b by fastforce
qed

section \<open>Histories of the registry\<close>

datatype reg_op = MethodCall string u64 bool | NodeRequest string

fun reg_exec :: "reg_op \<Rightarrow> registry \<times> ts_clock \<Rightarrow> registry \<times> ts_clock" where
  "reg_exec (MethodCall m l ok) (r, c) = record_method_call m l ok r c"
| "reg_exec (NodeRequest a) (r, c) = record_node_request a r c"

definition reg_run :: "reg_op list \<Rightarrow> registry \<times> ts_clock \<Rightarrow> registry \<times> ts_clock" where
  "reg_run ops s = fold reg_exec ops s"

lemma reg_run_simps [simp]: "reg_run [] s = s" "reg_run (op # ops) s = reg_run ops (reg_exec op s)"
  by (simp_all add: reg_run_def)

text \<open>The steps, with the statistics written out.\<close>

abbreviation next_ts :: "ts_clock \<Rightarrow> u64" where
  "next_ts c \<equiv> fst (get_monotonic_timestamp c)"

abbreviation tick :: "ts_clock \<Rightarrow> ts_clock" where
  "tick c \<equiv> snd (get_monotonic_timestamp c)"

lemma update_last_access_eq: "update_last_access s c = (s\<lparr>last_access_ms := next_ts c\<rparr>, tick c)"
  by (simp add: update_last_access_def split_beta)

lemmas stats_steps = update_last_access_eq stats_increment_call_def stats_increment_success_def
  stats_increment_failure_def record_latency_def

definition counted :: "u64 \<Rightarrow> bool \<Rightarrow> u64 \<Rightarrow> method_stats \<Rightarrow> method_stats" where
  "counted l ok ts s = \<lparr>call_count = call_count s + 1,
     success_count = (if ok then success_count s + 1 else success_count s),
     failure_count = (if ok then failure_count s else failure_count s + 1),
     latencies = hist_record l (latencies s), last_access_ms = ts\<rparr>"

definition empty_stats :: method_stats where
  "empty_stats = \<lparr>call_count = 0, success_count = 0, failure_count = 0, latencies = hist_new, last_access_ms = 0\<rparr>"

definition method_stats_of :: "string \<Rightarrow> registry \<Rightarrow> method_stats" where
  "method_stats_of m r = (case map_of (mr_methods r) m of Some s \<Rightarrow> s | None \<Rightarrow> empty_stats)"

lemma counted_new: "counted l ok ts (fst (method_stats_new c)) = counted l ok ts empty_stats"
  by (simp add: counted_def method_stats_new_def empty_stats_def split_beta)

lemma record_method_call_eq:
  obtains ts c' where "record_method_call m l ok r c =
    (let r1 = fst (maybe_cleanup (if ok then increment_success (increment_total r)
                                  else increment_failure (increment_total r)) c)
     in (r1\<lparr>mr_methods := AList.update m (counted l ok ts (method_stats_of m r1)) (mr_methods r1)\<rparr>, c'))"
proof -
  obtain r1 c1 where m: "maybe_cleanup (if ok then increment_success (increment_total r)
      else increment_failure (increment_total r)) c = (r1, c1)" by fastforce
  obtain s2 c2 where s: "(case map_of (mr_methods r1) m of Some s \<Rightarrow> (s, c1) | None \<Rightarrow> method_stats_new c1) = (s2, c2)"
    by fastforce
  have "counted l ok ts s2 = counted l ok ts (method_stats_of m r1)" for ts
    using s counted_new [of l ok ts c1] by (auto simp: method_stats_of_def split: option.splits)
  moreover have "record_method_call m l ok r c = (r1\<lparr>mr_methods := AList.update m
      (counted l ok (next_ts (tick (tick c2))) s2) (mr_methods r1)\<rparr>, tick (tick (tick c2)))"
    unfolding record_method_call_def Let_def using m s
    by (cases ok; cases s2) (simp_all add: stats_steps counted_def)
  ultimately show thesis using that by (simp add: m Let_def)
qed

section \<open>Counts\<close>

definition stats_ok :: "method_stats \<Rightarrow> bool" where
  "stats_ok s = (call_count s = success_count s + failure_count s
     \<and> sample_count (latencies s) = call_count s \<and> sum_list (bins (latencies s)) = call_count s
     \<and> length (bins (latencies s)) = NUM_HISTOGRAM_BINS)"

lemma sum_list_bump: "i < length xs \<Longrightarrow> sum_list (xs[i := xs ! i + 1]) = sum_list xs + (1 :: u64)"
proof (induction xs arbitrary: i)
  case (Cons x xs)
  then show ?case by (cases i) (simp_all add: ac_simps)
qed simp

lemma stats_ok_counted: "stats_ok s \<Longrightarrow> stats_ok (counted l ok ts s)"
  using bin_less [of l]
  by (auto simp: stats_ok_def counted_def hist_record_def Let_def sum_list_bump)

lemma stats_ok_empty: "stats_ok empty_stats"
  by (simp add: stats_ok_def empty_stats_def hist_new_def sum_list_replicate)

definition methods_ok :: "registry \<Rightarrow> bool" where
  "methods_ok r = (wf_map (mr_methods r) \<and> wf_map (mr_nodes r) \<and> list_all (\<lambda>(m, s). stats_ok s) (mr_methods r))"

lemma cleanup_fields:
  "total_requests (fst (maybe_cleanup r c)) = total_requests r"
  "successful_requests (fst (maybe_cleanup r c)) = successful_requests r"
  "failed_requests (fst (maybe_cleanup r c)) = failed_requests r"
  "mr_config (fst (maybe_cleanup r c)) = mr_config r"
  "cleanup_counter (fst (maybe_cleanup r c)) = cleanup_counter r + 1"
  by (simp_all add: maybe_cleanup_def cleanup_stale_entries_def Let_def split_beta)

lemma cleanup_maps:
  assumes "methods_ok r"
  shows "methods_ok (fst (maybe_cleanup r c))"
proof -
  have "list_all (\<lambda>(m, s). stats_ok s) (evict_lru f n (retain_fresh f now ttl (mr_methods r)))" for f n now ttl
    using assms by (auto simp: methods_ok_def list_all_iff evict_lru_filter retain_fresh_def)
  then show ?thesis using assms
    by (simp add: methods_ok_def maybe_cleanup_def cleanup_stale_entries_def Let_def split_beta)
qed

lemma methods_ok_incr [simp]:
  "methods_ok (increment_total r) = methods_ok r" "methods_ok (increment_success r) = methods_ok r"
  "methods_ok (increment_failure r) = methods_ok r"
  by (simp_all add: methods_ok_def increment_total_def increment_success_def increment_failure_def)

lemma list_all_update:
  assumes "wf_map m" "list_all P m" "P (k, v)"
  shows "list_all P (AList.update k v m)"
proof -
  have "P (k', v')" if "(k', v') \<in> set (AList.update k v m)" for k' v'
  proof -
    have "map_of (AList.update k v m) k' = Some v'" using assms(1) that by (simp only: wf_map_update map_of_is_SomeI)
    then show ?thesis using assms by (auto simp: list_all_iff split: if_splits dest: map_of_SomeD)
  qed
  then show ?thesis by (auto simp: list_all_iff)
qed

lemma methods_ok_stats_of: "methods_ok r \<Longrightarrow> stats_ok (method_stats_of m r)"
  by (auto simp: methods_ok_def method_stats_of_def stats_ok_empty list_all_iff dest!: map_of_SomeD
      split: option.splits)

lemma node_request_fields:
  "total_requests (fst (record_node_request a r c)) = total_requests r"
  "successful_requests (fst (record_node_request a r c)) = successful_requests r"
  "failed_requests (fst (record_node_request a r c)) = failed_requests r"
  "mr_methods (fst (record_node_request a r c)) = mr_methods (fst (maybe_cleanup r c))"
  by (simp_all add: record_node_request_def Let_def split_beta cleanup_fields)

lemma methods_ok_put:
  assumes "methods_ok r" "stats_ok s"
  shows "methods_ok (r\<lparr>mr_methods := AList.update m s (mr_methods r)\<rparr>)"
  using assms by (simp add: methods_ok_def list_all_update)

lemma methods_ok_exec:
  assumes "methods_ok (fst s)"
  shows "methods_ok (fst (reg_exec op s))"
proof (cases op)
  case (MethodCall m l ok)
  obtain r c where s: "s = (r, c)" by (cases s)
  let ?r1 = "fst (maybe_cleanup (if ok then increment_success (increment_total r)
      else increment_failure (increment_total r)) c)"
  obtain ts c' where eq: "record_method_call m l ok r c = (let r1 = ?r1
     in (r1\<lparr>mr_methods := AList.update m (counted l ok ts (method_stats_of m r1)) (mr_methods r1)\<rparr>, c'))"
    by (rule record_method_call_eq)
  have ok: "methods_ok ?r1" using assms s by (intro cleanup_maps) simp
  then show ?thesis unfolding MethodCall s reg_exec.simps eq Let_def fst_conv
    by (intro methods_ok_put stats_ok_counted methods_ok_stats_of)
next
  case (NodeRequest a)
  obtain r c where s: "s = (r, c)" by (cases s)
  have "methods_ok (fst (maybe_cleanup r c))" using assms s by (simp add: cleanup_maps)
  then show ?thesis unfolding NodeRequest s reg_exec.simps record_node_request_def Let_def split_beta
    by (simp add: methods_ok_def)
qed

fun calls_where :: "(bool \<Rightarrow> bool) \<Rightarrow> reg_op list \<Rightarrow> nat" where
  "calls_where P [] = 0"
| "calls_where P (MethodCall m l ok # ops) = (if P ok then 1 else 0) + calls_where P ops"
| "calls_where P (NodeRequest a # ops) = calls_where P ops"

lemma method_call_counts:
  "total_requests (fst (record_method_call m l ok r c)) = total_requests r + 1"
  "successful_requests (fst (record_method_call m l ok r c)) = successful_requests r + (if ok then 1 else 0)"
  "failed_requests (fst (record_method_call m l ok r c)) = failed_requests r + (if ok then 0 else 1)"
  by (rule record_method_call_eq [of m l ok r c];
      simp add: Let_def cleanup_fields increment_total_def increment_success_def increment_failure_def)+

lemma run_counts:
  "total_requests (fst (reg_run ops s)) = total_requests (fst s) + of_nat (calls_where (\<lambda>_. True) ops)"
  "successful_requests (fst (reg_run ops s)) = successful_requests (fst s) + of_nat (calls_where (\<lambda>ok. ok) ops)"
  "failed_requests (fst (reg_run ops s)) = failed_requests (fst s) + of_nat (calls_where Not ops)"
proof -
  show "total_requests (fst (reg_run ops s)) = total_requests (fst s) + of_nat (calls_where (\<lambda>_. True) ops)"
  proof (induction ops arbitrary: s)
    case (Cons op ops)
    show ?case
      by (cases op; cases s) (simp_all add: Cons.IH method_call_counts node_request_fields add.assoc)
  qed simp
  show "successful_requests (fst (reg_run ops s)) = successful_requests (fst s) + of_nat (calls_where (\<lambda>ok. ok) ops)"
  proof (induction ops arbitrary: s)
    case (Cons op ops)
    show ?case
      by (cases op; cases s) (simp_all add: Cons.IH method_call_counts node_request_fields add.assoc)
  qed simp
  show "failed_requests (fst (reg_run ops s)) = failed_requests (fst s) + of_nat (calls_where Not ops)"
  proof (induction ops arbitrary: s)
    case (Cons op ops)
    show ?case
      by (cases op; cases s) (simp_all add: Cons.IH method_call_counts node_request_fields add.assoc)
  qed simp
qed

section \<open>Size\<close>

text \<open>How many entries can have been added since the last cleanup.\<close>

definition since_cleanup :: "u64 \<Rightarrow> nat" where
  "since_cleanup n = (if unat n mod 1000 = 0 then 1000 else unat n mod 1000)"

definition size_ok :: "registry \<Rightarrow> bool" where
  "size_ok r = (length (mr_methods r) \<le> max_methods (mr_config r) + since_cleanup (cleanup_counter r)
     \<and> length (mr_nodes r) \<le> max_nodes (mr_config r) + since_cleanup (cleanup_counter r))"

lemma since_cleanup_step: "unat n mod 1000 \<noteq> 0 \<Longrightarrow> since_cleanup n + 1 \<le> since_cleanup (n + 1)"
proof -
  assume n: "unat n mod 1000 \<noteq> 0"
  show ?thesis
  proof (cases "unat n + 1 < 2 ^ 64")
    case True
    then have "unat (n + 1) = unat n + 1" using unat_add_lem [of n 1] by simp
    then show ?thesis using n by (auto simp: since_cleanup_def mod_Suc)
  next
    case False
    then have "unat n = 2 ^ 64 - 1" using unsigned_less [of n, where ?'a = nat] by simp
    moreover from this have "n = - 1"
      by (simp add: word_unat_eq_iff unsigned_minus_1_eq_mask mask_eq_exp_minus_1)
    ultimately show ?thesis by (simp add: since_cleanup_def)
  qed
qed

lemma since_cleanup_pos: "1 \<le> since_cleanup n"
  by (auto simp: since_cleanup_def)

lemma size_after_cleanup:
  assumes "methods_ok r" "size_ok r"
  shows "length (mr_methods (fst (maybe_cleanup r c))) + 1 \<le> max_methods (mr_config r) + since_cleanup (cleanup_counter r + 1)
    \<and> length (mr_nodes (fst (maybe_cleanup r c))) + 1 \<le> max_nodes (mr_config r) + since_cleanup (cleanup_counter r + 1)"
proof (cases "cleanup_counter r mod 1000 = 0")
  case True
  have "length (mr_methods (fst (maybe_cleanup r c))) \<le> max_methods (mr_config r)"
    "length (mr_nodes (fst (maybe_cleanup r c))) \<le> max_nodes (mr_config r)"
    using True assms(1)
    by (simp_all add: maybe_cleanup_def cleanup_stale_entries_def Let_def split_beta length_evict methods_ok_def)
  then show ?thesis using since_cleanup_pos [of "cleanup_counter r + 1"] by linarith
next
  case False
  then have "unat (cleanup_counter r mod 1000) \<noteq> 0" by (simp add: unat_eq_0)
  then have "unat (cleanup_counter r) mod 1000 \<noteq> 0" by (simp add: unat_mod)
  from since_cleanup_step [OF this] show ?thesis
    using False assms(2) by (simp add: maybe_cleanup_def Let_def size_ok_def)
qed

lemma size_ok_exec:
  assumes "methods_ok (fst s)" "size_ok (fst s)"
  shows "size_ok (fst (reg_exec op s))"
proof (cases op)
  case (MethodCall m l ok)
  obtain r c where s: "s = (r, c)" by (cases s)
  let ?r0 = "if ok then increment_success (increment_total r) else increment_failure (increment_total r)"
  obtain ts c' where eq: "record_method_call m l ok r c = (let r1 = fst (maybe_cleanup ?r0 c)
     in (r1\<lparr>mr_methods := AList.update m (counted l ok ts (method_stats_of m r1)) (mr_methods r1)\<rparr>, c'))"
    by (rule record_method_call_eq)
  have "methods_ok ?r0" "size_ok ?r0" using assms s
    by (simp_all add: methods_ok_def size_ok_def increment_total_def increment_success_def increment_failure_def)
  from size_after_cleanup [OF this, of c] show ?thesis
    unfolding MethodCall s reg_exec.simps eq Let_def fst_conv
    by (auto simp: size_ok_def cleanup_fields length_update)
next
  case (NodeRequest a)
  obtain r c where s: "s = (r, c)" by (cases s)
  from size_after_cleanup [of r c] show ?thesis using assms
    unfolding NodeRequest s reg_exec.simps record_node_request_def Let_def split_beta
    by (auto simp: size_ok_def cleanup_fields length_update)
qed

lemma run_ok:
  "methods_ok (fst s) \<Longrightarrow> size_ok (fst s) \<Longrightarrow> methods_ok (fst (reg_run ops s)) \<and> size_ok (fst (reg_run ops s))"
  by (induction ops arbitrary: s) (simp_all add: methods_ok_exec size_ok_exec)

lemma new_ok [simp]: "methods_ok (registry_with_config t cfg)" "size_ok (registry_with_config t cfg)"
  by (simp_all add: methods_ok_def size_ok_def registry_with_config_def)

lemma config_run: "mr_config (fst (reg_run ops s)) = mr_config (fst s)"
proof (induction ops arbitrary: s)
  case (Cons op ops)
  have "mr_config (fst (record_method_call m l ok r c)) = mr_config r" for m l ok r c
    by (rule record_method_call_eq [of m l ok r c])
      (simp add: Let_def cleanup_fields increment_total_def increment_success_def increment_failure_def)
  moreover have "mr_config (fst (record_node_request a r c)) = mr_config r" for a r c
    by (simp add: record_node_request_def Let_def split_beta cleanup_fields)
  ultimately show ?case using Cons.IH by (cases op; cases s) simp_all
qed simp

section \<open>Timestamps increase\<close>

primrec timestamps :: "nat \<Rightarrow> ts_clock \<Rightarrow> u64 list" where
  "timestamps 0 c = []"
| "timestamps (Suc n) c = next_ts c # timestamps n (tick c)"

text \<open>The clock has room for \<open>n\<close> more timestamps.\<close>

definition clock_room :: "nat \<Rightarrow> ts_clock \<Rightarrow> bool" where
  "clock_room n c = ((\<forall>k. wall c k < 2 ^ 62 * 1000000) \<and> unat (TIMESTAMP_FALLBACK c) + n \<le> 2 ^ 63
     \<and> unat (LAST_TIMESTAMP c) + n \<le> 2 ^ 63 + 2 ^ 63 - 1)"

lemma unat_Suc_word: "unat (n :: u64) + 1 < 2 ^ 64 \<Longrightarrow> unat (n + 1) = unat n + 1"
  using unat_add_lem [of n 1] by simp

lemma clock_step:
  assumes "clock_room (Suc n) c"
  shows "LAST_TIMESTAMP c < next_ts c" "LAST_TIMESTAMP (tick c) = next_ts c" "clock_room n (tick c)"
proof -
  have room: "wall c (reads c) < 2 ^ 62 * 1000000" "unat (TIMESTAMP_FALLBACK c) + Suc n \<le> 2 ^ 63"
    "unat (LAST_TIMESTAMP c) + Suc n \<le> 2 ^ 63 + 2 ^ 63 - 1" using assms by (simp_all add: clock_room_def)
  obtain sys c1 where r: "read_millis c = (sys, c1)" by fastforce
  have c1: "LAST_TIMESTAMP c1 = LAST_TIMESTAMP c" "wall c1 = wall c"
    "unat (TIMESTAMP_FALLBACK c1) + n \<le> 2 ^ 63" "unat sys + n \<le> 2 ^ 63 + 2 ^ 63 - 1"
  proof -
    show "LAST_TIMESTAMP c1 = LAST_TIMESTAMP c" "wall c1 = wall c"
      using r by (auto simp: read_millis_def Let_def split: if_splits)
    show "unat (TIMESTAMP_FALLBACK c1) + n \<le> 2 ^ 63"
      using r room(2) unat_Suc_word [of "TIMESTAMP_FALLBACK c"]
      by (auto simp: read_millis_def Let_def split: if_splits)
    show "unat sys + n \<le> 2 ^ 63 + 2 ^ 63 - 1"
    proof (cases "0 \<le> wall c (reads c)")
      case True
      define t where "t = wall c (reads c) div 1000000"
      have t: "0 \<le> t" "t < 2 ^ 62" using True room(1) by (simp_all add: t_def)
      have "sys = of_nat (nat t)" using r True t(1) by (auto simp: read_millis_def Let_def t_def)
      moreover have "nat t < 2 ^ 64" using t by simp
      ultimately have "unat sys = nat t" by (simp only: unat_of_nat_small)
      then show ?thesis using t room(2) by simp
    next
      case False
      then show ?thesis using r room(2) by (auto simp: read_millis_def Let_def)
    qed
  qed
  have last: "unat (LAST_TIMESTAMP c + 1) = unat (LAST_TIMESTAMP c) + 1"
    using room(3) by (intro unat_Suc_word) simp
  have eq: "next_ts c = max sys (LAST_TIMESTAMP c + 1)"
    "tick c = c1\<lparr>LAST_TIMESTAMP := max sys (LAST_TIMESTAMP c + 1)\<rparr>"
    using r c1(1) by (simp_all add: get_monotonic_timestamp_def Let_def)
  show "LAST_TIMESTAMP c < next_ts c"
    using last unfolding eq by (auto simp: max_def word_less_nat_alt word_le_nat_alt)
  show "LAST_TIMESTAMP (tick c) = next_ts c" by (simp add: eq)
  have "unat (max sys (LAST_TIMESTAMP c + 1)) + n \<le> 2 ^ 63 + 2 ^ 63 - 1"
    using c1(4) last room(3) by (simp add: max_def)
  then show "clock_room n (tick c)" using c1(2,3) assms unfolding eq by (simp add: clock_room_def)
qed

lemma timestamps_sorted:
  "clock_room n c \<Longrightarrow> sorted_wrt (<) (LAST_TIMESTAMP c # timestamps n c)"
proof (induction n arbitrary: c)
  case (Suc n)
  note step = clock_step [OF Suc.prems]
  have "sorted_wrt (<) (next_ts c # timestamps n (tick c))" using Suc.IH [OF step(3)] by (simp add: step(2))
  then show ?case using step(1) by (fastforce simp: less_trans)
qed simp

section \<open>Properties\<close>

text \<open>
  Timestamps of one process strictly increase, whatever the system clock shows: it may stand
  still, jump back or lie before the epoch (readings below \<open>2 ^ 62\<close> ms, at most \<open>2 ^ 62\<close> calls).
\<close>

theorem timestamps_increase:
  assumes "\<forall>k. w k < 2 ^ 62 * 1000000" "n \<le> 2 ^ 62"
  shows "sorted_wrt (<) (timestamps n (clock_start w))"
proof -
  have "clock_room n (clock_start w)" using assms by (simp add: clock_room_def clock_start_def)
  from timestamps_sorted [OF this] show ?thesis by simp
qed

theorem timestamps_increase_witness:
  "sorted_wrt (<) (timestamps 4 (clock_start (\<lambda>k. if k = 1 then - 7 else 5000000)))"
  by (rule timestamps_increase) simp_all

text \<open>
  Accounting: after any history of calls and node requests the global counters are the numbers
  of calls, of successes and of failures (modulo \<open>2 ^ 64\<close>), and for every method kept the call
  count is successes plus failures, the number of samples and the sum of the histogram's bins.
\<close>

theorem registry_accounting:
  "total_requests (fst (reg_run ops (registry_with_config t cfg, c))) = of_nat (calls_where (\<lambda>_. True) ops)
   \<and> successful_requests (fst (reg_run ops (registry_with_config t cfg, c))) = of_nat (calls_where (\<lambda>ok. ok) ops)
   \<and> failed_requests (fst (reg_run ops (registry_with_config t cfg, c))) = of_nat (calls_where Not ops)
   \<and> list_all (\<lambda>(m, s). stats_ok s) (mr_methods (fst (reg_run ops (registry_with_config t cfg, c))))"
proof -
  have "methods_ok (fst (reg_run ops (registry_with_config t cfg, c)))"
    by (rule run_ok [THEN conjunct1]) simp_all
  then have "list_all (\<lambda>(m, s). stats_ok s) (mr_methods (fst (reg_run ops (registry_with_config t cfg, c))))"
    by (simp add: methods_ok_def)
  then show ?thesis unfolding run_counts by (simp add: registry_with_config_def)
qed

text \<open>
  Memory is bounded: in every reachable state the tables hold at most a thousand entries more
  than the configured maximum, also when the cleanup counter wraps.
\<close>

theorem registry_bounded:
  "length (mr_methods (fst (reg_run ops (registry_with_config t cfg, c)))) \<le> max_methods cfg + 1000
   \<and> length (mr_nodes (fst (reg_run ops (registry_with_config t cfg, c)))) \<le> max_nodes cfg + 1000"
proof -
  let ?r = "fst (reg_run ops (registry_with_config t cfg, c))"
  have "size_ok ?r" by (rule run_ok [THEN conjunct2]) simp_all
  moreover have "mr_config ?r = cfg" using config_run by (simp add: registry_with_config_def)
  moreover have "since_cleanup n \<le> 1000" for n by (simp add: since_cleanup_def less_imp_le)
  ultimately show ?thesis by (simp add: size_ok_def) (meson add_left_mono order_trans)
qed

text \<open>
  Eviction is least recently used: it keeps exactly as many entries as the limit allows, and
  every entry it keeps was used no earlier than every entry it removes.
\<close>

theorem eviction_is_lru:
  assumes "wf_map m"
  shows "length (evict_lru stamp limit m) = min limit (length m)
     \<and> (\<forall>x \<in> set m. \<forall>y \<in> set (evict_lru stamp limit m).
          x \<notin> set (evict_lru stamp limit m) \<longrightarrow> stamp (snd x) \<le> stamp (snd y))"
proof (intro conjI ballI impI)
  fix x y assume *: "x \<in> set m" "y \<in> set (evict_lru stamp limit m)" "x \<notin> set (evict_lru stamp limit m)"
  then have "fst x \<in> set (victims stamp limit m)" "y \<in> set m" "fst y \<notin> set (victims stamp limit m)"
    by (auto simp: evict_lru_filter)
  then show "stamp (snd x) \<le> stamp (snd y)"
    using victims_oldest [OF assms, of "fst x" "snd x" "fst y" "snd y" stamp limit] *(1) by simp
qed (simp add: length_evict assms)

theorem eviction_is_lru_witness:
  "length (evict_lru id 2 [(''a'', 5), (''b'', 3), (''c'', 9)]) = min 2 3"
  using eviction_is_lru [of "[(''a'', 5 :: u64), (''b'', 3), (''c'', 9)]" id 2] by simp

end
