(* ===== verification/Orchestrator.thy ===== *)
theory Orchestrator
  imports HealthChecker Registry
begin

text \<open>
  The orchestrator (\<open>madrpc-orchestrator/src/orchestrator.rs\<close>): the pool, the metrics and the
  loop that forwards a request to a node and tries another one when the node reports that it is
  unavailable. The pool and the metrics are shared with other tasks, which act whenever the
  loop does not hold their locks: what they do while a request is in flight, or the loop sleeps,
  is a list of operations for each attempt.
\<close>

section \<open>State and construction\<close>

record orch_retry_config =
  max_retries :: nat
  initial_backoff_ms :: u64
  max_backoff_ms :: u64
  or_multiplier :: f64

definition default_orch_retry :: orch_retry_config where
  "default_orch_retry = \<lparr>max_retries = 3, initial_backoff_ms = 50, max_backoff_ms = 5000,
     or_multiplier = Fin 2\<rparr>"

text \<open>\<open>orch_clock\<close> is the process-wide source of timestamps the metrics read.\<close>

record orchestrator =
  orch_lb :: load_balancer
  orch_metrics :: registry
  orch_retry :: orch_retry_config
  orch_clock :: ts_clock

text \<open>
  \<open>Orchestrator::with_retry_config\<close>, at time \<open>t\<close>; it also spawns the health checker, which is
  another task of the model.
\<close>

definition orch_with_retry_config ::
  "instant \<Rightarrow> ts_clock \<Rightarrow> string list \<Rightarrow> health_check_config \<Rightarrow> orch_retry_config \<Rightarrow> orchestrator result" where
  "orch_with_retry_config t c addrs hc rc = Inr \<lparr>orch_lb = lb_new addrs, orch_metrics = registry_new t,
     orch_retry = rc, orch_clock = c\<rparr>"

definition orch_with_config :: "instant \<Rightarrow> ts_clock \<Rightarrow> string list \<Rightarrow> health_check_config \<Rightarrow> orchestrator result" where
  "orch_with_config t c addrs hc = orch_with_retry_config t c addrs hc default_orch_retry"

definition orch_new :: "instant \<Rightarrow> ts_clock \<Rightarrow> string list \<Rightarrow> orchestrator result" where
  "orch_new t c addrs = orch_with_retry_config t c addrs default_health_config default_orch_retry"

definition on_metrics :: "(registry \<Rightarrow> ts_clock \<Rightarrow> registry \<times> ts_clock) \<Rightarrow> orchestrator \<Rightarrow> orchestrator" where
  "on_metrics f o' = o'\<lparr>orch_metrics := fst (f (orch_metrics o') (orch_clock o')),
     orch_clock := snd (f (orch_metrics o') (orch_clock o'))\<rparr>"

lemma on_metrics_simps [simp]:
  "orch_lb (on_metrics f o') = orch_lb o'"
  "orch_retry (on_metrics f o') = orch_retry o'"
  "orch_metrics (on_metrics f o') = fst (f (orch_metrics o') (orch_clock o'))"
  "orch_clock (on_metrics f o') = snd (f (orch_metrics o') (orch_clock o'))"
  by (simp_all add: on_metrics_def)

section \<open>Sending to a node\<close>

fun is_retryable_static :: "madrpc_error \<Rightarrow> bool" where
  "is_retryable_static AllNodesFailed = True"
| "is_retryable_static (NodeUnavailable m) = True"
| "is_retryable_static e = False"

text \<open>
  What a forwarding meets: for each attempt the clock reading of the selection, the random
  values and the network's answers for the client that sends to the node at an address, the
  request counter, and what other tasks do meanwhile; and the clock at the start and at the end.
\<close>

record forward_env =
  fe_now :: "nat \<Rightarrow> system_time"
  fe_rand :: "nat \<Rightarrow> nat \<Rightarrow> bool \<times> u64"
  fe_net :: "nat \<Rightarrow> string \<Rightarrow> nat \<Rightarrow> http_outcome"
  fe_counter :: "nat \<Rightarrow> u64"
  fe_meanwhile :: "nat \<Rightarrow> lb_op list \<times> reg_op list"
  fe_start :: instant
  fe_end :: instant

definition send_http_request :: "http_lib \<Rightarrow> forward_env \<Rightarrow> nat \<Rightarrow> string \<Rightarrow> json \<Rightarrow> string \<Rightarrow> json result" where
  "send_http_request lib env i meth params a = (case client_new (normalize_url a) of
     Inl e \<Rightarrow> Inl (Transport (''Failed to create RPC client: '' @ error_to_string e))
   | Inr cl \<Rightarrow> fst (call lib (fe_rand env i) (fe_net env i a) cl meth params (fe_counter env i)))"

text \<open>Other tasks, while attempt \<open>i\<close> is in flight and while the loop sleeps after it.\<close>

definition meanwhile :: "forward_env \<Rightarrow> nat \<Rightarrow> orchestrator \<Rightarrow> orchestrator" where
  "meanwhile env i o' = on_metrics (\<lambda>r c. reg_run (snd (fe_meanwhile env i)) (r, c))
     (o'\<lparr>orch_lb := lb_run (fst (fe_meanwhile env i)) (orch_lb o')\<rparr>)"

section \<open>Forwarding\<close>

datatype forward_event = SentTo string | Backoff u64

definition no_node_error :: "nat \<Rightarrow> nat \<Rightarrow> madrpc_error" where
  "no_node_error retries attempt = (if attempt < retries
     then NodeUnavailable (''No available nodes (attempt '' @ dec (attempt + 1) @ ''/''
       @ dec ((retries + 1) mod 2 ^ 64) @ '')'')
     else AllNodesFailed)"

definition next_backoff :: "orch_retry_config \<Rightarrow> u64 \<Rightarrow> u64" where
  "next_backoff cfg backoff_ms =
     min (f_to_u64 (f_mul (f_of_nat (unat backoff_ms)) (or_multiplier cfg))) (max_backoff_ms cfg)"

text \<open>
  The loop over \<open>0..=max_retries\<close>: \<open>left\<close> turns remain. \<open>None\<close> is the panic of \<open>unreachable!\<close>
  after the loop.
\<close>

fun forward_loop :: "http_lib \<Rightarrow> forward_env \<Rightarrow> string \<Rightarrow> json \<Rightarrow> nat \<Rightarrow> nat \<Rightarrow> u64 \<Rightarrow> orchestrator
    \<Rightarrow> (json result \<times> forward_event list \<times> orchestrator) option" where
  "forward_loop lib env meth params 0 attempt backoff_ms o' = None"
| "forward_loop lib env meth params (Suc left) attempt backoff_ms o' =
     (let retries = max_retries (orch_retry o');
          (node, lb) = next_node (fe_now env attempt) (orch_lb o');
          o' = o'\<lparr>orch_lb := lb\<rparr>
      in case node of
        None \<Rightarrow> Some (Inl (no_node_error retries attempt), [], o')
      | Some a \<Rightarrow>
          let o' = on_metrics (record_node_request a) o';
              response = send_http_request lib env attempt meth params a;
              o' = meanwhile env attempt o'
          in case response of
            Inl e \<Rightarrow>
              if attempt < retries \<and> is_retryable_static e
              then map_option (\<lambda>(res, events, o'). (res, SentTo a # Backoff backoff_ms # events, o'))
                (forward_loop lib env meth params left (attempt + 1)
                  (next_backoff (orch_retry o') backoff_ms) o')
              else Some (Inl e, [SentTo a], o')
          | Inr v \<Rightarrow> Some (Inr v, [SentTo a],
              on_metrics (record_call meth (fe_start env) (fe_end env) True) o'))"

fun id_to_u64 :: "json \<Rightarrow> u64" where
  "id_to_u64 (JNumber n) = (case as_u64 n of Some i \<Rightarrow> i | None \<Rightarrow> 0)"
| "id_to_u64 (JString s) = (case parse_u64 s of Some i \<Rightarrow> i | None \<Rightarrow> 0)"
| "id_to_u64 j = 0"

definition forward_request_jsonrpc :: "http_lib \<Rightarrow> forward_env \<Rightarrow> string \<Rightarrow> json_rpc_request \<Rightarrow> orchestrator
    \<Rightarrow> (json result \<times> forward_event list \<times> orchestrator) option" where
  "forward_request_jsonrpc lib env version req o' =
     (if is_metrics_request (req_method req) then
        (case handle_metrics_request ServerOrchestrator version (fe_end env) (req_method req)
            (id_to_u64 (req_id req)) (orch_metrics o') of
          None \<Rightarrow> None
        | Some response \<Rightarrow> Some (case rs_result response of
            Some result \<Rightarrow> Inr result
          | None \<Rightarrow> Inl (InvalidRequest (case rs_error response of Some e \<Rightarrow> e | None \<Rightarrow> ''Unknown error'')),
          [], o'))
      else forward_loop lib env (req_method req) (req_params req) (max_retries (orch_retry o') + 1) 0
        (initial_backoff_ms (orch_retry o')) o')"

definition forward_request :: "http_lib \<Rightarrow> forward_env \<Rightarrow> string \<Rightarrow> request \<Rightarrow> orchestrator
    \<Rightarrow> (response result \<times> forward_event list \<times> orchestrator) option" where
  "forward_request lib env version rq o' =
     (if is_metrics_request (rq_method rq) then
        map_option (\<lambda>response. (Inr response, [], o'))
          (handle_metrics_request ServerOrchestrator version (fe_end env) (rq_method rq) (rq_id rq) (orch_metrics o'))
      else map_option (\<lambda>(res, events, o'). (map_sum id (response_success (rq_id rq)) res, events, o'))
        (forward_request_jsonrpc lib env version \<lparr>req_jsonrpc = ''2.0'', req_method = rq_method rq,
          req_params = rq_args rq, req_id = JNumber (PosInt (rq_id rq))\<rparr> o'))"

section \<open>The pool's operations\<close>

definition orch_add_node :: "string \<Rightarrow> orchestrator \<Rightarrow> orchestrator" where
  "orch_add_node a o' = o'\<lparr>orch_lb := add_node a (orch_lb o')\<rparr>"

definition orch_remove_node :: "string \<Rightarrow> orchestrator \<Rightarrow> orchestrator" where
  "orch_remove_node a o' = o'\<lparr>orch_lb := remove_node a (orch_lb o')\<rparr>"

definition orch_disable_node :: "string \<Rightarrow> orchestrator \<Rightarrow> bool \<times> orchestrator" where
  "orch_disable_node a o' = (case disable_node a (orch_lb o') of (ok, lb) \<Rightarrow> (ok, o'\<lparr>orch_lb := lb\<rparr>))"

definition orch_enable_node :: "string \<Rightarrow> orchestrator \<Rightarrow> bool \<times> orchestrator" where
  "orch_enable_node a o' = (case enable_node a (orch_lb o') of (ok, lb) \<Rightarrow> (ok, o'\<lparr>orch_lb := lb\<rparr>))"

definition nodes_with_status :: "orchestrator \<Rightarrow> node list" where
  "nodes_with_status o' = all_nodes (orch_lb o')"

definition orch_node_count :: "orchestrator \<Rightarrow> nat" where
  "orch_node_count o' = node_count (orch_lb o')"

definition orch_nodes :: "orchestrator \<Rightarrow> string list" where
  "orch_nodes o' = node_addresses (orch_lb o')"

definition register_node :: "string \<Rightarrow> orchestrator \<Rightarrow> node_registration_response result \<times> orchestrator" where
  "register_node url o' =
     (if \<not> starts_with ''http://'' url \<and> \<not> starts_with ''https://'' url
      then (Inl (InvalidRequest ''Invalid node URL: must start with http:// or https://''), o')
      else
        let node_count_before = node_count (orch_lb o');
            lb = add_node url (orch_lb o');
            lb = snd (enable_node url lb)
        in (Inr \<lparr>registered_url = url, is_new_registration = node_count lb > node_count_before\<rparr>,
            o'\<lparr>orch_lb := lb\<rparr>))"

section \<open>Metrics and information\<close>

definition get_metrics :: "instant \<Rightarrow> orchestrator \<Rightarrow> metrics_snapshot result" where
  "get_metrics now o' = Inr ((registry_snapshot now True (orch_metrics o'))
     \<lparr>ms_nodes := Some (node_metrics (orch_lb o'))\<rparr>)"

definition reason_text :: "disable_reason \<Rightarrow> string" where
  "reason_text r = (case r of Manual \<Rightarrow> ''Manual'' | HealthCheck \<Rightarrow> ''HealthCheck'')"

definition state_text :: "circuit_breaker_state \<Rightarrow> string" where
  "state_text s = (case s of Closed \<Rightarrow> ''Closed'' | Open \<Rightarrow> ''Open'' | HalfOpen \<Rightarrow> ''HalfOpen'')"

definition get_info :: "string \<Rightarrow> instant \<Rightarrow> orchestrator \<Rightarrow> orchestrator_info result" where
  "get_info version now o' =
     (let ns = nodes_with_status o';
          on = filter enabled ns;
          data = map (\<lambda>n. \<lparr>oni_addr = addr n, oni_enabled = enabled n,
            oni_disable_reason = map_option reason_text (disable_reason n),
            oni_circuit_state = state_text (circuit_state n),
            oni_consecutive_failures = consecutive_failures n\<rparr>) ns
      in Inr \<lparr>oi_version = version, oi_uptime_ms = ms_uptime_ms (registry_snapshot now True (orch_metrics o')),
        oi_total_nodes = length ns, oi_enabled_nodes = length on,
        oi_disabled_nodes = length ns - length on, oi_nodes = data\<rparr>)"

section \<open>The forwarding loop is a bounded retry\<close>

datatype forward_reply = NoNode madrpc_error | Replied "json result"

fun reply_result :: "forward_reply \<Rightarrow> json result" where
  "reply_result (NoNode e) = Inl e"
| "reply_result (Replied r) = r"

definition settled :: "json result \<Rightarrow> bool" where
  "settled r = (case r of Inr v \<Rightarrow> True | Inl e \<Rightarrow> \<not> is_retryable_static e)"

fun final_reply :: "forward_reply \<Rightarrow> bool" where
  "final_reply (NoNode e) = True"
| "final_reply (Replied r) = settled r"

text \<open>One turn of the loop up to its result, and what comes before the next turn.\<close>

definition forward_attempt :: "http_lib \<Rightarrow> forward_env \<Rightarrow> string \<Rightarrow> json \<Rightarrow> nat
    \<Rightarrow> forward_event list \<times> orchestrator \<Rightarrow> forward_reply \<times> forward_event list \<times> orchestrator" where
  "forward_attempt lib env meth params i s =
     (let (events, o') = s; (node, lb) = next_node (fe_now env i) (orch_lb o'); o' = o'\<lparr>orch_lb := lb\<rparr>
      in case node of
        None \<Rightarrow> (NoNode (no_node_error (max_retries (orch_retry o')) i), events, o')
      | Some a \<Rightarrow>
          let response = send_http_request lib env i meth params a;
              o' = meanwhile env i (on_metrics (record_node_request a) o')
          in (Replied response, events @ [SentTo a], if is_ok response
              then on_metrics (record_call meth (fe_start env) (fe_end env) True) o' else o'))"

definition backoff_at :: "orch_retry_config \<Rightarrow> nat \<Rightarrow> u64" where
  "backoff_at cfg k = (next_backoff cfg ^^ k) (initial_backoff_ms cfg)"

definition forward_pause :: "orch_retry_config \<Rightarrow> nat \<Rightarrow> forward_event list \<times> orchestrator
    \<Rightarrow> forward_event list \<times> orchestrator" where
  "forward_pause cfg i s = (fst s @ [Backoff (backoff_at cfg i)], snd s)"

definition forward_from where
  "forward_from lib env meth params cfg left i s =
     map_option (\<lambda>(res, events, o'). (res, fst s @ events, o'))
       (forward_loop lib env meth params left i (backoff_at cfg i) (snd s))"

lemma meanwhile_retry [simp]: "orch_retry (meanwhile env i o') = orch_retry o'"
  by (simp add: meanwhile_def)

lemma meanwhile_lb [simp]: "orch_lb (meanwhile env i o') = lb_run (fst (fe_meanwhile env i)) (orch_lb o')"
  by (simp add: meanwhile_def)

lemma attempt_retry [simp]:
  "orch_retry (snd (snd (forward_attempt lib env meth params i s))) = orch_retry (snd s)"
  by (simp add: forward_attempt_def Let_def split_beta split: option.split)

interpretation forwarding: retry_loop "forward_from lib env meth params cfg"
    "forward_attempt lib env meth params" "forward_pause cfg" final_reply reply_result
    "max_retries cfg" "\<lambda>s. orch_retry (snd s) = cfg"
  for lib env meth params cfg
proof
  fix s :: "forward_event list \<times> orchestrator" and i left :: nat
  assume cfg: "orch_retry (snd s) = cfg" and i: "i + left = max_retries cfg"
  obtain events o' where s: "s = (events, o')" by (cases s)
  obtain node lb where n: "next_node (fe_now env i) (orch_lb o') = (node, lb)" by (cases "next_node (fe_now env i) (orch_lb o')")
  have b: "next_backoff cfg (backoff_at cfg i) = backoff_at cfg (Suc i)" by (simp add: backoff_at_def)
  show "forward_from lib env meth params cfg (Suc left) i s = (case forward_attempt lib env meth params i s of
      (r, s') \<Rightarrow> if final_reply r \<or> left = 0 then Some (reply_result r, s')
        else forward_from lib env meth params cfg left (Suc i) (forward_pause cfg i s'))"
  proof (cases node)
    case None
    with n cfg show ?thesis by (simp add: forward_from_def forward_attempt_def s Let_def)
  next
    case (Some a)
    show ?thesis
    proof (cases "send_http_request lib env i meth params a")
      case (Inl e)
      with n Some cfg i b show ?thesis
        by (auto simp: forward_from_def forward_attempt_def forward_pause_def s Let_def settled_def
            option.map_comp comp_def case_prod_unfold)
    next
      case (Inr v)
      with n Some cfg show ?thesis by (simp add: forward_from_def forward_attempt_def s Let_def settled_def)
    qed
  qed
qed (simp_all add: forward_pause_def)

lemma forward_is_run:
  assumes "\<not> is_metrics_request (req_method req)"
  shows "forward_request_jsonrpc lib env version req o' =
    (case retry_run (forward_attempt lib env (req_method req) (req_params req)) (forward_pause (orch_retry o'))
       final_reply (Suc (max_retries (orch_retry o'))) 0 ([], o') of
      (replies, events, o'') \<Rightarrow> Some (reply_result (last replies), events, o''))"
proof -
  have "forward_request_jsonrpc lib env version req o' = forward_from lib env (req_method req) (req_params req)
      (orch_retry o') (Suc (max_retries (orch_retry o'))) 0 ([], o')"
    using assms by (simp add: forward_request_jsonrpc_def forward_from_def backoff_at_def option.map_ident
        case_prod_unfold del: forward_loop.simps)
  also have "\<dots> = Some (reply_result (last (fst (retry_run (forward_attempt lib env (req_method req) (req_params req))
      (forward_pause (orch_retry o')) final_reply (Suc (max_retries (orch_retry o'))) 0 ([], o')))),
      snd (retry_run (forward_attempt lib env (req_method req) (req_params req))
      (forward_pause (orch_retry o')) final_reply (Suc (max_retries (orch_retry o'))) 0 ([], o')))"
    by (rule forwarding.loop_run) simp_all
  finally show ?thesis by (simp only: split_beta prod.collapse)
qed


lemma forward_returns:
  assumes "\<not> is_metrics_request (req_method req)"
  shows "\<exists>res events o''. forward_request_jsonrpc lib env version req o' = Some (res, events, o'')"
  unfolding forward_is_run [OF assms] by (simp add: split_beta del: retry_run.simps)

section \<open>Accounting and pauses\<close>

fun sent_to :: "forward_event list \<Rightarrow> string list" where
  "sent_to [] = []"
| "sent_to (SentTo a # es) = a # sent_to es"
| "sent_to (Backoff b # es) = sent_to es"

fun backoffs :: "forward_event list \<Rightarrow> u64 list" where
  "backoffs [] = []"
| "backoffs (SentTo a # es) = backoffs es"
| "backoffs (Backoff b # es) = b # backoffs es"

lemma sent_to_append [simp]: "sent_to (es @ es') = sent_to es @ sent_to es'"
  by (induction es rule: sent_to.induct) simp_all

lemma backoffs_append [simp]: "backoffs (es @ es') = backoffs es @ backoffs es'"
  by (induction es rule: backoffs.induct) simp_all

text \<open>The calls other tasks record while the attempts \<open>i, ..., i + n - 1\<close> are in flight.\<close>

definition others :: "forward_env \<Rightarrow> (bool \<Rightarrow> bool) \<Rightarrow> nat \<Rightarrow> nat \<Rightarrow> nat" where
  "others env P i n = sum_list (map (\<lambda>k. calls_where P (snd (fe_meanwhile env k))) [i..<i + n])"

lemma others_simps [simp]:
  "others env P i 0 = 0"
  "others env P i (Suc n) = calls_where P (snd (fe_meanwhile env i)) + others env P (Suc i) n"
  by (simp_all add: others_def upt_rec)

definition counters :: "orchestrator \<Rightarrow> u64 \<times> u64 \<times> u64" where
  "counters o' = (total_requests (orch_metrics o'), successful_requests (orch_metrics o'),
     failed_requests (orch_metrics o'))"

lemma counters_meanwhile:
  "counters (meanwhile env i (on_metrics (record_node_request a) o')) = (case counters o' of (t, s, f) \<Rightarrow>
     (t + of_nat (others env (\<lambda>_. True) i 1), s + of_nat (others env (\<lambda>ok. ok) i 1), f + of_nat (others env Not i 1)))"
  using run_counts [of "[NodeRequest a]" "(orch_metrics o', orch_clock o')"]
  by (simp add: counters_def meanwhile_def run_counts)

lemma counters_record_call:
  "counters (on_metrics (record_call m t0 t1 True) o') = (case counters o' of (t, s, f) \<Rightarrow> (t + 1, s + 1, f))"
  by (simp add: counters_def record_call_def method_call_counts)

lemma counters_lb [simp]: "counters (o'\<lparr>orch_lb := lb\<rparr>) = counters o'"
  by (simp add: counters_def)

lemma attempt_counters:
  assumes "forward_attempt lib env meth params i (events, o') = (r, events', o'')" "counters o' = (t, s, f)"
  shows "case r of
      NoNode e \<Rightarrow> events' = events \<and> counters o'' = (t, s, f)
    | Replied res \<Rightarrow> (\<exists>a. events' = events @ [SentTo a]) \<and> counters o'' =
        (t + of_nat (others env (\<lambda>_. True) i 1) + of_bool (is_ok res),
         s + of_nat (others env (\<lambda>ok. ok) i 1) + of_bool (is_ok res), f + of_nat (others env Not i 1))"
proof -
  obtain node lb where n: "next_node (fe_now env i) (orch_lb o') = (node, lb)" by (cases "next_node (fe_now env i) (orch_lb o')")
  show ?thesis
  proof (cases node)
    case (Some a)
    with assms n show ?thesis
      by (auto simp: forward_attempt_def Let_def counters_record_call counters_meanwhile
          simp del: others_simps split: if_splits)
  qed (use assms n in \<open>simp add: forward_attempt_def Let_def; auto\<close>)
qed


lemma counters_pause [simp]: "counters (snd (forward_pause cfg i s)) = counters (snd s)"
  by (simp add: forward_pause_def)

lemma run_counters:
  assumes "counters (snd s) = (t, c, f)"
    and "retry_run (forward_attempt lib env meth params) (forward_pause cfg) final_reply (Suc left) i s
      = (replies, events', o'')"
  shows "\<exists>n \<le> Suc left. length (sent_to events') = length (sent_to (fst s)) + n \<and> counters o'' =
     (t + of_nat (others env (\<lambda>_. True) i n) + of_bool (is_ok (reply_result (last replies))),
      c + of_nat (others env (\<lambda>ok. ok) i n) + of_bool (is_ok (reply_result (last replies))),
      f + of_nat (others env Not i n))"
  using assms
proof (induction left arbitrary: i s t c f replies)
  case 0
  obtain events o' where s: "s = (events, o')" by (cases s)
  obtain r s' where a: "forward_attempt lib env meth params i s = (r, s')" by (cases "forward_attempt lib env meth params i s")
  from attempt_counters [of lib env meth params i events o' r "fst s'" "snd s'" t c f] 0 show ?case
    by (cases r) (auto simp: s a [unfolded s] intro: exI [of _ 0] exI [of _ "Suc 0"])
next
  case (Suc left)
  obtain events o' where s: "s = (events, o')" by (cases s)
  obtain r ev1 o1 where a: "forward_attempt lib env meth params i s = (r, ev1, o1)"
    by (cases "forward_attempt lib env meth params i s") auto
  note step = attempt_counters [OF a [unfolded s] Suc.prems(1) [unfolded s snd_conv]]
  show ?case
  proof (cases "final_reply r")
    case True
    with Suc.prems(2) step show ?thesis
      by (cases r) (auto simp: s a [unfolded s] intro: exI [of _ 0] exI [of _ "Suc 0"])
  next
    case False
    then obtain e where r: "r = Replied (Inl e)" by (cases r rule: final_reply.cases) (auto simp: settled_def split: sum.splits)
    obtain rs ev2 o2 where rest: "retry_run (forward_attempt lib env meth params) (forward_pause cfg) final_reply
        (Suc left) (Suc i) (forward_pause cfg i (ev1, o1)) = (rs, ev2, o2)"
      by (cases "retry_run (forward_attempt lib env meth params) (forward_pause cfg) final_reply
        (Suc left) (Suc i) (forward_pause cfg i (ev1, o1))") auto
    then have rs: "rs \<noteq> []" using retry_run_nonempty [of "Suc left"] by (metis fst_conv zero_less_Suc)
    have eq: "replies = r # rs" "events' = ev2" "o'' = o2"
      using Suc.prems(2) False by (simp_all add: s a [unfolded s] rest retry_run.simps(2) [of _ _ _ "Suc left"] del: retry_run.simps)
    from step r have o1: "counters o1 = (t + of_nat (others env (\<lambda>_. True) i 1),
        c + of_nat (others env (\<lambda>ok. ok) i 1), f + of_nat (others env Not i 1))"
      and len: "length (sent_to ev1) = Suc (length (sent_to events))" by auto
    from Suc.IH [OF _ rest [folded eq(2,3)]] o1 obtain n where "n \<le> Suc left"
      "length (sent_to events') = length (sent_to (ev1 @ [Backoff (backoff_at cfg i)])) + n"
      "counters o'' = (t + of_nat (others env (\<lambda>_. True) i 1) + of_nat (others env (\<lambda>_. True) (Suc i) n) + of_bool (is_ok (reply_result (last rs))),
        c + of_nat (others env (\<lambda>ok. ok) i 1) + of_nat (others env (\<lambda>ok. ok) (Suc i) n) + of_bool (is_ok (reply_result (last rs))),
        f + of_nat (others env Not i 1) + of_nat (others env Not (Suc i) n))"
      by (fastforce simp: forward_pause_def)
    then show ?thesis using len rs eq by (intro exI [of _ "Suc n"]) (simp add: s ac_simps)
  qed
qed


lemma run_backoffs:
  "retry_run (forward_attempt lib env meth params) (forward_pause cfg) final_reply (Suc left) i s
      = (replies, events', o'') \<Longrightarrow>
   \<exists>n \<le> left. backoffs events' = backoffs (fst s) @ map (backoff_at cfg) [i..<i + n]"
proof (induction left arbitrary: i s replies)
  case 0
  then have "backoffs events' = backoffs (fst s)"
    by (auto simp: forward_attempt_def Let_def split_beta split: option.splits)
  then show ?case by simp
next
  case (Suc left)
  obtain r ev1 o1 where a: "forward_attempt lib env meth params i s = (r, ev1, o1)"
    by (cases "forward_attempt lib env meth params i s") auto
  then have b1: "backoffs ev1 = backoffs (fst s)"
    by (auto simp: forward_attempt_def Let_def split_beta split: option.splits)
  show ?case
  proof (cases "final_reply r")
    case True
    with Suc.prems have "events' = ev1" by (simp add: a)
    with b1 show ?thesis by (intro exI [of _ 0]) simp
  next
    case False
    with Suc.prems obtain rs where rest: "retry_run (forward_attempt lib env meth params) (forward_pause cfg)
        final_reply (Suc left) (Suc i) (forward_pause cfg i (ev1, o1)) = (rs, events', o'')"
      by (cases "retry_run (forward_attempt lib env meth params) (forward_pause cfg)
        final_reply (Suc left) (Suc i) (forward_pause cfg i (ev1, o1))")
        (simp add: a retry_run.simps(2) [of _ _ _ "Suc left"] del: retry_run.simps)
    from Suc.IH [OF rest] obtain n where "n \<le> left"
      "backoffs events' = backoffs (ev1 @ [Backoff (backoff_at cfg i)]) @ map (backoff_at cfg) [Suc i..<Suc i + n]"
      by (auto simp: forward_pause_def)
    moreover have "[i..<i + Suc n] = i # [Suc i..<Suc i + n]" by (simp add: upt_rec)
    ultimately show ?thesis using b1 by (intro exI [of _ "Suc n"]) simp
  qed
qed

lemma unat_backoff_at:
  assumes "or_multiplier cfg = Fin 2" "initial_backoff_ms cfg \<le> max_backoff_ms cfg" "unat (max_backoff_ms cfg) \<le> 2 ^ 53"
  shows "unat (backoff_at cfg k) = min (unat (initial_backoff_ms cfg) * 2 ^ k) (unat (max_backoff_ms cfg))"
proof (induction k)
  case 0
  then show ?case using assms(2) by (simp add: backoff_at_def word_le_nat_alt)
next
  case (Suc k)
  let ?b = "unat (backoff_at cfg k)"
  have b: "?b \<le> 2 ^ 53" using Suc.IH assms(3) by simp
  have "pow2f 1 = Fin 2" by (simp add: pow2f_def)
  then have "f_to_nat 64 (f_mul (f_of_nat ?b) (Fin 2)) = min (?b * 2) (2 ^ 64 - 1)"
    using f_to_nat_mul_pow2f [OF b, of 1] by simp
  then have "unat (next_backoff cfg (backoff_at cfg k)) = min (?b * 2) (unat (max_backoff_ms cfg))"
    by (simp only: next_backoff_def assms(1) f_to_u64_def unat_min_u64)
  moreover have "min (min x m * 2) m = min (x * 2) m" for x m :: nat by (simp add: min_def)
  ultimately show ?case by (simp add: backoff_at_def) (simp add: Suc.IH [unfolded backoff_at_def] mult.assoc mult.commute)
qed

section \<open>Which nodes are tried\<close>

text \<open>
  The nodes the selector gives to the turns \<open>i, ..., i + n - 1\<close> of a loop that is alone on the
  pool, and their answers.
\<close>

definition turn_nodes :: "forward_env \<Rightarrow> load_balancer \<Rightarrow> nat \<Rightarrow> nat \<Rightarrow> string list" where
  "turn_nodes env lb i n = map the (fst (select_run next_node (map (fe_now env) [i..<i + n]) lb))"

definition turn_answers :: "http_lib \<Rightarrow> forward_env \<Rightarrow> string \<Rightarrow> json \<Rightarrow> load_balancer \<Rightarrow> nat \<Rightarrow> nat \<Rightarrow> json result list" where
  "turn_answers lib env meth params lb i n =
     map (\<lambda>(k, a). send_http_request lib env k meth params a) (zip [i..<i + n] (turn_nodes env lb i n))"

lemma turn_upt: "[i..<i + Suc n] = i # [Suc i..<Suc i + n]"
  by (simp add: upt_rec)

lemma turn_Suc:
  assumes "next_node (fe_now env i) lb = (Some a, lb')"
  shows "turn_nodes env lb i (Suc n) = a # turn_nodes env lb' (Suc i) n"
    and "turn_answers lib env meth params lb i (Suc n)
      = send_http_request lib env i meth params a # turn_answers lib env meth params lb' (Suc i) n"
  unfolding turn_nodes_def turn_answers_def turn_upt using assms by (simp_all add: split_beta)

lemma turn_0 [simp]: "turn_nodes env lb i 0 = []" "turn_answers lib env meth params lb i 0 = []"
  by (simp_all add: turn_nodes_def turn_answers_def)

lemma turn_answers_Nil [simp]: "turn_answers lib env meth params lb i n = [] \<longleftrightarrow> n = 0"
proof -
  have "length (fst (select_run next_node ts lb)) = length ts" for ts lb
    by (induction ts arbitrary: lb) (simp_all add: split_beta)
  then show ?thesis by (simp add: turn_answers_def turn_nodes_def flip: length_0_conv)
qed

text \<open>One turn of the loop that finds a node: it ends the loop or goes on to the next.\<close>

lemma forward_loop_ends:
  assumes "next_node (fe_now env i) (orch_lb o') = (Some a, lb)"
    and "settled (send_http_request lib env i meth params a) \<or> \<not> i < max_retries (orch_retry o')"
  obtains o'' where "forward_loop lib env meth params (Suc left) i b o'
      = Some (send_http_request lib env i meth params a, [SentTo a], o'')"
    "orch_lb o'' = lb_run (fst (fe_meanwhile env i)) lb"
proof (cases "send_http_request lib env i meth params a")
  case (Inl e)
  with assms show thesis by (intro that) (auto simp: settled_def Let_def)
next
  case (Inr v)
  with assms show thesis by (intro that) (auto simp: settled_def Let_def)
qed

lemma forward_loop_again:
  assumes "next_node (fe_now env i) (orch_lb o') = (Some a, lb)" "i < max_retries (orch_retry o')"
    and "send_http_request lib env i meth params a = Inl e" "is_retryable_static e"
  shows "forward_loop lib env meth params (Suc left) i b o' =
    map_option (\<lambda>(res, events, o'). (res, SentTo a # Backoff b # events, o'))
      (forward_loop lib env meth params left (Suc i) (next_backoff (orch_retry o') b)
        (meanwhile env i (on_metrics (record_node_request a) (o'\<lparr>orch_lb := lb\<rparr>))))"
  using assms by (subst forward_loop.simps(2)) (simp add: Let_def del: forward_loop.simps)

lemma forward_loop_rotates:
  assumes quiet: "\<forall>i. fst (fe_meanwhile env i) = []"
  shows "i + left = max_retries (orch_retry o') \<Longrightarrow> lb_ok (orch_lb o') \<Longrightarrow> available (orch_lb o') \<noteq> {} \<Longrightarrow>
    \<exists>events o''. forward_loop lib env meth params (Suc left) i b o'
        = Some (last (take (attempts_made settled (turn_answers lib env meth params (orch_lb o') i (Suc left)))
            (turn_answers lib env meth params (orch_lb o') i (Suc left))), events, o'')
      \<and> sent_to events = take (attempts_made settled (turn_answers lib env meth params (orch_lb o') i (Suc left)))
          (turn_nodes env (orch_lb o') i (Suc left))
      \<and> orch_lb o'' = snd (select_run next_node (map (fe_now env)
          [i..<i + attempts_made settled (turn_answers lib env meth params (orch_lb o') i (Suc left))]) (orch_lb o'))"
proof (induction left arbitrary: i b o')
  case (0 i b o')
  obtain node lb where n: "next_node (fe_now env i) (orch_lb o') = (node, lb)" by (cases "next_node (fe_now env i) (orch_lb o')")
  with lb.select_iff [OF 0(2), of "fe_now env i"] 0(3) obtain a where a: "node = Some a" by auto
  from 0(1) have "settled (send_http_request lib env i meth params a) \<or> \<not> i < max_retries (orch_retry o')" by simp
  then obtain o'' where "forward_loop lib env meth params (Suc 0) i b o'
      = Some (send_http_request lib env i meth params a, [SentTo a], o'')" "orch_lb o'' = lb_run (fst (fe_meanwhile env i)) lb"
    by (rule forward_loop_ends [OF n [unfolded a]])
  moreover have "[i..<Suc i] = [i]" by simp
  ultimately show ?case using turn_Suc [OF n [unfolded a], where n = 0] quiet
    by (simp add: n lb_run_def del: forward_loop.simps upt_Suc)
next
  case (Suc left i b o')
  obtain node lb where n: "next_node (fe_now env i) (orch_lb o') = (node, lb)" by (cases "next_node (fe_now env i) (orch_lb o')")
  with lb.select_iff [OF Suc.prems(2), of "fe_now env i"] Suc.prems(3) obtain a where a: "node = Some a" by auto
  note t = turn_Suc [OF n [unfolded a], where n = "Suc left"]
  let ?o1 = "meanwhile env i (on_metrics (record_node_request a) (o'\<lparr>orch_lb := lb\<rparr>))"
  have lb: "orch_lb ?o1 = lb" using quiet by (simp add: lb_run_def)
  have ok: "lb_ok lb" "available lb \<noteq> {}"
    using lb.select_inv [OF Suc.prems(2), of "fe_now env i"] lb.select_avail [OF Suc.prems(2), of "fe_now env i"] n Suc.prems(3) by simp_all
  show ?case
  proof (cases "settled (send_http_request lib env i meth params a)")
    case True
    then have "settled (send_http_request lib env i meth params a) \<or> \<not> i < max_retries (orch_retry o')" by simp
    then obtain o'' where "forward_loop lib env meth params (Suc (Suc left)) i b o'
        = Some (send_http_request lib env i meth params a, [SentTo a], o'')" "orch_lb o'' = lb_run (fst (fe_meanwhile env i)) lb"
      by (rule forward_loop_ends [OF n [unfolded a]])
    moreover have "[i..<Suc i] = [i]" by simp
    ultimately show ?thesis unfolding t using True quiet
      by (simp add: n lb_run_def del: forward_loop.simps upt_Suc)
  next
    case False
    then obtain e where e: "send_http_request lib env i meth params a = Inl e" "is_retryable_static e"
      by (auto simp: settled_def split: sum.splits)
    let ?rest = "turn_answers lib env meth params lb (Suc i) (Suc left)"
    let ?k = "attempts_made settled ?rest"
    from Suc.IH [of "Suc i" ?o1 "next_backoff (orch_retry o') b"] Suc.prems(1) ok lb obtain ev o2 where
      rec: "forward_loop lib env meth params (Suc left) (Suc i) (next_backoff (orch_retry o') b) ?o1
          = Some (last (take ?k ?rest), ev, o2)" "sent_to ev = take ?k (turn_nodes env lb (Suc i) (Suc left))"
        "orch_lb o2 = snd (select_run next_node (map (fe_now env) [Suc i..<Suc i + ?k]) lb)"
      by (auto simp del: forward_loop.simps)
    have loop: "forward_loop lib env meth params (Suc (Suc left)) i b o'
        = Some (last (take ?k ?rest), SentTo a # Backoff b # ev, o2)"
      using Suc.prems(1) by (subst forward_loop_again [OF n [unfolded a] _ e]) (simp_all add: rec(1) del: forward_loop.simps)
    have k: "attempts_made settled (Inl e # ?rest) = Suc ?k" using False by (simp add: e(1))
    have ne: "take ?k ?rest \<noteq> []" by (simp add: attempts_made_def)
    show ?thesis unfolding t e(1) k turn_upt using ne
      by (intro exI [of _ "SentTo a # Backoff b # ev"] exI [of _ o2])
        (simp add: loop rec(2,3) n a split_beta del: forward_loop.simps)
  qed
qed


lemma client_down:
  assumes "uri_error lib (base_url cl) = None" "\<forall>j. \<exists>t. net j = SendFailed t" "0 < max_attempts (retry cl)"
  obtains t where "fst (call lib rand net cl meth params counter) = Inl (Transport t)"
proof -
  let ?n = "unat (max_attempts (retry cl))"
  have n: "0 < ?n" using assms(3) by (simp add: word_less_nat_alt)
  have down: "\<exists>t. try_call lib (base_url cl) (net j) = Inl (Transport t)" for j
    using assms(1) assms(2) [rule_format, of j] by (auto simp: try_call_def)
  then have "\<exists>t. settle conclusive (map (\<lambda>i. try_call lib (base_url cl) (net i)) xs) = Some (Inl (Transport t))"
    if "xs \<noteq> []" for xs
    using that
  proof (induction xs)
    case (Cons x xs)
    obtain t where "try_call lib (base_url cl) (net x) = Inl (Transport t)" using down by blast
    with Cons down show ?case by (auto simp: conclusive_def)
  qed simp
  moreover have "[1..<1 + ?n] \<noteq> []" using n by simp
  ultimately obtain t where "settle conclusive (map (\<lambda>i. try_call lib (base_url cl) (net i)) [1..<1 + ?n]) = Some (Inl (Transport t))"
    by blast
  moreover have "Some (fst (call lib rand net cl meth params counter))
      = settle conclusive (map (\<lambda>i. try_call lib (base_url cl) (net i)) [1..<1 + ?n])"
    using n by (subst call_loop_settles [symmetric, where cfg = "retry cl" and rand = rand
      and req = "\<lparr>req_jsonrpc = ''2.0'', req_method = meth, req_params = params, req_id = JNumber (PosInt counter)\<rparr>"])
      (simp_all add: call_def split_beta Let_def)
  ultimately have "fst (call lib rand net cl meth params counter) = Inl (Transport t)"
    by simp
  then show thesis by (rule that)
qed

section \<open>Properties\<close>

text \<open>
  C8. Forwarding follows the rotation: while no other task changes the pool and some node is
  available, the request goes to the nodes the selector yields, one after another, until one
  gives a settled answer (a result, or an error that is not a report of unavailability) or the
  retries are used up; the result is that of the last node tried, and the pool has made exactly
  the selections of these turns.
\<close>

theorem forward_rotates:
  assumes "\<not> is_metrics_request (req_method req)" "\<forall>i. fst (fe_meanwhile env i) = []"
    and "lb_ok (orch_lb o')" "available (orch_lb o') \<noteq> {}"
  shows "let turns = Suc (max_retries (orch_retry o'));
       answers = turn_answers lib env (req_method req) (req_params req) (orch_lb o') 0 turns;
       k = attempts_made settled answers
     in \<exists>events o''. forward_request_jsonrpc lib env version req o' = Some (the (settle settled answers), events, o'')
       \<and> sent_to events = take k (turn_nodes env (orch_lb o') 0 turns)
       \<and> orch_lb o'' = snd (select_run next_node (map (fe_now env) [0..<k]) (orch_lb o'))"
  using forward_loop_rotates [OF assms(2), of 0 "max_retries (orch_retry o')" o'] assms(1,3,4)
  by (simp add: Let_def forward_request_jsonrpc_def settle_take del: forward_loop.simps)

definition idle_env :: "(nat \<Rightarrow> string \<Rightarrow> nat \<Rightarrow> http_outcome) \<Rightarrow> forward_env" where
  "idle_env net = \<lparr>fe_now = (\<lambda>_. 7), fe_rand = (\<lambda>_ _. (False, 0)), fe_net = net, fe_counter = (\<lambda>_. 0),
     fe_meanwhile = (\<lambda>_. ([], [])), fe_start = 1, fe_end = 2\<rparr>"

definition two_nodes :: orchestrator where
  "two_nodes = \<lparr>orch_lb = lb_new [''a'', ''b''], orch_metrics = registry_new 0,
     orch_retry = default_orch_retry, orch_clock = clock_start (\<lambda>_. 0)\<rparr>"

definition some_request :: json_rpc_request where
  "some_request = \<lparr>req_jsonrpc = ''2.0'', req_method = ''f'', req_params = JNull, req_id = JNull\<rparr>"

lemma two_nodes_ok: "lb_ok (orch_lb two_nodes)" "available (orch_lb two_nodes) \<noteq> {}"
  using lb_inv_with_config [of "[''a'', ''b'']" default_circuit_config]
  by (auto simp: two_nodes_def lb_ok_def lb_bounds_def lb_new_eq available_def selectable_def)
     (auto simp: with_config_def map_of_collect)

theorem forward_rotates_witness:
  "let answers = turn_answers down_lib (idle_env (\<lambda>_ _. down_net)) ''f'' JNull (orch_lb two_nodes) 0
         (Suc (max_retries (orch_retry two_nodes)))
   in \<exists>events o''. forward_request_jsonrpc down_lib (idle_env (\<lambda>_ _. down_net)) ''1'' some_request two_nodes
        = Some (the (settle settled answers), events, o'')"
  using forward_rotates [OF _ _ two_nodes_ok, of some_request "idle_env (\<lambda>_ _. down_net)" down_lib "''1''"]
  by (auto simp: Let_def some_request_def is_metrics_request_def idle_env_def)

text \<open>
  C29. A node that cannot be reached is not failed over: when every attempt of the client to connect
  to the first node selected fails, forwarding returns the transport error after that node
  alone, however many other nodes are available and whatever other tasks do (the documentation
  counts connection failures among the errors that are retried on another node).
\<close>

theorem connection_failure_not_failed_over:
  assumes "\<not> is_metrics_request (req_method req)" "fst (next_node (fe_now env 0) (orch_lb o')) = Some a"
    and "uri_error lib (normalize_url a) = None" "\<forall>j. \<exists>t. fe_net env 0 a j = SendFailed t"
  shows "\<exists>t o''. forward_request_jsonrpc lib env version req o' = Some (Inl (Transport t), [SentTo a], o'')"
proof -
  let ?cl = "\<lparr>base_url = normalize_url a, pool_config = default_connection, retry = default_retry\<rparr>"
  obtain t where "fst (call lib (fe_rand env 0) (fe_net env 0 a) ?cl (req_method req) (req_params req) (fe_counter env 0))
      = Inl (Transport t)"
    by (rule client_down [of lib ?cl "fe_net env 0 a"]) (use assms(3,4) in \<open>simp_all add: default_retry_def\<close>)
  then have send: "send_http_request lib env 0 (req_method req) (req_params req) a = Inl (Transport t)"
    by (simp add: send_http_request_def client_new_def with_configs_def)
  obtain lb where n: "next_node (fe_now env 0) (orch_lb o') = (Some a, lb)" using assms(2) by (metis prod.collapse)
  have "settled (Inl (Transport t))" by (simp add: settled_def)
  then obtain o'' where "forward_loop lib env (req_method req) (req_params req) (Suc (max_retries (orch_retry o'))) 0
      (initial_backoff_ms (orch_retry o')) o' = Some (Inl (Transport t), [SentTo a], o'')"
    using forward_loop_ends [OF n, where lib = lib and meth = "req_method req" and params = "req_params req"
      and left = "max_retries (orch_retry o')" and b = "initial_backoff_ms (orch_retry o')"] send by metis
  with assms(1) show ?thesis by (simp add: forward_request_jsonrpc_def del: forward_loop.simps)
qed

theorem connection_failure_not_failed_over_witness:
  "\<exists>t o''. forward_request_jsonrpc down_lib (idle_env (\<lambda>_ _ _. SendFailed ''refused'')) ''1'' some_request two_nodes
     = Some (Inl (Transport t), [SentTo ''a''], o'')"
  by (rule connection_failure_not_failed_over)
     (simp_all add: some_request_def is_metrics_request_def idle_env_def two_nodes_def lb_new_def
       next_node_def collect_nodes_def node_new_def down_lib_def Let_def)


text \<open>
  Accounting: forwarding always returns, sends the request at most once per allowed attempt, and
  moves the global counters only when it succeeds; a failed forwarding is not recorded as a
  failed request, nor as a request. What else the counters show is what other tasks recorded
  while the attempts were in flight.
\<close>

theorem forward_accounting:
  assumes "\<not> is_metrics_request (req_method req)" "counters o' = (t, s, f)"
  shows "case forward_request_jsonrpc lib env version req o' of None \<Rightarrow> False
    | Some (res, events, o'') \<Rightarrow> (let n = length (sent_to events) in n \<le> Suc (max_retries (orch_retry o'))
       \<and> counters o'' = (t + of_nat (others env (\<lambda>_. True) 0 n) + of_bool (is_ok res),
            s + of_nat (others env (\<lambda>ok. ok) 0 n) + of_bool (is_ok res), f + of_nat (others env Not 0 n)))"
proof -
  obtain rs events o'' where run: "retry_run (forward_attempt lib env (req_method req) (req_params req))
      (forward_pause (orch_retry o')) final_reply (Suc (max_retries (orch_retry o'))) 0 ([], o') = (rs, events, o'')"
    by (cases "retry_run (forward_attempt lib env (req_method req) (req_params req))
      (forward_pause (orch_retry o')) final_reply (Suc (max_retries (orch_retry o'))) 0 ([], o')") auto
  from run_counters [OF _ run] assms(2) show ?thesis
    unfolding forward_is_run [OF assms(1)] run by (auto simp: Let_def)
qed

theorem forward_accounting_witness:
  "case forward_request_jsonrpc down_lib (idle_env (\<lambda>_ _. down_net)) ''1'' some_request two_nodes of None \<Rightarrow> False
    | Some (res, events, o'') \<Rightarrow> length (sent_to events) \<le> 4"
proof -
  have "counters two_nodes = (0, 0, 0)" by (simp add: counters_def two_nodes_def registry_new_def registry_with_config_def)
  from forward_accounting [OF _ this, where req = some_request and lib = down_lib
    and env = "idle_env (\<lambda>_ _. down_net)" and version = "''1''"]
  show ?thesis by (simp add: some_request_def is_metrics_request_def two_nodes_def default_orch_retry_def Let_def
    split: option.splits prod.splits)
qed

text \<open>
  The pauses between attempts double from the initial backoff up to the maximum, the
  floating-point multiplication and its truncation included, and there are at most as many as
  retries allowed.
\<close>

theorem forward_backoffs:
  assumes "\<not> is_metrics_request (req_method req)" "or_multiplier (orch_retry o') = Fin 2"
    and "initial_backoff_ms (orch_retry o') \<le> max_backoff_ms (orch_retry o')"
    and "unat (max_backoff_ms (orch_retry o')) \<le> 2 ^ 53"
    and "forward_request_jsonrpc lib env version req o' = Some (res, events, o'')"
  shows "\<exists>n \<le> max_retries (orch_retry o'). map unat (backoffs events)
    = map (\<lambda>k. min (unat (initial_backoff_ms (orch_retry o')) * 2 ^ k) (unat (max_backoff_ms (orch_retry o')))) [0..<n]"
proof -
  obtain rs where run: "retry_run (forward_attempt lib env (req_method req) (req_params req))
      (forward_pause (orch_retry o')) final_reply (Suc (max_retries (orch_retry o'))) 0 ([], o') = (rs, events, o'')"
    using assms(5) unfolding forward_is_run [OF assms(1)] by (auto split: prod.splits)
  from run_backoffs [OF run] obtain n where "n \<le> max_retries (orch_retry o')"
    "backoffs events = map (backoff_at (orch_retry o')) [0..<n]" by auto
  then show ?thesis by (intro exI [of _ n]) (simp add: unat_backoff_at [OF assms(2-4)])
qed

theorem forward_backoffs_witness:
  "\<exists>res events o''. forward_request_jsonrpc down_lib (idle_env (\<lambda>_ _. down_net)) ''1'' some_request two_nodes
      = Some (res, events, o'') \<and> (\<exists>n \<le> 3. map unat (backoffs events) = map (\<lambda>k. min (50 * 2 ^ k) 5000) [0..<n])"
proof -
  have m: "\<not> is_metrics_request (req_method some_request)" by (simp add: some_request_def is_metrics_request_def)
  obtain res events o'' where f: "forward_request_jsonrpc down_lib (idle_env (\<lambda>_ _. down_net)) ''1'' some_request two_nodes
      = Some (res, events, o'')"
    using forward_returns [OF m] by blast
  from forward_backoffs [OF m _ _ _ f] show ?thesis using f
    by (simp add: two_nodes_def default_orch_retry_def)
qed

lemma register_node_effect:
  assumes "lb_inv (orch_lb o')" "register_node url o' = (r, o'')"
  shows "case r of
      Inl e \<Rightarrow> \<not> starts_with ''http://'' url \<and> \<not> starts_with ''https://'' url \<and> o'' = o'
    | Inr reply \<Rightarrow> lb_inv (orch_lb o'') \<and> url \<in> set (enabled_nodes (orch_lb o''))
        \<and> registered_url reply = url \<and> (is_new_registration reply \<longleftrightarrow> url \<notin> set (node_addresses (orch_lb o')))
        \<and> (\<exists>n. map_of (nodes (orch_lb o'')) url = Some n \<and> disable_reason n = None \<and> consecutive_failures n = 0)
        \<and> (\<forall>a. a \<noteq> url \<longrightarrow> map_of (nodes (orch_lb o'')) a = map_of (nodes (orch_lb o')) a)"
proof (cases "starts_with ''http://'' url \<or> starts_with ''https://'' url")
  case False
  with assms(2) show ?thesis by (auto simp: register_node_def)
next
  case True
  let ?lb1 = "add_node url (orch_lb o')"
  let ?lb2 = "snd (enable_node url ?lb1)"
  have inv: "lb_inv ?lb2" using assms(1) by (intro inv_intros)
  obtain n where n: "map_of (nodes ?lb1) url = Some n"
    by (cases "map_of (nodes (orch_lb o')) url") (auto simp: add_node_def)
  then have n2: "map_of (nodes ?lb2) url = Some (n\<lparr>enabled := True, disable_reason := None, consecutive_failures := 0\<rparr>)"
    by (simp add: enable_node_def)
  have "node_count ?lb2 = node_count ?lb1" using n by (simp add: enable_node_def node_count_def)
  then have new: "node_count ?lb2 > node_count (orch_lb o') \<longleftrightarrow> url \<notin> set (node_addresses (orch_lb o'))"
    by (auto simp: add_node_def node_count_def length_update node_addresses_def map_of_eq_None_iff)
  have others: "map_of (nodes ?lb2) a = map_of (nodes (orch_lb o')) a" if "a \<noteq> url" for a
    using that n by (auto simp: enable_node_def add_node_def)
  from True assms(2) have "r = Inr \<lparr>registered_url = url, is_new_registration = node_count ?lb2 > node_count (orch_lb o')\<rparr>"
    "o'' = o'\<lparr>orch_lb := ?lb2\<rparr>" by (auto simp: register_node_def Let_def)
  then show ?thesis using inv n2 new others lb_inv_enabled [OF inv, of url] by simp
qed

text \<open>
  Registration: a URL with an accepted scheme ends up in the pool and in rotation, with its
  failures forgotten, even when an operator had disabled the node by hand; it is reported as new
  exactly when the pool did not hold it; no other node changes. Any other URL changes nothing.
\<close>

theorem registration_enables:
  assumes "lb_inv (orch_lb o')" "register_node url o' = (r, o'')"
  shows "case r of
      Inl e \<Rightarrow> \<not> starts_with ''http://'' url \<and> \<not> starts_with ''https://'' url \<and> o'' = o'
    | Inr reply \<Rightarrow> lb_inv (orch_lb o'') \<and> url \<in> set (enabled_nodes (orch_lb o''))
        \<and> registered_url reply = url \<and> (is_new_registration reply \<longleftrightarrow> url \<notin> set (node_addresses (orch_lb o')))
        \<and> (\<exists>n. map_of (nodes (orch_lb o'')) url = Some n \<and> disable_reason n = None \<and> consecutive_failures n = 0)
        \<and> (\<forall>a. a \<noteq> url \<longrightarrow> map_of (nodes (orch_lb o'')) a = map_of (nodes (orch_lb o')) a)"
  using assms by (rule register_node_effect)

theorem registration_enables_witness:
  "''http://n'' \<in> set (enabled_nodes (orch_lb (snd (register_node ''http://n'' two_nodes))))"
proof -
  have "lb_inv (orch_lb two_nodes)" using two_nodes_ok by (simp add: lb_ok_def)
  moreover have "register_node ''http://n'' two_nodes
      = (Inr (projr (fst (register_node ''http://n'' two_nodes))), snd (register_node ''http://n'' two_nodes))"
    by (simp add: register_node_def starts_with_def Let_def)
  ultimately show ?thesis using registration_enables by fastforce
qed

end
