(* ===== verification/Auth.thy ===== *)
theory Auth
  imports Prelude
begin

text \<open>
  API-key authentication (\<open>madrpc-common/src/auth.rs\<close>). A string is the list of its bytes, as
  a \<open>char\<close> of the logic is a byte.
\<close>

record auth_config =
  api_key :: "string option"

definition with_api_key :: "string \<Rightarrow> auth_config" where
  "with_api_key k = \<lparr>api_key = Some k\<rparr>"

definition auth_disabled :: auth_config where
  "auth_disabled = \<lparr>api_key = None\<rparr>"

definition default_auth :: auth_config where
  "default_auth = auth_disabled"

definition requires_auth :: "auth_config \<Rightarrow> bool" where
  "requires_auth cfg = (api_key cfg \<noteq> None)"

definition auth_display :: "auth_config \<Rightarrow> string" where
  "auth_display cfg = (case api_key cfg of Some k \<Rightarrow> ''ApiKey(*****)'' | None \<Rightarrow> ''Disabled'')"

definition bytes :: "string \<Rightarrow> 8 word list" where
  "bytes s = map (\<lambda>c. of_nat (of_char c)) s"

text \<open>One step of the comparison: \<open>result |= byte_a ^ byte_b\<close>.\<close>

definition mix :: "8 word \<times> 8 word \<Rightarrow> 8 word \<Rightarrow> 8 word" where
  "mix p acc = or acc (xor (fst p) (snd p))"

definition constant_time_eq :: "string \<Rightarrow> string \<Rightarrow> bool" where
  "constant_time_eq a b = (if length (bytes a) \<noteq> length (bytes b) then False
     else fold mix (zip (bytes a) (bytes b)) 0 = 0)"

definition validate_api_key :: "string \<Rightarrow> auth_config \<Rightarrow> bool" where
  "validate_api_key provided cfg = (case api_key cfg of
     Some expected \<Rightarrow> constant_time_eq expected provided | None \<Rightarrow> True)"

definition extract_api_key :: "string option \<Rightarrow> string option" where
  "extract_api_key header_value = header_value"

lemma or_eq_0: "or a b = (0 :: 8 word) \<longleftrightarrow> a = 0 \<and> b = 0"
  by (rule or_eq_0_iff)

lemma xor_eq_0: "xor a b = (0 :: 8 word) \<longleftrightarrow> a = b"
  by (metis xor.left_neutral xor.assoc xor_self_eq)

lemma fold_mix: "fold mix ps acc = 0 \<longleftrightarrow> acc = 0 \<and> list_all (\<lambda>(a, b). a = b) ps"
  by (induction ps arbitrary: acc) (auto simp: mix_def or_eq_0 xor_eq_0)

lemma zip_all_eq: "length xs = length ys \<Longrightarrow> list_all (\<lambda>(a, b). a = b) (zip xs ys) \<longleftrightarrow> xs = ys"
  by (induction xs ys rule: list_induct2) auto

lemma bytes_eq_iff: "bytes a = bytes b \<longleftrightarrow> a = b"
proof -
  have "inj (\<lambda>c :: char. of_nat (of_char c) :: 8 word)"
  proof (rule injI)
    fix c d :: char assume eq: "(of_nat (of_char c) :: 8 word) = of_nat (of_char d)"
    have "unat (of_nat (of_char x) :: 8 word) = of_char x" for x :: char
      by (simp add: unsigned_of_nat take_bit_nat_eq_self)
    with eq have "(of_char c :: nat) = of_char d" by metis
    then show "c = d" by simp
  qed
  then show ?thesis unfolding bytes_def by (rule inj_map_eq_map)
qed

lemma constant_time_eq_iff: "constant_time_eq a b \<longleftrightarrow> a = b"
proof (cases "length (bytes a) = length (bytes b)")
  case True
  then show ?thesis by (simp add: constant_time_eq_def fold_mix zip_all_eq bytes_eq_iff)
qed (auto simp: constant_time_eq_def)

section \<open>Properties\<close>

text \<open>
  The accumulating comparison decides equality of the keys: with a key configured exactly that
  key is accepted, and without one every key is.
\<close>

theorem api_key_decides:
  "validate_api_key provided cfg = (api_key cfg \<in> {None, Some provided})"
  by (auto simp: validate_api_key_def constant_time_eq_iff split: option.split)

end
