(* ===== verification/HttpFront.thy ===== *)
theory HttpFront
  imports RateLimit Auth Client
begin

text \<open>
  What the two HTTP servers share: headers and replies, the functions of \<open>serde_json\<close> they call,
  the bodies of their refusals, and the gates every request passes first, the rate limiter and the
  check of the API key.
\<close>

section \<open>Headers and replies\<close>

text \<open>A header's value as text, \<open>None\<close> when it is not visible ASCII text (\<open>to_str\<close> fails).\<close>

type_synonym headers = "(string \<times> string option) list"

record http_reply =
  reply_status :: nat
  reply_headers :: "(string \<times> string) list"
  reply_body :: string

text \<open>
  \<open>serde_json\<close>: the parser of a body, the text of the errors for a tree that is not a request or
  not a registration, and the printer.
\<close>

record serde =
  parse_tree :: "string \<Rightarrow> string + json"
  request_shape :: "json \<Rightarrow> string"
  registration_shape :: "json \<Rightarrow> string"
  print_json :: "json \<Rightarrow> string"

text \<open>\<open>HttpTransport::to_http_response\<close>, \<open>to_http_response_with_status\<close> and \<open>to_http_error\<close>.\<close>

definition to_http_response_with_status :: "serde \<Rightarrow> json_rpc_response \<Rightarrow> nat \<Rightarrow> http_reply" where
  "to_http_response_with_status sd res status = \<lparr>reply_status = status,
     reply_headers = [(''Content-Type'', ''application/json'')], reply_body = print_json sd (response_to_json res)\<rparr>"

definition to_http_response :: "serde \<Rightarrow> json_rpc_response \<Rightarrow> http_reply" where
  "to_http_response sd res = \<lparr>reply_status = 200,
     reply_headers = [(''Content-Type'', ''application/json'')], reply_body = print_json sd (response_to_json res)\<rparr>"

definition to_http_error :: "serde \<Rightarrow> json \<Rightarrow> json_rpc_error \<Rightarrow> http_reply" where
  "to_http_error sd i e = to_http_response sd (rpc_error i e)"

section \<open>The gates\<close>

text \<open>\<open>headers.get("x-api-key").and_then(to_str).unwrap_or("")\<close>\<close>

definition provided_key :: "headers \<Rightarrow> string" where
  "provided_key hs = (case Option.bind (map_of hs ''x-api-key'') (\<lambda>v. v) of Some k \<Rightarrow> k | None \<Rightarrow> '''')"

definition auth_ok :: "auth_config \<Rightarrow> headers \<Rightarrow> bool" where
  "auth_ok cfg hs = (requires_auth cfg \<longrightarrow> validate_api_key (provided_key hs) cfg)"

text \<open>The bodies of the refusals, the same text in both servers.\<close>

definition unauthorized_body :: string where
  "unauthorized_body = ''{\"jsonrpc\":\"2.0\",\"error\":{\"code\":-401,\"message\":\"Unauthorized: Invalid or missing API key\"},\"id\":null}''"

definition retry_after_secs :: "duration option \<Rightarrow> string" where
  "retry_after_secs w = (case w of Some d \<Rightarrow> dec (d div 1000000000) | None \<Rightarrow> ''1'')"

text \<open>The object of the macro \<open>json!\<close>, whose map keeps its keys sorted.\<close>

definition rate_limited_json :: "string \<Rightarrow> json" where
  "rate_limited_json secs = JObject
     [(''error'', JObject [(''code'', JNumber (NegInt (- 429))), (''data'', JObject [(''retry_after'', JString secs)]),
        (''message'', JString ''Too Many Requests: Rate limit exceeded'')]),
      (''id'', JNull), (''jsonrpc'', JString ''2.0'')]"

section \<open>Facts about the gates\<close>

lemma auth_ok_iff: "auth_ok cfg hs \<longleftrightarrow> api_key cfg \<in> {None, Some (provided_key hs)}"
  by (auto simp: auth_ok_def requires_auth_def validate_api_key_def constant_time_eq_iff split: option.split)

text \<open>A server that asks for a key refuses every request that brings none.\<close>

lemma keyless_refused:
  assumes "map_of hs ''x-api-key'' = None" "k \<noteq> ''''"
  shows "\<not> auth_ok (with_api_key k) hs"
  using assms by (simp add: auth_ok_iff provided_key_def with_api_key_def)

lemma allowed_iff: "is_allowed r \<longleftrightarrow> r = Allowed"
  by (cases r) (simp_all add: is_allowed_def)

lemma check_rl_disabled [simp]: "check_rate_limit now created ip (rl_disabled t) = (Some Allowed, rl_disabled t)"
proof -
  have "(1000000 :: rat) \<le> (2 ^ 53 - 1) * 2 ^ 971"
  proof -
    have "(1000000 :: rat) * 1 \<le> (2 ^ 53 - 1) * 2 ^ 971" by (rule mult_mono) simp_all
    then show ?thesis by simp
  qed
  then show ?thesis by (intro check_disabled) (simp add: rl_disabled_def rl_new_def default_rate_config_def enabled_rate_def)
qed

text \<open>Reading back a printed response, as the client does.\<close>

definition prints :: "serde \<Rightarrow> http_lib \<Rightarrow> json \<Rightarrow> bool" where
  "prints sd lib j = (tree_of lib (print_json sd j) = Inr j)"

lemma i32_code_errors [simp]:
  "i32_code (server_error m)" "i32_code method_not_found" "i32_code (internal_error m)" "i32_code (invalid_params m)"
  "i32_code (node_registration_error m)" "i32_code parse_error" "i32_code invalid_request" "i32_code (request_too_large n)"
  by (simp_all add: i32_code_def rpc_error_defs PARSE_ERROR_def INVALID_REQUEST_def METHOD_NOT_FOUND_def
      INVALID_PARAMS_def INTERNAL_ERROR_def REQUEST_TOO_LARGE_def NODE_REGISTRATION_ERROR_def)

lemma read_response_view: "read_response (response_view r) = read_response r"
  by (cases "res_result r") (auto simp: read_response_def response_view_def null_to_none_def classify_error_def
      Let_def split: option.split)

lemma try_call_reply:
  assumes "uri_error lib base = None" "prints sd lib (response_to_json res)"
    and "\<And>e. res_error res = Some e \<Longrightarrow> i32_code e"
  shows "try_call lib base (Answered 200 (Inr (print_json sd (response_to_json res)))) = read_response res"
  using assms response_roundtrip_json [of res] read_response_view [of res]
  by (simp add: try_call_def prints_def is_success_def)

end
