(* ===== verification/OrchHttp.thy ===== *)
theory OrchHttp
  imports Orchestrator HttpFront
begin

text \<open>
  The orchestrator's front end: the router (\<open>madrpc-orchestrator/src/http_router.rs\<close>), which
  answers the built-in procedures and forwards the others, and the handler of the HTTP server
  (\<open>http_server.rs\<close>) with its gates, in the order of the code. The routes and the run of the
  server are in \<open>OrchServe\<close>.
\<close>

section \<open>Serialized answers\<close>

text \<open>\<open>InfoResponse\<close> carries its variant in the member \<open>server_type\<close>.\<close>

definition node_info_to_json :: "orchestrator_node_info \<Rightarrow> json" where
  "node_info_to_json n = JObject
     [(''addr'', JString (oni_addr n)), (''enabled'', JBool (oni_enabled n)),
      (''disable_reason'', (case oni_disable_reason n of None \<Rightarrow> JNull | Some r \<Rightarrow> JString r)),
      (''circuit_state'', JString (oni_circuit_state n)),
      (''consecutive_failures'', JNumber (PosInt (ucast (oni_consecutive_failures n))))]"

definition orchestrator_info_to_json :: "orchestrator_info \<Rightarrow> json" where
  "orchestrator_info_to_json i = JObject
     [(''server_type'', JString ''orchestrator''), (''version'', JString (oi_version i)),
      (''uptime_ms'', u64_json (oi_uptime_ms i)), (''total_nodes'', u64_json (of_nat (oi_total_nodes i))),
      (''enabled_nodes'', u64_json (of_nat (oi_enabled_nodes i))),
      (''disabled_nodes'', u64_json (of_nat (oi_disabled_nodes i))),
      (''nodes'', JArray (map node_info_to_json (oi_nodes i)))]"

section \<open>The router\<close>

definition handle_metrics :: "instant \<Rightarrow> json_rpc_request \<Rightarrow> orchestrator \<Rightarrow> json_rpc_response" where
  "handle_metrics now req o' = (case get_metrics now o' of
     Inr m \<Rightarrow> rpc_success (req_id req) (snapshot_to_json m)
   | Inl e \<Rightarrow> rpc_error (req_id req) (server_error (error_to_string e)))"

definition handle_info :: "string \<Rightarrow> instant \<Rightarrow> json_rpc_request \<Rightarrow> orchestrator \<Rightarrow> json_rpc_response" where
  "handle_info version now req o' = (case get_info version now o' of
     Inr i \<Rightarrow> rpc_success (req_id req) (orchestrator_info_to_json i)
   | Inl e \<Rightarrow> rpc_error (req_id req) (server_error (error_to_string e)))"

definition forward_to_node :: "http_lib \<Rightarrow> forward_env \<Rightarrow> string \<Rightarrow> json_rpc_request \<Rightarrow> orchestrator
    \<Rightarrow> (json_rpc_response \<times> orchestrator) option" where
  "forward_to_node lib env version req o' =
     map_option (\<lambda>(res, events, o'). (case res of
         Inr result \<Rightarrow> rpc_success (req_id req) result
       | Inl e \<Rightarrow> rpc_error (req_id req) (server_error (error_to_string e)), o'))
       (forward_request_jsonrpc lib env version req o')"

definition handle_register :: "serde \<Rightarrow> json_rpc_request \<Rightarrow> orchestrator \<Rightarrow> json_rpc_response \<times> orchestrator" where
  "handle_register sd req o' = (case registration_from_json (req_params req) of
     None \<Rightarrow> (rpc_error (req_id req) (invalid_params
       (''Invalid registration params: '' @ registration_shape sd (req_params req))), o')
   | Some url \<Rightarrow> (case register_node url o' of
       (Inr reply, o') \<Rightarrow> (rpc_success (req_id req) (registration_to_json reply), o')
     | (Inl e, o') \<Rightarrow> (rpc_error (req_id req) (node_registration_error (error_to_string e)), o')))"

definition orch_handle_request :: "serde \<Rightarrow> http_lib \<Rightarrow> forward_env \<Rightarrow> string \<Rightarrow> json_rpc_request \<Rightarrow> orchestrator
    \<Rightarrow> (json_rpc_response \<times> orchestrator) option" where
  "orch_handle_request sd lib env version req o' =
     (if req_method req = ''_metrics'' then Some (handle_metrics (fe_end env) req o', o')
      else if req_method req = ''_info'' then Some (handle_info version (fe_end env) req o', o')
      else if req_method req = ''_register'' then Some (handle_register sd req o')
      else forward_to_node lib env version req o')"

section \<open>The HTTP server\<close>

record orch_server =
  os_router :: orchestrator
  os_auth :: auth_config
  os_limiter :: rate_limiter

definition orch_server_new :: "instant \<Rightarrow> orchestrator \<Rightarrow> orch_server" where
  "orch_server_new t o' = \<lparr>os_router = o', os_auth = default_auth, os_limiter = rl_disabled t\<rparr>"

definition orch_with_auth :: "auth_config \<Rightarrow> orch_server \<Rightarrow> orch_server" where
  "orch_with_auth cfg s = s\<lparr>os_auth := cfg\<rparr>"

definition orch_with_rate_limit :: "instant \<Rightarrow> rate_limit_config \<Rightarrow> orch_server \<Rightarrow> orch_server" where
  "orch_with_rate_limit t cfg s = s\<lparr>os_limiter := rl_new cfg t\<rparr>"

text \<open>Replies built from text carry the headers the code sets; \<open>axum\<close> adds the type of the text.\<close>

definition orch_unauthorized :: http_reply where
  "orch_unauthorized = \<lparr>reply_status = 401, reply_headers = [], reply_body = unauthorized_body\<rparr>"

definition orch_rate_limited :: "serde \<Rightarrow> duration option \<Rightarrow> http_reply" where
  "orch_rate_limited sd w = \<lparr>reply_status = 429, reply_headers = [(''Retry-After'', retry_after_secs w)],
     reply_body = print_json sd (rate_limited_json (retry_after_secs w))\<rparr>"

definition orch_health_check :: http_reply where
  "orch_health_check = \<lparr>reply_status = 200, reply_headers = [], reply_body = ''OK''\<rparr>"

definition contains :: "string \<Rightarrow> string \<Rightarrow> bool" where
  "contains p s = list_ex (\<lambda>i. starts_with p (drop i s)) [0..<Suc (length s)]"

definition content_type_ok :: "headers \<Rightarrow> bool" where
  "content_type_ok hs = (case map_of hs ''content-type'' of
     None \<Rightarrow> True
   | Some v \<Rightarrow> contains ''application/json'' (case v of Some t \<Rightarrow> t | None \<Rightarrow> ''''))"

text \<open>
  \<open>handle_jsonrpc\<close>: \<open>now\<close> and \<open>created\<close> are the clock readings of the limiter, \<open>ip\<close> the address of
  the peer. \<open>None\<close> is a panic.
\<close>

definition handle_jsonrpc :: "serde \<Rightarrow> http_lib \<Rightarrow> forward_env \<Rightarrow> string \<Rightarrow> instant \<Rightarrow> instant \<Rightarrow> ip_addr \<Rightarrow> headers
    \<Rightarrow> string \<Rightarrow> orch_server \<Rightarrow> (http_reply \<times> orch_server) option" where
  "handle_jsonrpc sd lib env version now created ip hs body s =
     (case check_rate_limit now created ip (os_limiter s) of (verdict, limiter) \<Rightarrow>
      let s = s\<lparr>os_limiter := limiter\<rparr> in
      case verdict of
        None \<Rightarrow> None
      | Some result \<Rightarrow>
          if \<not> is_allowed result then Some (orch_rate_limited sd (retry_after result), s)
          else if requires_auth (os_auth s) \<and> \<not> validate_api_key (provided_key hs) (os_auth s)
          then Some (orch_unauthorized, s)
          else if \<not> content_type_ok hs
          then Some (\<lparr>reply_status = 415, reply_headers = [], reply_body = ''Content-Type must be application/json''\<rparr>, s)
          else case parse_jsonrpc (parse_tree sd) (request_shape sd) body of
            Inl e \<Rightarrow> Some (\<lparr>reply_status = 400, reply_headers = [],
              reply_body = ''Invalid JSON-RPC: '' @ error_to_string e\<rparr>, s)
          | Inr req \<Rightarrow> map_option (\<lambda>(res, o'). (\<lparr>reply_status = 200,
                reply_headers = [(''Content-Type'', ''application/json'')],
                reply_body = print_json sd (response_to_json res)\<rparr>, s\<lparr>os_router := o'\<rparr>))
              (orch_handle_request sd lib env version req (os_router s)))"

section \<open>Facts about the router\<close>

text \<open>Exactly one of result and error, under the version and the id of the request.\<close>

text \<open>What the router's responses are, before they are written as JSON.\<close>

definition proper :: "json \<Rightarrow> json_rpc_response \<Rightarrow> bool" where
  "proper i res = (res_jsonrpc res = ''2.0'' \<and> res_id res = i \<and> (res_result res = None \<longleftrightarrow> res_error res \<noteq> None)
     \<and> (\<forall>e. res_error res = Some e \<longrightarrow> i32_code e))"

lemma proper_built [simp]:
  "proper i (rpc_success i v)" "i32_code e \<Longrightarrow> proper i (rpc_error i e)"
  by (simp_all add: proper_def rpc_success_def rpc_error_def)

lemma forward_to_node_returns:
  assumes "\<not> is_metrics_request (req_method req)"
  obtains res events o'' where "forward_request_jsonrpc lib env version req o' = Some (res, events, o'')"
    "forward_to_node lib env version req o' = Some (case res of
         Inr result \<Rightarrow> rpc_success (req_id req) result
       | Inl e \<Rightarrow> rpc_error (req_id req) (server_error (error_to_string e)), o'')"
proof -
  obtain res events o'' where "forward_request_jsonrpc lib env version req o' = Some (res, events, o'')"
    using forward_returns [OF assms] by blast
  then show thesis by (intro that) (simp_all add: forward_to_node_def)
qed

lemma router_returns:
  "\<exists>res o''. orch_handle_request sd lib env version req o' = Some (res, o'') \<and> proper (req_id req) res"
proof (cases "is_metrics_request (req_method req) \<or> req_method req = ''_register''")
  case True
  then show ?thesis
    by (auto simp: is_metrics_request_def orch_handle_request_def handle_metrics_def get_metrics_def
        handle_info_def get_info_def Let_def handle_register_def split: option.split prod.split sum.split)
next
  case False
  then have "\<not> is_metrics_request (req_method req)" by simp
  from forward_to_node_returns [OF this, of lib env version o'] obtain res events o'' where
    "forward_to_node lib env version req o' = Some (case res of Inr result \<Rightarrow> rpc_success (req_id req) result
       | Inl e \<Rightarrow> rpc_error (req_id req) (server_error (error_to_string e)), o'')" by blast
  with False show ?thesis
    by (cases res) (auto simp: orch_handle_request_def is_metrics_request_def)
qed

section \<open>Properties\<close>

definition admitted :: "serde \<Rightarrow> rate_limit_result \<Rightarrow> headers \<Rightarrow> string \<Rightarrow> auth_config \<Rightarrow> bool" where
  "admitted sd result hs body cfg = (result = Allowed \<and> api_key cfg \<in> {None, Some (provided_key hs)}
     \<and> content_type_ok hs \<and> is_ok (parse_jsonrpc (parse_tree sd) (request_shape sd) body))"

text \<open>
  C11. The gates, in their order: a request reaches the router exactly when the limiter admits its
  address, its key is the configured one (or none is), its content type is acceptable and its
  body is a JSON-RPC request; only then the answer has status 200, and otherwise nothing but the
  limiter has changed. The limiter is charged in every case, before anything else is looked at.
\<close>

theorem admission:
  assumes "fst (check_rate_limit now created ip (os_limiter s)) = Some result"
  shows "case handle_jsonrpc sd lib env version now created ip hs body s of None \<Rightarrow> False
    | Some (reply, s') \<Rightarrow> os_limiter s' = snd (check_rate_limit now created ip (os_limiter s)) \<and> os_auth s' = os_auth s
        \<and> (reply_status reply = 200 \<longleftrightarrow> admitted sd result hs body (os_auth s))
        \<and> (\<not> admitted sd result hs body (os_auth s) \<longrightarrow> os_router s' = os_router s)
        \<and> (reply_status reply = 429 \<longleftrightarrow> result \<noteq> Allowed)
        \<and> (reply_status reply = 401 \<longleftrightarrow> result = Allowed \<and> api_key (os_auth s) \<notin> {None, Some (provided_key hs)})"
proof -
  obtain limiter where c: "check_rate_limit now created ip (os_limiter s) = (Some result, limiter)"
    using assms by (metis prod.collapse)
  have key: "(requires_auth (os_auth s) \<and> \<not> validate_api_key (provided_key hs) (os_auth s))
      = (api_key (os_auth s) \<notin> {None, Some (provided_key hs)})"
    using auth_ok_iff [of "os_auth s" hs] by (auto simp: auth_ok_def)
  note defs = handle_jsonrpc_def c Let_def allowed_iff admitted_def orch_rate_limited_def orch_unauthorized_def
  consider "result \<noteq> Allowed" | "result = Allowed" "api_key (os_auth s) \<notin> {None, Some (provided_key hs)}"
    | "result = Allowed" "api_key (os_auth s) \<in> {None, Some (provided_key hs)}" by blast
  then show ?thesis
  proof cases
    case 1
    then show ?thesis by (simp add: defs)
  next
    case 2
    then show ?thesis using key by (auto simp: defs)
  next
    case 3
    then have ok: "(requires_auth (os_auth s) \<and> \<not> validate_api_key (provided_key hs) (os_auth s)) = False"
      using key by simp
    obtain res o'' where "orch_handle_request sd lib env version (projr (parse_jsonrpc (parse_tree sd) (request_shape sd) body))
        (os_router s) = Some (res, o'')" using router_returns by blast
    with 3 show ?thesis
      by (cases "parse_jsonrpc (parse_tree sd) (request_shape sd) body") (simp_all add: defs ok)
  qed
qed

definition some_serde :: serde where
  "some_serde = \<lparr>parse_tree = (\<lambda>_. Inl ''eof''), request_shape = (\<lambda>_. ''shape''), registration_shape = (\<lambda>_. ''shape''),
     print_json = (\<lambda>_. ''{}'')\<rparr>"

theorem admission_witness:
  "case handle_jsonrpc some_serde down_lib (idle_env (\<lambda>_ _. down_net)) ''1'' 5 5 (V4 1) [(''x-api-key'', Some ''k'')] ''x''
      (orch_with_auth (with_api_key ''secret'') (orch_server_new 0 two_nodes)) of None \<Rightarrow> False
    | Some (reply, s') \<Rightarrow> reply_status reply = 401 \<and> os_router s' = two_nodes"
proof -
  let ?s = "orch_with_auth (with_api_key ''secret'') (orch_server_new 0 two_nodes)"
  have "fst (check_rate_limit 5 5 (V4 1) (os_limiter ?s)) = Some Allowed"
    by (simp add: orch_with_auth_def orch_server_new_def)
  from admission [OF this, where sd = some_serde and lib = down_lib and env = "idle_env (\<lambda>_ _. down_net)"
      and version = "''1''" and hs = "[(''x-api-key'', Some ''k'')]" and body = "''x''"]
  show ?thesis
    by (simp add: orch_with_auth_def orch_server_new_def with_api_key_def admitted_def provided_key_def
        split: option.splits prod.splits)
qed

text \<open>
  C30. Every answer with status 200 is a JSON-RPC 2.0 response to the request in the body: an object with
  the version, the id of the request and both members \<open>result\<close> and \<open>error\<close>, of which the one not in use is null:
  a success has a null error, a failure has a null result and an error whose code fits the protocol's type. (The
  documents have the unused member left out, and a success whose value is null differs from a failure by its error
  alone.)
\<close>

theorem replies_are_responses:
  assumes "handle_jsonrpc sd lib env version now created ip hs body s = Some (reply, s')" "reply_status reply = 200"
  shows "\<exists>req result error. parse_jsonrpc (parse_tree sd) (request_shape sd) body = Inr req
    \<and> reply_body reply = print_json sd (JObject [(''jsonrpc'', JString ''2.0''), (''result'', result), (''error'', error), (''id'', req_id req)])
    \<and> (error = JNull \<or> result = JNull \<and> (\<exists>e. i32_code e \<and> error = error_to_json e))"
proof -
  obtain verdict limiter where c: "check_rate_limit now created ip (os_limiter s) = (verdict, limiter)" by fastforce
  from assms obtain req where req: "parse_jsonrpc (parse_tree sd) (request_shape sd) body = Inr req"
    by (auto simp: handle_jsonrpc_def c orch_rate_limited_def orch_unauthorized_def
        Let_def split: option.splits if_splits sum.splits)
  obtain res o'' where r: "orch_handle_request sd lib env version req (os_router s) = Some (res, o'')"
    "proper (req_id req) res" using router_returns by blast
  from assms req r have body: "reply_body reply = print_json sd (response_to_json res)"
    by (auto simp: handle_jsonrpc_def c orch_rate_limited_def orch_unauthorized_def Let_def split: option.splits if_splits)
  from r(2) show ?thesis using req body
    by (cases "res_error res") (auto simp: proper_def response_to_json_def)
qed

definition some_call :: json where
  "some_call = request_to_json some_request"

definition open_serde :: serde where
  "open_serde = some_serde\<lparr>parse_tree := (\<lambda>_. Inr some_call)\<rparr>"

theorem replies_are_responses_witness:
  "\<exists>reply s'. handle_jsonrpc open_serde down_lib (idle_env (\<lambda>_ _. down_net)) ''1'' 5 5 (V4 1) [] ''x'' (orch_server_new 0 two_nodes)
      = Some (reply, s') \<and> (\<exists>result error.
        reply_body reply = print_json open_serde (JObject [(''jsonrpc'', JString ''2.0''), (''result'', result), (''error'', error),
          (''id'', req_id some_request)])
        \<and> (error = JNull \<or> result = JNull \<and> (\<exists>e. i32_code e \<and> error = error_to_json e)))"
proof -
  let ?s = "orch_server_new 0 two_nodes"
  have c: "check_rate_limit 5 5 (V4 1) (os_limiter ?s) = (Some Allowed, os_limiter ?s)"
    by (simp add: orch_server_new_def)
  have p: "parse_jsonrpc (parse_tree open_serde) (request_shape open_serde) ''x'' = Inr some_request"
    by (simp add: parse_jsonrpc_def open_serde_def MAX_PAYLOAD_SIZE_def some_call_def request_roundtrip_json)
  obtain res o'' where "orch_handle_request open_serde down_lib (idle_env (\<lambda>_ _. down_net)) ''1'' some_request (os_router ?s)
      = Some (res, o'')" using router_returns by blast
  then have h: "\<exists>reply s'. handle_jsonrpc open_serde down_lib (idle_env (\<lambda>_ _. down_net)) ''1'' 5 5 (V4 1) [] ''x'' ?s
      = Some (reply, s') \<and> reply_status reply = 200"
    by (simp add: handle_jsonrpc_def c p Let_def allowed_iff content_type_ok_def orch_server_new_def default_auth_def
        auth_disabled_def requires_auth_def)
  then obtain reply s' where h: "handle_jsonrpc open_serde down_lib (idle_env (\<lambda>_ _. down_net)) ''1'' 5 5 (V4 1) [] ''x'' ?s
      = Some (reply, s')" "reply_status reply = 200" by blast
  from replies_are_responses [OF h] h(1) p show ?thesis by auto
qed

end
