(* ===== verification/OrchServe.thy ===== *)
theory OrchServe
  imports Gated OrchHttp
begin

text \<open>
  The orchestrator as it is served (\<open>madrpc-orchestrator/src/http_server.rs\<close>, \<open>HttpServer::run\<close>): binding, the two
  routes, and the requests one after the other. Reading a body, answering what no route takes,
  and the CORS layer are those of \<open>axum\<close>; its answers are up to the environment.
\<close>

section \<open>Routes\<close>

text \<open>
  A request with the readings of the limiter's clock. The handler takes the body through an
  extractor, which runs before the handler does: \<open>Inl\<close> is the answer of \<open>axum\<close> when it fails.
\<close>

record incoming =
  in_method :: string
  in_path :: string
  in_headers :: headers
  in_body :: "http_reply + string"
  in_arrival :: arrival
  in_env :: forward_env

definition to_rpc :: "incoming \<Rightarrow> bool" where
  "to_rpc r \<longleftrightarrow> in_path r = ''/'' \<and> in_method r = ''POST''"

text \<open>The answer, or \<open>None\<close> if the handler panics, which ends the connection; then the limiter has been charged.\<close>

definition route_request :: "serde \<Rightarrow> http_lib \<Rightarrow> string \<Rightarrow> (incoming \<Rightarrow> http_reply) \<Rightarrow> incoming \<Rightarrow> orch_server
    \<Rightarrow> http_reply option \<times> orch_server" where
  "route_request sd lib version unmatched r s =
     (if to_rpc r then (case in_body r of
         Inl rejection \<Rightarrow> (Some rejection, s)
       | Inr body \<Rightarrow> (case in_arrival r of (now, created, ip) \<Rightarrow>
           (case handle_jsonrpc sd lib (in_env r) version now created ip (in_headers r) body s of
             Some (reply, s) \<Rightarrow> (Some reply, s)
           | None \<Rightarrow> (None, s\<lparr>os_limiter := snd (check_rate_limit now created ip (os_limiter s))\<rparr>))))
      else if in_path r = ''/__health'' \<and> in_method r = ''GET'' then (Some orch_health_check, s)
      else (Some (unmatched r), s))"

primrec orch_serve :: "serde \<Rightarrow> http_lib \<Rightarrow> string \<Rightarrow> (incoming \<Rightarrow> http_reply) \<Rightarrow> incoming list \<Rightarrow> orch_server
    \<Rightarrow> http_reply option list \<times> orch_server" where
  "orch_serve sd lib version unmatched [] s = ([], s)"
| "orch_serve sd lib version unmatched (r # rs) s =
     (case route_request sd lib version unmatched r s of (reply, s) \<Rightarrow>
      case orch_serve sd lib version unmatched rs s of (replies, s) \<Rightarrow> (reply # replies, s))"

text \<open>\<open>run\<close>: the errors of binding, of reading the bound address for the log, and of \<open>axum::serve\<close>.\<close>

definition orch_run :: "serde \<Rightarrow> http_lib \<Rightarrow> string \<Rightarrow> (incoming \<Rightarrow> http_reply) \<Rightarrow> string \<Rightarrow> string option \<Rightarrow> string option
    \<Rightarrow> string option \<Rightarrow> incoming list \<Rightarrow> orch_server \<Rightarrow> unit result \<times> http_reply option list \<times> orch_server" where
  "orch_run sd lib version unmatched address bind_error local_error serve_error rs s =
     (case bind_error of Some e \<Rightarrow> (Inl (Transport (''Failed to bind to '' @ address @ '': '' @ e)), [], s)
      | None \<Rightarrow> (case local_error of Some e \<Rightarrow> (Inl (Transport (''Failed to get local addr: '' @ e)), [], s)
      | None \<Rightarrow> ((case serve_error of Some e \<Rightarrow> Inl (Transport (''Server error: '' @ e)) | None \<Rightarrow> Inr ()),
                 orch_serve sd lib version unmatched rs s)))"

section \<open>The limiter behind the routes\<close>

text \<open>A request and its answer, as a label of the server's steps.\<close>

type_synonym exchange = "incoming \<times> http_reply option"

definition serve_step :: "serde \<Rightarrow> http_lib \<Rightarrow> string \<Rightarrow> (incoming \<Rightarrow> http_reply) \<Rightarrow> orch_server \<Rightarrow> exchange \<Rightarrow> orch_server \<Rightarrow> bool" where
  "serve_step sd lib version unmatched s x s' \<longleftrightarrow> route_request sd lib version unmatched (fst x) s = (snd x, s')"

lemma serve_steps:
  "orch_serve sd lib version unmatched rs s = (replies, s') \<Longrightarrow> steps (serve_step sd lib version unmatched) s (zip rs replies) s'"
proof (induction rs arbitrary: s replies s')
  case (Cons r rs)
  obtain reply s1 where r: "route_request sd lib version unmatched r s = (reply, s1)" by (rule prod.exhaust)
  obtain more s2 where m: "orch_serve sd lib version unmatched rs s1 = (more, s2)" by (rule prod.exhaust)
  have "serve_step sd lib version unmatched s (r, reply) s1" using r by (simp add: serve_step_def)
  from steps.then_ [OF this Cons.IH [OF m]] Cons.prems r m show ?case by auto
qed (auto intro: steps.stop)

text \<open>The limiter is asked by the requests whose body could be read, and only by these.\<close>

definition charged :: "exchange \<Rightarrow> arrival option" where
  "charged x = (if to_rpc (fst x) \<and> \<not> isl (in_body (fst x)) then Some (in_arrival (fst x)) else None)"

definition answered_to :: "ip_addr \<Rightarrow> exchange \<Rightarrow> bool" where
  "answered_to ip x = (case charged x of None \<Rightarrow> False
     | Some a \<Rightarrow> arrival_ip a = ip \<and> (case snd x of None \<Rightarrow> False | Some reply \<Rightarrow> reply_status reply \<noteq> 429))"

lemma jsonrpc_limiter:
  assumes "handle_jsonrpc sd lib env version now created ip hs body s = Some (reply, s')"
  shows "os_limiter s' = snd (check_rate_limit now created ip (os_limiter s))
    \<and> (reply_status reply \<noteq> 429 \<longrightarrow> fst (check_rate_limit now created ip (os_limiter s)) = Some Allowed)"
  using assms
  by (cases "check_rate_limit now created ip (os_limiter s)")
    (auto simp: handle_jsonrpc_def Let_def orch_rate_limited_def allowed_iff split: option.splits if_splits sum.splits)

lemma serve_moves:
  assumes "serve_step sd lib version unmatched s x s'"
  shows "limiter_moves (os_limiter s) (charged x) (\<lambda>ip. answered_to ip x) (os_limiter s')"
proof (cases "to_rpc (fst x) \<and> \<not> isl (in_body (fst x))")
  case True
  then obtain body where b: "in_body (fst x) = Inr body" by (cases "in_body (fst x)") auto
  obtain now created ip where a: "in_arrival (fst x) = (now, created, ip)" by (rule prod_cases3)
  show ?thesis
  proof (cases "handle_jsonrpc sd lib (in_env (fst x)) version now created ip (in_headers (fst x)) body s")
    case None
    with assms True a b show ?thesis
      by (auto simp: serve_step_def route_request_def limiter_moves_def answered_to_def charged_def split: prod.split)
  next
    case (Some y)
    obtain reply s1 where y: "y = (reply, s1)" by (rule prod.exhaust)
    with assms True a b Some have "snd x = Some reply" "s' = s1" by (auto simp: serve_step_def route_request_def)
    with jsonrpc_limiter [OF Some [unfolded y]] True a b show ?thesis
      by (auto simp: limiter_moves_def answered_to_def charged_def split: prod.split)
  qed
next
  case False
  with assms show ?thesis
    by (auto simp: serve_step_def route_request_def limiter_moves_def answered_to_def charged_def split: if_splits sum.splits)
qed

interpretation served: limited_system "serve_step sd lib version unmatched" os_limiter charged answered_to
  for sd lib version unmatched
  by standard (rule serve_moves)

section \<open>Properties\<close>

text \<open>
  The budget of an address at the orchestrator: in any run of the server with a rate limit set, the
  answers of the JSON-RPC route to an address that are not refusals of the limiter are at most the
  burst size plus the rate times the length of the window, plus \<open>2 ^ -17\<close> of one for each request, for rounding. A
  request whose body \<open>axum\<close> could not read is not charged, and the health route has no limit.
\<close>

theorem orchestrator_budget:
  assumes "orch_run sd lib version unmatched address bind_error local_error serve_error rs s = (outcome, replies, s')"
    and "os_limiter s = rl_new cfg t0"
    and "rate_ok cfg" "refills_in_ttl cfg" "enabled_rate cfg" "requests_per_second cfg = Fin r"
    and "in_order t (arrivals charged (zip rs replies))" "t \<le> T"
    and "\<forall>a \<in> set (arrivals charged (zip rs replies)). fst a \<le> T" "T < 2 ^ 53 * 1000000000"
  shows "of_nat (count_labels (answered_to ip) (zip rs replies))
     \<le> burst_of cfg + r * secs_of (T - t) + of_nat (length (arrivals charged (zip rs replies))) / 131072"
proof -
  have "steps (serve_step sd lib version unmatched) s (zip rs replies) s'"
    using assms(1) serve_steps by (auto simp: orch_run_def intro: steps.stop split: option.splits)
  from served.budget [OF this assms(2-10)] show ?thesis .
qed

text \<open>A call and a question for the health of an orchestrator that allows one request a second.\<close>

definition plain_call :: incoming where
  "plain_call = \<lparr>in_method = ''POST'', in_path = ''/'', in_headers = [], in_body = Inr ''{}'', in_arrival = (5, 6, V4 7),
     in_env = idle_env (\<lambda>_ _ _. echo_net)\<rparr>"

theorem orchestrator_budget_witness:
  "let s = orch_with_rate_limit 3 (per_minute 60) (orch_server_new 0 two_nodes);
       rs = [plain_call, plain_call\<lparr>in_method := ''GET'', in_path := ''/__health''\<rparr>]
   in of_nat (count_labels (answered_to (V4 7)) (zip rs (fst (orch_serve open_serde echo_lib ''1'' (\<lambda>_. orch_health_check) rs s))))
     \<le> burst_of (per_minute 60) + 1 * secs_of (9 - 5) + 1 / 131072"
proof -
  let ?s = "orch_with_rate_limit 3 (per_minute 60) (orch_server_new 0 two_nodes)"
  let ?rs = "[plain_call, plain_call\<lparr>in_method := ''GET'', in_path := ''/__health''\<rparr>]"
  obtain replies s' where run: "orch_serve open_serde echo_lib ''1'' (\<lambda>_. orch_health_check) ?rs ?s = (replies, s')"
    by (rule prod.exhaust)
  then have r: "orch_run open_serde echo_lib ''1'' (\<lambda>_. orch_health_check) ''h:1'' None None None ?rs ?s = (Inr (), replies, s')"
    by (simp add: orch_run_def)
  have rate: "requests_per_second (per_minute 60) = Fin 1"
    by (simp add: per_minute_def per_second_def rate_config_new_def f_of_nat_def)
  have "length replies = 2" using run by (auto split: prod.splits)
  then obtain a b where "replies = [a, b]" by (auto simp: numeral_2_eq_2 length_Suc_conv)
  then have arr: "arrivals charged (zip ?rs replies) = [(5, 6, V4 7)]"
    by (simp add: charged_def to_rpc_def plain_call_def)
  from orchestrator_budget [OF r _ _ _ _ rate, where t = 5 and T = 9 and ip = "V4 7" and ?t0.0 = 3] arr run show ?thesis
    by (simp add: orch_with_rate_limit_def per_minute_ok)
qed

end
