(* ===== verification/JobExecutor.thy ===== *)
theory JobExecutor
  imports Prelude "HOL-Library.Multiset"
begin

text \<open>
  The job queues of the JavaScript runtime (\<open>madrpc-server/src/runtime/job_executor.rs\<close>). The
  engine's jobs are a type variable: what a job does to the engine's context, and which jobs it
  queues meanwhile, is a function of the environment, and so is which of the pending asynchronous
  jobs a poll finds completed.
\<close>

datatype 'j job = PromiseJob 'j | AsyncJob 'j | GenericJob 'j | OtherJob 'j

record 'j queues =
  promise_jobs :: "'j list"
  async_jobs :: "'j list"
  generic_jobs :: "'j list"

definition queues_new :: "'j queues" where
  "queues_new = \<lparr>promise_jobs = [], async_jobs = [], generic_jobs = []\<rparr>"

definition has_pending_jobs :: "'j queues \<Rightarrow> bool" where
  "has_pending_jobs q = (promise_jobs q \<noteq> [] \<or> async_jobs q \<noteq> [] \<or> generic_jobs q \<noteq> [])"

fun enqueue_job :: "'j job \<Rightarrow> 'j queues \<Rightarrow> 'j queues" where
  "enqueue_job (PromiseJob j) q = q\<lparr>promise_jobs := promise_jobs q @ [j]\<rparr>"
| "enqueue_job (AsyncJob j) q = q\<lparr>async_jobs := async_jobs q @ [j]\<rparr>"
| "enqueue_job (GenericJob j) q = q\<lparr>generic_jobs := generic_jobs q @ [j]\<rparr>"
| "enqueue_job (OtherJob j) q = q"

text \<open>
  \<open>je_exec j c\<close> runs a job, errors being logged only; \<open>je_clear\<close> is \<open>clear_kept_objects\<close>;
  \<open>je_ready k started\<close> is the position of the job that poll \<open>k\<close> finds completed, if any.
\<close>

record ('j, 'c) job_env =
  je_exec :: "'j \<Rightarrow> 'c \<Rightarrow> 'c \<times> 'j job list"
  je_clear :: "'c \<Rightarrow> 'c"
  je_ready :: "nat \<Rightarrow> 'j list \<Rightarrow> nat option"

definition run_job :: "('j, 'c) job_env \<Rightarrow> 'j \<Rightarrow> 'c \<times> 'j queues \<Rightarrow> 'c \<times> 'j queues" where
  "run_job env j s = (case je_exec env j (fst s) of (c, new) \<Rightarrow> (c, fold enqueue_job new (snd s)))"

fun is_generic :: "'j job \<Rightarrow> bool" where
  "is_generic (GenericJob j) = True"
| "is_generic _ = False"

text \<open>
  \<open>drain_jobs\<close>. The generic job runs while the queue it was taken from is still mutably borrowed
  (the borrow lives as long as the \<open>if let\<close>), so a generic job that queues another one panics:
  \<open>None\<close>.
\<close>

definition drain_jobs :: "('j, 'c) job_env \<Rightarrow> 'c \<times> 'j queues \<Rightarrow> ('c \<times> 'j queues) option" where
  "drain_jobs env s =
     (let after_generic = (case generic_jobs (snd s) of
            [] \<Rightarrow> Some s
          | j # js \<Rightarrow>
              if list_ex is_generic (snd (je_exec env j (fst s))) then None
              else Some (run_job env j (fst s, (snd s)\<lparr>generic_jobs := js\<rparr>)))
      in map_option (\<lambda>s.
           let jobs = promise_jobs (snd s);
               s = fold (run_job env) jobs (fst s, (snd s)\<lparr>promise_jobs := []\<rparr>)
           in (je_clear env (fst s), snd s)) after_generic)"

text \<open>One poll of the jobs in flight, which runs at most one to its end.\<close>

definition poll_once :: "('j, 'c) job_env \<Rightarrow> nat \<Rightarrow> 'j list \<Rightarrow> 'c \<times> 'j queues \<Rightarrow> 'j list \<times> 'c \<times> 'j queues" where
  "poll_once env k started s = (case je_ready env k started of
       None \<Rightarrow> (started, s)
     | Some i \<Rightarrow> if i < length started
         then (take i started @ drop (Suc i) started, run_job env (started ! i) s) else (started, s))"

datatype 'a outcome = Finished 'a | Panicked | Unfinished

text \<open>
  \<open>run_jobs_async\<close>: turn \<open>k\<close> of the loop, with \<open>started\<close> the asynchronous jobs started and not yet
  completed. The loop need not end, so \<open>fuel\<close> bounds its turns.
\<close>

primrec run_jobs_async :: "('j, 'c) job_env \<Rightarrow> nat \<Rightarrow> nat \<Rightarrow> 'j list \<Rightarrow> 'c \<times> 'j queues
    \<Rightarrow> ('c \<times> 'j queues) outcome" where
  "run_jobs_async env 0 k started s = Unfinished"
| "run_jobs_async env (Suc fuel) k started s =
     (let started = started @ async_jobs (snd s);
          s = (fst s, (snd s)\<lparr>async_jobs := []\<rparr>)
      in if started = [] \<and> promise_jobs (snd s) = [] \<and> generic_jobs (snd s) = [] then Finished s
      else
        let (started, s) = poll_once env k started s
        in case drain_jobs env s of
             None \<Rightarrow> Panicked
           | Some s \<Rightarrow> run_jobs_async env fuel (Suc k) started s)"

text \<open>
  \<open>run_jobs\<close>, the blocking version, looks for a runtime of \<open>tokio\<close> and blocks on a runtime of its own. What
  \<open>tokio\<close> does is that of the thread: its current runtime, whether a new one can be built (\<open>unwrap\<close>
  panics), and whether \<open>block_on\<close> runs its future or panics, as it does on a thread that drives
  asynchronous tasks; the argument is whether it is called inside \<open>block_in_place\<close>, which takes the thread
  off its tasks.
\<close>

datatype runtime_flavor = CurrentThread | MultiThread

record tokio_thread =
  tt_current :: "runtime_flavor option"
  tt_builds :: bool
  tt_blocks :: "bool \<Rightarrow> bool"

definition block_on_new :: "tokio_thread \<Rightarrow> bool \<Rightarrow> 'a outcome \<Rightarrow> 'a outcome" where
  "block_on_new t in_place future =
     (if \<not> tt_builds t then Panicked else if tt_blocks t in_place then future else Panicked)"

definition run_jobs :: "tokio_thread \<Rightarrow> ('j, 'c) job_env \<Rightarrow> nat \<Rightarrow> 'c \<times> 'j queues \<Rightarrow> ('c \<times> 'j queues) outcome" where
  "run_jobs t env fuel s = (case tt_current t of
       Some MultiThread \<Rightarrow> block_on_new t True (run_jobs_async env fuel 0 [] s)
     | Some CurrentThread \<Rightarrow> block_on_new t False (run_jobs_async env fuel 0 [] s)
     | None \<Rightarrow> block_on_new t False (run_jobs_async env fuel 0 [] s))"

definition can_block :: "tokio_thread \<Rightarrow> bool" where
  "can_block t \<longleftrightarrow> tt_builds t \<and> tt_blocks t (tt_current t = Some MultiThread)"

lemma run_jobs_eq: "run_jobs t env fuel s = (if can_block t then run_jobs_async env fuel 0 [] s else Panicked)"
  by (auto simp: run_jobs_def block_on_new_def can_block_def split: option.split runtime_flavor.split)

text \<open>A thread outside of \<open>tokio\<close>, and one that drives the tasks of a current-thread runtime.\<close>

definition plain_thread :: tokio_thread where
  "plain_thread = \<lparr>tt_current = None, tt_builds = True, tt_blocks = (\<lambda>_. True)\<rparr>"

definition driving_thread :: tokio_thread where
  "driving_thread = \<lparr>tt_current = Some CurrentThread, tt_builds = True, tt_blocks = (\<lambda>in_place. in_place)\<rparr>"

lemma threads_block [simp]: "can_block plain_thread" "\<not> can_block driving_thread"
  by (simp_all add: can_block_def plain_thread_def driving_thread_def)

section \<open>Every job is run once\<close>

fun job_of :: "'j job \<Rightarrow> 'j multiset" where
  "job_of (OtherJob j) = {#}"
| "job_of (PromiseJob j) = {#j#}"
| "job_of (AsyncJob j) = {#j#}"
| "job_of (GenericJob j) = {#j#}"

definition waiting :: "'j queues \<Rightarrow> 'j multiset" where
  "waiting q = mset (promise_jobs q) + mset (async_jobs q) + mset (generic_jobs q)"

lemma waiting_enqueue: "waiting (fold enqueue_job new q) = waiting q + sum_list (map job_of new)"
proof (induction new arbitrary: q)
  case (Cons j new)
  have "waiting (enqueue_job j q) = waiting q + job_of j" by (cases j) (simp_all add: waiting_def)
  then show ?case by (simp add: Cons.IH ac_simps)
qed simp

lemma waiting_pending: "waiting q = {#} \<longleftrightarrow> \<not> has_pending_jobs q"
  by (auto simp: waiting_def has_pending_jobs_def)

text \<open>An environment that also keeps a log of the jobs run and of those they queue.\<close>

definition logged :: "('j, 'c) job_env \<Rightarrow> ('j, 'c \<times> 'j multiset \<times> 'j multiset) job_env" where
  "logged env = \<lparr>je_exec = (\<lambda>j (c, executed, queued). case je_exec env j c of (c', new) \<Rightarrow>
       ((c', executed + {#j#}, queued + sum_list (map job_of new)), new)),
     je_clear = (\<lambda>(c, executed, queued). (je_clear env c, executed, queued)),
     je_ready = je_ready env\<rparr>"

text \<open>What is run or waits is what waited at the start or was queued since.\<close>

definition balance :: "'j multiset \<Rightarrow> 'j multiset \<Rightarrow> ('c \<times> 'j multiset \<times> 'j multiset) \<times> 'j queues \<Rightarrow> bool" where
  "balance start held s \<longleftrightarrow> fst (snd (fst s)) + held + waiting (snd s) = start + snd (snd (fst s))"

lemma balance_run_job:
  assumes "balance start (held + {#j#}) s"
  shows "balance start held (run_job (logged env) j s)"
proof -
  obtain c executed queued q where s: "s = ((c, executed, queued), q)" by (metis prod.collapse)
  obtain c' new where e: "je_exec env j c = (c', new)" by fastforce
  from assms show ?thesis
    by (simp add: balance_def run_job_def logged_def s e waiting_enqueue) (simp add: ac_simps)
qed

lemma balance_run_jobs:
  "balance start (held + mset js) s \<Longrightarrow> balance start held (fold (run_job (logged env)) js s)"
proof (induction js arbitrary: s)
  case (Cons j js)
  then have "balance start (held + mset js) (run_job (logged env) j s)"
    by (intro balance_run_job) (simp add: ac_simps)
  then show ?case by (simp add: Cons.IH)
qed simp

lemma balance_take:
  "balance start held (c, q) \<Longrightarrow> balance start (held + mset (promise_jobs q)) (c, q\<lparr>promise_jobs := []\<rparr>)"
  "balance start held (c, q) \<Longrightarrow> balance start (held + mset (async_jobs q)) (c, q\<lparr>async_jobs := []\<rparr>)"
  "balance start held (c, q) \<Longrightarrow> generic_jobs q = j # js \<Longrightarrow> balance start (held + {#j#}) (c, q\<lparr>generic_jobs := js\<rparr>)"
  by (simp_all add: balance_def waiting_def ac_simps)

lemma balance_drain:
  assumes "drain_jobs (logged env) s = Some s'" "balance start held s"
  shows "balance start held s'"
proof -
  obtain c q where s: "s = (c, q)" by (cases s)
  obtain c1 q1 where b1: "balance start held (c1, q1)"
    and s': "s' = (let t = fold (run_job (logged env)) (promise_jobs q1) (c1, q1\<lparr>promise_jobs := []\<rparr>)
      in (je_clear (logged env) (fst t), snd t))"
  proof (cases "generic_jobs q")
    case Nil
    with assms show thesis by (intro that [of c q]) (simp_all add: drain_jobs_def s Let_def)
  next
    case (Cons j js)
    let ?t = "run_job (logged env) j (c, q\<lparr>generic_jobs := js\<rparr>)"
    have "balance start held ?t"
      using balance_take(3) [OF assms(2) [unfolded s] Cons] by (rule balance_run_job)
    with assms(1) Cons show thesis
      by (intro that [of "fst ?t" "snd ?t"]) (auto simp: drain_jobs_def s Let_def split: if_splits)
  qed
  let ?t = "fold (run_job (logged env)) (promise_jobs q1) (c1, q1\<lparr>promise_jobs := []\<rparr>)"
  have "balance start held ?t" using balance_take(1) [OF b1] by (rule balance_run_jobs)
  then show ?thesis by (simp add: s' Let_def balance_def logged_def split_beta)
qed

lemma balance_poll:
  assumes "poll_once (logged env) k started s = (started', s')" "balance start (mset started) s"
  shows "balance start (mset started') s'"
proof (cases "\<exists>i. je_ready (logged env) k started = Some i \<and> i < length started")
  case True
  then obtain i where i: "je_ready (logged env) k started = Some i" "i < length started" by blast
  have "mset (take i started) + {#started ! i#} + mset (drop (Suc i) started) = mset started"
    using arg_cong [OF id_take_nth_drop [OF i(2)], of mset] by simp
  then have "mset started = mset (take i started @ drop (Suc i) started) + {#started ! i#}" by (simp add: ac_simps)
  with assms(2) have "balance start (mset (take i started @ drop (Suc i) started) + {#started ! i#}) s" by metis
  then have "balance start (mset (take i started @ drop (Suc i) started)) (run_job (logged env) (started ! i) s)"
    by (rule balance_run_job)
  with assms(1) i show ?thesis by (simp add: poll_once_def)
next
  case False
  with assms show ?thesis by (auto simp: poll_once_def split: option.splits if_splits)
qed

lemma balance_run:
  "run_jobs_async (logged env) fuel k started s = Finished s' \<Longrightarrow> balance start (mset started) s
   \<Longrightarrow> balance start {#} s' \<and> \<not> has_pending_jobs (snd s')"
proof (induction fuel arbitrary: k started s)
  case (Suc fuel)
  obtain c q where s: "s = (c, q)" by (cases s)
  let ?g = "started @ async_jobs q"
  let ?s = "(c, q\<lparr>async_jobs := []\<rparr>)"
  have b: "balance start (mset ?g) ?s" using balance_take(2) [OF Suc.prems(2) [unfolded s]] by simp
  show ?case
  proof (cases "?g = [] \<and> promise_jobs q = [] \<and> generic_jobs q = []")
    case True
    with Suc.prems(1) b show ?thesis by (auto simp: s Let_def has_pending_jobs_def)
  next
    case False
    obtain g t where gt: "poll_once (logged env) k ?g ?s = (g, t)" by (metis surj_pair)
    from Suc.prems(1) False gt obtain t' where t': "drain_jobs (logged env) t = Some t'"
      "run_jobs_async (logged env) fuel (Suc k) g t' = Finished s'"
      by (auto simp: s Let_def split: option.splits)
    from Suc.IH [OF t'(2) balance_drain [OF t'(1) balance_poll [OF gt b]]] show ?thesis .
  qed
qed simp

section \<open>When the loop ends\<close>

text \<open>
  A weight of jobs that what a job queues does not reach together: the jobs of a script whose work
  is finite have one. A job of a kind that is dropped weighs nothing.
\<close>

fun job_weight :: "('j \<Rightarrow> nat) \<Rightarrow> 'j job \<Rightarrow> nat" where
  "job_weight w (OtherJob j) = 0"
| "job_weight w (PromiseJob j) = w j"
| "job_weight w (AsyncJob j) = w j"
| "job_weight w (GenericJob j) = w j"

definition weight :: "('j \<Rightarrow> nat) \<Rightarrow> 'j list \<Rightarrow> 'j queues \<Rightarrow> nat" where
  "weight w started q = sum_list (map w started) + sum_list (map w (promise_jobs q))
     + sum_list (map w (async_jobs q)) + sum_list (map w (generic_jobs q))"

definition finite_work :: "('j \<Rightarrow> nat) \<Rightarrow> ('j, 'c) job_env \<Rightarrow> bool" where
  "finite_work w env \<longleftrightarrow> (\<forall>j c. sum_list (map (job_weight w) (snd (je_exec env j c))) < w j)"

text \<open>Of \<open>d\<close> polls in a row that find jobs in flight, one finds a job completed.\<close>

definition completes_within :: "nat \<Rightarrow> ('j, 'c) job_env \<Rightarrow> bool" where
  "completes_within d env \<longleftrightarrow> (\<forall>k gs. (\<forall>i < d. gs i \<noteq> [])
     \<longrightarrow> (\<exists>i < d. \<exists>p < length (gs i). je_ready env (k + i) (gs i) = Some p))"

lemma weight_enqueue: "weight w g (fold enqueue_job new q) = weight w g q + sum_list (map (job_weight w) new)"
proof (induction new arbitrary: q)
  case (Cons j new)
  have "weight w g (enqueue_job j q) = weight w g q + job_weight w j" by (cases j) (simp_all add: weight_def)
  then show ?case by (simp add: Cons.IH)
qed simp

lemma weight_run_job: "finite_work w env \<Longrightarrow> weight w g (snd (run_job env j s)) < weight w g (snd s) + w j"
  by (simp add: run_job_def split_beta weight_enqueue finite_work_def)

lemma weight_run_jobs:
  assumes "finite_work w env"
  shows "weight w g (snd (fold (run_job env) js s)) + length js \<le> weight w g (snd s) + sum_list (map w js)"
proof (induction js arbitrary: s)
  case (Cons j js)
  from Cons.IH [of "run_job env j s"] weight_run_job [OF assms, of g j s] show ?case by simp
qed simp

lemma weight_drain:
  assumes "finite_work w env" "drain_jobs env s = Some s'"
  shows "weight w g (snd s') \<le> weight w g (snd s)
    \<and> (promise_jobs (snd s) \<noteq> [] \<or> generic_jobs (snd s) \<noteq> [] \<longrightarrow> weight w g (snd s') < weight w g (snd s))"
proof -
  obtain t where t: "weight w g (snd t) + of_bool (generic_jobs (snd s) \<noteq> []) \<le> weight w g (snd s)"
      "generic_jobs (snd s) = [] \<Longrightarrow> t = s"
    and s': "snd s' = snd (fold (run_job env) (promise_jobs (snd t)) (fst t, (snd t)\<lparr>promise_jobs := []\<rparr>))"
  proof (cases "generic_jobs (snd s)")
    case Nil
    with assms(2) show thesis by (intro that [of s]) (auto simp: drain_jobs_def Let_def)
  next
    case (Cons j js)
    let ?t = "run_job env j (fst s, (snd s)\<lparr>generic_jobs := js\<rparr>)"
    have "weight w g (snd ?t) < weight w g (snd s)"
      using weight_run_job [OF assms(1), of g j "(fst s, (snd s)\<lparr>generic_jobs := js\<rparr>)"] Cons by (simp add: weight_def)
    with assms(2) Cons show thesis by (intro that [of ?t]) (auto simp: drain_jobs_def Let_def split: if_splits)
  qed
  have "weight w g (snd s') + length (promise_jobs (snd t)) \<le> weight w g (snd t)"
    using weight_run_jobs [OF assms(1), of g "promise_jobs (snd t)" "(fst t, (snd t)\<lparr>promise_jobs := []\<rparr>)"]
    by (simp add: s' weight_def)
  with t show ?thesis by (cases "generic_jobs (snd s) = []"; cases "promise_jobs (snd s)") auto
qed

lemma weight_poll:
  assumes "finite_work w env" "poll_once env k started s = (started', s')"
  shows "if \<exists>p < length started. je_ready env k started = Some p then weight w started' (snd s') < weight w started (snd s)
    else started' = started \<and> s' = s"
proof (cases "\<exists>p < length started. je_ready env k started = Some p")
  case True
  then obtain p where p: "je_ready env k started = Some p" "p < length started" by blast
  have "sum_list (map w (take p started @ started ! p # drop (Suc p) started)) = sum_list (map w started)"
    using id_take_nth_drop [OF p(2)] by simp
  then have "weight w started (snd s) = weight w (take p started @ drop (Suc p) started) (snd s) + w (started ! p)"
    by (simp add: weight_def)
  moreover have "started' = take p started @ drop (Suc p) started" "s' = run_job env (started ! p) s"
    using assms(2) p by (simp_all add: poll_once_def)
  ultimately show ?thesis using weight_run_job [OF assms(1), of started' "started ! p" s] True by simp
next
  case False
  with assms(2) show ?thesis by (auto simp: poll_once_def split: option.splits if_splits)
qed

text \<open>
  The measure of the loop: the weight of what is left, and how many of the last polls found nothing
  although there were jobs in flight.
\<close>

lemma run_ends:
  assumes work: "finite_work w env" and polls: "completes_within d env"
  shows "r < d \<Longrightarrow> r \<le> k \<Longrightarrow> \<forall>i < r. gs i \<noteq> [] \<and> \<not> (\<exists>p < length (gs i). je_ready env (k - r + i) (gs i) = Some p)
    \<Longrightarrow> weight w started (snd s) * d + (d - r) \<le> fuel \<Longrightarrow> run_jobs_async env fuel k started s \<noteq> Unfinished"
proof (induction fuel arbitrary: r k gs started s)
  case (Suc fuel)
  obtain c q where s: "s = (c, q)" by (cases s)
  let ?g = "started @ async_jobs q"
  let ?s = "(c, q\<lparr>async_jobs := []\<rparr>)"
  have w: "weight w ?g (snd ?s) = weight w started (snd s)" by (simp add: weight_def s)
  show ?case
  proof (cases "?g = [] \<and> promise_jobs q = [] \<and> generic_jobs q = []")
    case True
    then show ?thesis by (simp add: s Let_def)
  next
    case False
    obtain g t where gt: "poll_once env k ?g ?s = (g, t)" by (metis surj_pair)
    note poll = weight_poll [OF work gt]
    show ?thesis
    proof (cases "drain_jobs env t")
      case None
      with False gt show ?thesis by (auto simp: s Let_def)
    next
      case (Some t')
      note drain = weight_drain [OF work Some, of g]
      have run: "run_jobs_async env (Suc fuel) k started s = run_jobs_async env fuel (Suc k) g t'"
        using False gt Some by (auto simp: s Let_def)
      show ?thesis
      proof (cases "weight w g (snd t') < weight w started (snd s)")
        case True
        then have "Suc (weight w g (snd t')) * d \<le> weight w started (snd s) * d" by (intro mult_right_mono) simp_all
        then have "weight w g (snd t') * d + (d - 0) \<le> fuel" using Suc.prems(1,4) by simp
        with Suc.IH [of 0 "Suc k" gs g t'] Suc.prems(1) show ?thesis unfolding run by simp
      next
        case stuck: False
        then have no: "\<not> (\<exists>p < length ?g. je_ready env k ?g = Some p)" using poll w drain by (auto split: if_splits)
        with poll have gt': "g = ?g" "t = ?s" by simp_all
        with stuck drain w have "promise_jobs q = []" "generic_jobs q = []" by auto
        with False have ne: "?g \<noteq> []" by simp
        let ?gs = "gs(r := ?g)"
        have streak: "\<forall>i < Suc r. ?gs i \<noteq> [] \<and> \<not> (\<exists>p < length (?gs i). je_ready env (Suc k - Suc r + i) (?gs i) = Some p)"
          using Suc.prems(2,3) ne no by (auto simp: less_Suc_eq)
        have "Suc r < d"
        proof (rule ccontr)
          assume "\<not> Suc r < d"
          then have "d = Suc r" using Suc.prems(1) by simp
          with polls streak show False unfolding completes_within_def by metis
        qed
        moreover have "weight w g (snd t') * d \<le> weight w started (snd s) * d"
          using drain gt' w by (intro mult_right_mono) simp_all
        then have "weight w g (snd t') * d + (d - Suc r) \<le> fuel" using Suc.prems(1,4) by linarith
        ultimately show ?thesis using Suc.IH [OF _ _ streak] Suc.prems(2) unfolding run by simp
      qed
    qed
  qed
qed simp

text \<open>Only a generic job that queues another one can panic.\<close>

lemma run_no_panic:
  assumes "\<forall>j c. \<not> list_ex is_generic (snd (je_exec env j c))"
  shows "run_jobs_async env fuel k started s \<noteq> Panicked"
proof (induction fuel arbitrary: k started s)
  case (Suc fuel)
  have "\<exists>t'. drain_jobs env t = Some t'" for t using assms by (simp add: drain_jobs_def Let_def split: list.split)
  then obtain f where "\<And>t. drain_jobs env t = Some (f t)" by metis
  with Suc show ?case by (simp add: Let_def split_beta)
qed simp

section \<open>Properties\<close>

text \<open>
  C24. No job is lost and none runs twice: when the loop returns, every queue is empty and the jobs that
  were run are, with their multiplicities, those that waited at the start and those queued while it
  executed (timeouts and other kinds are dropped, with a warning).
\<close>

theorem jobs_run_once:
  assumes "run_jobs t (logged env) fuel ((c, {#}, {#}), q) = Finished ((c', executed, queued), q')"
  shows "executed = waiting q + queued \<and> \<not> has_pending_jobs q'"
proof -
  have "balance (waiting q) (mset []) ((c, {#}, {#}), q)" by (simp add: balance_def)
  have "run_jobs_async (logged env) fuel 0 [] ((c, {#}, {#}), q) = Finished ((c', executed, queued), q')"
    using assms by (simp add: run_jobs_eq split: if_splits)
  from balance_run [OF this \<open>balance (waiting q) (mset []) _\<close>] show ?thesis
    using waiting_pending [of q'] by (simp add: balance_def)
qed

definition idle_jobs :: "(nat, unit) job_env" where
  "idle_jobs = \<lparr>je_exec = (\<lambda>j c. (c, if j = 1 then [PromiseJob 5] else [])), je_clear = (\<lambda>c. c),
     je_ready = (\<lambda>k js. if js = [] then None else Some 0)\<rparr>"

theorem jobs_run_once_witness:
  "\<exists>c' executed queued q'. run_jobs plain_thread (logged idle_jobs) 9 (((), {#}, {#}), \<lparr>promise_jobs = [1], async_jobs = [2], generic_jobs = [3]\<rparr>)
      = Finished ((c', executed, queued), q') \<and> executed = {#1, 2, 3#} + queued"
proof -
  obtain c' executed queued q' where r: "run_jobs plain_thread (logged idle_jobs) 9 (((), {#}, {#}), \<lparr>promise_jobs = [1], async_jobs = [2], generic_jobs = [3]\<rparr>)
      = Finished ((c', executed, queued), q')"
    by (simp add: run_jobs_eq eval_nat_numeral drain_jobs_def run_job_def poll_once_def logged_def idle_jobs_def Let_def)
  from jobs_run_once [OF this] r show ?thesis by (auto simp: waiting_def ac_simps)
qed

text \<open>
  C33. The loop ends when there is an end to the work: if what the jobs queue gets less and less (\<open>finite_work\<close>:
  every job outweighs what it queues) and of any \<open>d\<close> polls in a row one finds a job completed, \<open>d\<close> times the
  weight of the jobs, and one more, turns are enough, whatever jobs queue others and however many polls find
  nothing. The loop then returns or a generic job that queues another one has panicked. (For a job that never
  completes there is no such \<open>d\<close>, and the loop runs for ever.)
\<close>

theorem jobs_finish:
  assumes "finite_work w env" "completes_within d env" "0 < d" "(weight w [] (snd s) + 1) * d \<le> fuel"
  shows "run_jobs_async env fuel 0 [] s \<noteq> Unfinished
    \<and> (run_jobs_async env fuel 0 [] s = Panicked \<longrightarrow> (\<exists>j c j'. GenericJob j' \<in> set (snd (je_exec env j c))))"
proof
  show "run_jobs_async env fuel 0 [] s \<noteq> Unfinished"
    using assms(3,4) by (intro run_ends [OF assms(1,2), of 0]) simp_all
  have "\<exists>j'. x = GenericJob j'" if "is_generic x" for x :: "'a job" using that by (cases x) simp_all
  then show "run_jobs_async env fuel 0 [] s = Panicked \<longrightarrow> (\<exists>j c j'. GenericJob j' \<in> set (snd (je_exec env j c)))"
    using run_no_panic [of env fuel 0 "[]" s] by (force simp: list_ex_iff)
qed

text \<open>An asynchronous job that settles a promise, which every third poll finds completed.\<close>

definition slow_jobs :: "(nat, unit) job_env" where
  "slow_jobs = \<lparr>je_exec = (\<lambda>j c. (c, if j = 2 then [PromiseJob 1] else [])), je_clear = (\<lambda>c. c),
     je_ready = (\<lambda>k js. if k mod 3 = 2 then Some 0 else None)\<rparr>"

theorem jobs_finish_witness:
  "run_jobs_async slow_jobs 12 0 [] ((), \<lparr>promise_jobs = [], async_jobs = [2], generic_jobs = []\<rparr>) \<noteq> Unfinished"
proof -
  have "finite_work (\<lambda>j. j + 1) slow_jobs" by (simp add: finite_work_def slow_jobs_def)
  moreover have "\<exists>i < 3. (k + i) mod 3 = 2" for k :: nat by presburger
  then have "completes_within 3 slow_jobs" by (fastforce simp: completes_within_def slow_jobs_def)
  ultimately show ?thesis
    using jobs_finish [of "\<lambda>j. j + 1" slow_jobs 3 "((), \<lparr>promise_jobs = [], async_jobs = [2], generic_jobs = []\<rparr>)" 12]
    by (simp add: weight_def)
qed

text \<open>
  A generic job that queues another generic job does not run to its end: the queue is still
  borrowed, the second borrow panics.
\<close>

theorem nested_generic_panics:
  assumes "generic_jobs (snd s) = j # js" "GenericJob j' \<in> set (snd (je_exec env j (fst s)))"
  shows "drain_jobs env s = None"
  using assms by (force simp: drain_jobs_def Let_def list_ex_iff)

theorem nested_generic_panics_witness:
  "drain_jobs \<lparr>je_exec = (\<lambda>j c. (c, [GenericJob (j + 1)])), je_clear = (\<lambda>c. c), je_ready = (\<lambda>k js. None)\<rparr>
     ((), \<lparr>promise_jobs = [], async_jobs = [], generic_jobs = [1 :: nat]\<rparr>) = None"
  by (rule nested_generic_panics [of _ 1 "[]" 2]) simp_all

end
