(* ===== verification/Runtime.thy ===== *)
theory Runtime
  imports Client JobExecutor
begin

text \<open>
  JavaScript on a node: the conversions between JSON and JavaScript values
  (\<open>madrpc-server/src/runtime/conversions.rs\<close>), the functions scripts call and their installation
  (\<open>bindings.rs\<close>), and the call of a registered function with the polling of the promise it
  returns (\<open>context.rs\<close>). The interpreter is the library \<open>boa\<close>: its states, values and strings are
  type variables and the functions of it that the sources call are the fields of a record. Its
  errors are their texts. The state of the interpreter goes with the job queues of its executor.
\<close>

section \<open>The interpreter's interface\<close>

datatype 'v promise_state = Pending | Fulfilled 'v | Rejected 'v

datatype 'k property_key = StringKey 'k | IndexKey nat | SymbolKey

text \<open>The functions of the bindings, with what their closures capture.\<close>

datatype native = RegisterFn | CallFn client | CallSyncFn client

record ('s, 'v, 'k) boa =
  boa_build :: "string + 's"
  boa_eval :: "string \<Rightarrow> 's \<Rightarrow> (string + 'v) \<times> 's"
  boa_global :: "'k \<Rightarrow> 's \<Rightarrow> (string + 'v) \<times> 's"
  boa_set_global :: "'k \<Rightarrow> 'v \<Rightarrow> 's \<Rightarrow> (string + unit) \<times> 's"
  boa_get :: "'v \<Rightarrow> 'k property_key \<Rightarrow> 's \<Rightarrow> (string + 'v) \<times> 's"
  boa_set :: "'v \<Rightarrow> 'k \<Rightarrow> 'v \<Rightarrow> bool \<Rightarrow> 's \<Rightarrow> (string + unit) \<times> 's"
  boa_define :: "'v \<Rightarrow> 'k \<Rightarrow> 'v \<Rightarrow> 's \<Rightarrow> (string + unit) \<times> 's"
  boa_call :: "'v \<Rightarrow> 'v list \<Rightarrow> 's \<Rightarrow> (string + 'v) \<times> 's"
  boa_is_object :: "'v \<Rightarrow> bool"
  boa_is_callable :: "'v \<Rightarrow> bool"
  boa_is_promise :: "'v \<Rightarrow> bool"
  boa_is_array :: "'v \<Rightarrow> bool"
  boa_is_undefined :: "'v \<Rightarrow> bool"
  boa_is_null :: "'v \<Rightarrow> bool"
  boa_as_boolean :: "'v \<Rightarrow> bool option"
  boa_as_i32 :: "'v \<Rightarrow> 32 word option"
  boa_as_number :: "'v \<Rightarrow> f64 option"
  boa_as_string :: "'v \<Rightarrow> 'k option"
  boa_to_std :: "'k \<Rightarrow> string + string"
  boa_js :: "string \<Rightarrow> 'k"
  boa_undefined :: 'v
  boa_null :: 'v
  boa_bool :: "bool \<Rightarrow> 'v"
  boa_f64 :: "f64 \<Rightarrow> 'v"
  boa_i64 :: "int \<Rightarrow> 'v"
  boa_string :: "'k \<Rightarrow> 'v"
  boa_debug :: "'v \<Rightarrow> string"
  boa_type_error :: "string \<Rightarrow> string"
  boa_function :: "native \<Rightarrow> 's \<Rightarrow> 'v \<times> 's"
  boa_new_object :: "'s \<Rightarrow> 'v \<times> 's"
  boa_own_keys :: "'v \<Rightarrow> 's \<Rightarrow> (string + 'k property_key list) \<times> 's"
  boa_new_array :: "'s \<Rightarrow> 'v \<times> 's"
  boa_push :: "'v \<Rightarrow> 'v \<Rightarrow> 's \<Rightarrow> (string + unit) \<times> 's"
  boa_array_from :: "'v \<Rightarrow> string + unit"
  boa_array_length :: "'v \<Rightarrow> 's \<Rightarrow> (string + nat) \<times> 's"
  boa_array_get :: "'v \<Rightarrow> nat \<Rightarrow> 's \<Rightarrow> (string + 'v) \<times> 's"
  boa_new_promise :: "'s \<Rightarrow> ('v \<times> 'v \<times> 'v) \<times> 's"
  boa_state :: "'v \<Rightarrow> 's \<Rightarrow> 'v promise_state"

text \<open>\<open>map_err\<close>, \<open>ok_or\<close> and the operator \<open>?\<close> over a state.\<close>

definition map_err :: "('x \<Rightarrow> 'e) \<Rightarrow> ('x + 'a) \<times> 's \<Rightarrow> ('e + 'a) \<times> 's" where
  "map_err f r = map_prod (map_sum f (\<lambda>v. v)) (\<lambda>s. s) r"

definition ok_or :: "'e \<Rightarrow> 'a option \<Rightarrow> 'e + 'a" where
  "ok_or e v = (case v of Some x \<Rightarrow> Inr x | None \<Rightarrow> Inl e)"

definition seq :: "('e + 'a) \<times> 's \<Rightarrow> ('a \<Rightarrow> 's \<Rightarrow> ('e + 'b) \<times> 's) \<Rightarrow> ('e + 'b) \<times> 's" where
  "seq r k = (case r of (Inl e, s) \<Rightarrow> (Inl e, s) | (Inr v, s) \<Rightarrow> k v s)"

text \<open>\<open>as_object\<close>.\<close>

definition as_object :: "('s, 'v, 'k) boa \<Rightarrow> 'v \<Rightarrow> 'v option" where
  "as_object b v = (if boa_is_object b v then Some v else None)"

definition quoted :: "string \<Rightarrow> string" where
  "quoted s = CHR 0x27 # s @ [CHR 0x27]"

section \<open>From JSON to JavaScript\<close>

text \<open>\<open>Number::as_f64\<close> and \<open>Number::as_i64\<close> of \<open>serde_json\<close>.\<close>

fun number_as_f64 :: "number \<Rightarrow> f64 option" where
  "number_as_f64 (PosInt n) = Some (f_of_nat (unat n))"
| "number_as_f64 (NegInt i) = Some (rnd (of_int i))"
| "number_as_f64 (Float x) = Some x"

fun number_as_i64 :: "number \<Rightarrow> int option" where
  "number_as_i64 (PosInt n) = (if unat n < 2 ^ 63 then Some (uint n) else None)"
| "number_as_i64 (NegInt i) = Some i"
| "number_as_i64 (Float x) = None"

fun json_to_js_value :: "('s, 'v, 'k) boa \<Rightarrow> json \<Rightarrow> 's \<Rightarrow> 'v result \<times> 's"
  and push_elements :: "('s, 'v, 'k) boa \<Rightarrow> 'v \<Rightarrow> nat \<Rightarrow> json list \<Rightarrow> 's \<Rightarrow> 'v result \<times> 's"
  and define_members :: "('s, 'v, 'k) boa \<Rightarrow> 'v \<Rightarrow> (string \<times> json) list \<Rightarrow> 's \<Rightarrow> 'v result \<times> 's" where
  "json_to_js_value b JNull s = (Inr (boa_null b), s)"
| "json_to_js_value b (JBool x) s = (Inr (boa_bool b x), s)"
| "json_to_js_value b (JNumber n) s = (case number_as_f64 n of
     Some x \<Rightarrow> (Inr (boa_f64 b x), s)
   | None \<Rightarrow> (case number_as_i64 n of
       Some i \<Rightarrow> (Inr (boa_i64 b i), s)
     | None \<Rightarrow> (Inl (InvalidRequest ''Number out of range''), s)))"
| "json_to_js_value b (JString t) s = (Inr (boa_string b (boa_js b t)), s)"
| "json_to_js_value b (JArray js) s = (case boa_new_array b s of (a, s) \<Rightarrow> push_elements b a 0 js s)"
| "json_to_js_value b (JObject fs) s = (case boa_new_object b s of (ob, s) \<Rightarrow> define_members b ob fs s)"
| "push_elements b a i [] s = (Inr a, s)"
| "push_elements b a i (j # js) s = (case json_to_js_value b j s of
     (Inl e, s) \<Rightarrow> (Inl e, s)
   | (Inr v, s) \<Rightarrow> (case boa_push b a v s of
       (Inl e, s) \<Rightarrow> (Inl (JavaScriptExecution (''Failed to push array element '' @ dec i @ '': '' @ e)), s)
     | (Inr _, s) \<Rightarrow> push_elements b a (i + 1) js s))"
| "define_members b ob [] s = (Inr ob, s)"
| "define_members b ob ((k, j) # fs) s = (case json_to_js_value b j s of
     (Inl e, s) \<Rightarrow> (Inl e, s)
   | (Inr v, s) \<Rightarrow> (case boa_define b ob (boa_js b k) v s of
       (Inl e, s) \<Rightarrow> (Inl (JavaScriptExecution (''Failed to set property '' @ quoted k @ '': '' @ e)), s)
     | (Inr _, s) \<Rightarrow> define_members b ob fs s))"

section \<open>From JavaScript to JSON\<close>

text \<open>\<open>serde_json::Map\<close> keeps its keys in the order of their bytes; inserting replaces.\<close>

fun bytes_less :: "string \<Rightarrow> string \<Rightarrow> bool" where
  "bytes_less xs [] = False"
| "bytes_less [] (y # ys) = True"
| "bytes_less (x # xs) (y # ys) =
     ((of_char x :: nat) < of_char y \<or> x = y \<and> bytes_less xs ys)"

fun json_insert :: "string \<Rightarrow> json \<Rightarrow> (string \<times> json) list \<Rightarrow> (string \<times> json) list" where
  "json_insert k v [] = [(k, v)]"
| "json_insert k v ((k', v') # fs) =
     (if k = k' then (k, v) # fs
      else if bytes_less k k' then (k, v) # (k', v') # fs else (k', v') # json_insert k v fs)"

text \<open>\<open>Number::from_f64\<close>, which refuses infinities and NaN.\<close>

fun number_from_f64 :: "f64 \<Rightarrow> number option" where
  "number_from_f64 (Fin x) = Some (Float (Fin x))"
| "number_from_f64 _ = None"

text \<open>
  The two loops of the conversion, over the function that converts a member. \<open>None\<close> stands for a
  value nested deeper than the bound of \<open>js_value_to_json\<close>; the code recurses on its stack.
\<close>

fun array_elements :: "('s, 'v, 'k) boa \<Rightarrow> ('v \<Rightarrow> 's \<Rightarrow> (json result \<times> 's) option) \<Rightarrow> 'v \<Rightarrow> nat list
    \<Rightarrow> json list \<Rightarrow> 's \<Rightarrow> (json result \<times> 's) option" where
  "array_elements b conv a [] acc s = Some (Inr (JArray acc), s)"
| "array_elements b conv a (i # is) acc s = (case boa_array_get b a i s of
     (Inl e, s) \<Rightarrow> Some (Inl (JavaScriptExecution (''Failed to get array element '' @ dec i @ '': '' @ e)), s)
   | (Inr v, s) \<Rightarrow> Option.bind (conv v s) (\<lambda>(r, s). case r of
       Inl e \<Rightarrow> Some (Inl e, s)
     | Inr j \<Rightarrow> array_elements b conv a is (acc @ [j]) s))"

fun key_text :: "('s, 'v, 'k) boa \<Rightarrow> 'k property_key \<Rightarrow> string result option" where
  "key_text b (StringKey k) = Some (map_sum (\<lambda>e. InvalidRequest (''String conversion error: '' @ e)) (\<lambda>t. t) (boa_to_std b k))"
| "key_text b (IndexKey i) = Some (Inr (dec i))"
| "key_text b SymbolKey = None"

fun object_members :: "('s, 'v, 'k) boa \<Rightarrow> ('v \<Rightarrow> 's \<Rightarrow> (json result \<times> 's) option) \<Rightarrow> 'v
    \<Rightarrow> 'k property_key list \<Rightarrow> (string \<times> json) list \<Rightarrow> 's \<Rightarrow> (json result \<times> 's) option" where
  "object_members b conv ob [] acc s = Some (Inr (JObject acc), s)"
| "object_members b conv ob (k # ks) acc s = (case key_text b k of
     None \<Rightarrow> object_members b conv ob ks acc s
   | Some (Inl e) \<Rightarrow> Some (Inl e, s)
   | Some (Inr t) \<Rightarrow> (case boa_get b ob k s of
       (Inl e, s) \<Rightarrow> Some (Inl (JavaScriptExecution (''Failed to get property '' @ quoted t @ '': '' @ e)), s)
     | (Inr v, s) \<Rightarrow> Option.bind (conv v s) (\<lambda>(r, s). case r of
         Inl e \<Rightarrow> Some (Inl e, s)
       | Inr j \<Rightarrow> object_members b conv ob ks (json_insert t j acc) s)))"

primrec js_value_to_json :: "('s, 'v, 'k) boa \<Rightarrow> nat \<Rightarrow> 'v \<Rightarrow> 's \<Rightarrow> (json result \<times> 's) option" where
  "js_value_to_json b 0 v s = None"
| "js_value_to_json b (Suc depth) v s =
     (if boa_is_undefined b v \<or> boa_is_null b v then Some (Inr JNull, s)
      else case boa_as_boolean b v of Some x \<Rightarrow> Some (Inr (JBool x), s)
      | None \<Rightarrow> (case boa_as_i32 b v of Some i \<Rightarrow> Some (Inr (ser_int (sint i)), s)
      | None \<Rightarrow> (case boa_as_number b v of Some n \<Rightarrow>
            Some (case number_from_f64 n of Some x \<Rightarrow> Inr (JNumber x)
              | None \<Rightarrow> Inl (InvalidRequest ''Invalid float''), s)
      | None \<Rightarrow> (case boa_as_string b v of Some k \<Rightarrow>
            Some (case boa_to_std b k of Inr t \<Rightarrow> Inr (JString t)
              | Inl e \<Rightarrow> Inl (InvalidRequest (''String conversion error: '' @ e)), s)
      | None \<Rightarrow>
          if boa_is_object b v then
            (if boa_is_array b v then
               (case boa_array_from b v of
                  Inl e \<Rightarrow> Some (Inl (InvalidRequest (''Object is not a valid array: '' @ e)), s)
                | Inr _ \<Rightarrow> (case boa_array_length b v s of
                    (Inl e, s) \<Rightarrow> Some (Inl (JavaScriptExecution (''Failed to get array length: '' @ e)), s)
                  | (Inr len, s) \<Rightarrow> array_elements b (js_value_to_json b depth) v [0..<len] [] s))
             else
               (case boa_own_keys b v s of
                  (Inl e, s) \<Rightarrow> Some (Inl (JavaScriptExecution (''Failed to get object keys: '' @ e)), s)
                | (Inr ks, s) \<Rightarrow> object_members b (js_value_to_json b depth) v ks [] s))
          else Some (Inr JNull, s)))))"


section \<open>The functions scripts call\<close>

text \<open>\<open>args.get(i)\<close>.\<close>

definition arg :: "'v list \<Rightarrow> nat \<Rightarrow> 'v option" where
  "arg args i = (if i < length args then Some (args ! i) else None)"

text \<open>\<open>madrpc.register(name, function)\<close>; an error is a \<open>TypeError\<close> with the text shown.\<close>

definition js_register :: "('s, 'v, 'k) boa \<Rightarrow> 'v list \<Rightarrow> 's \<Rightarrow> (string + 'v) \<times> 's" where
  "js_register b args s = map_err (boa_type_error b)
     (seq (ok_or ''First argument must be a string''
            (Option.bind (arg args 0) (boa_as_string b)), s) (\<lambda>name s.
      seq (ok_or ''Second argument required'' (arg args 1), s) (\<lambda>func s.
      if \<not> boa_is_object b func \<or> \<not> boa_is_callable b func then (Inl ''Second argument must be a function'', s)
      else
      seq (map_err (\<lambda>e. ''Failed to get madrpc: '' @ e) (boa_global b (boa_js b ''madrpc'') s)) (\<lambda>madrpc s.
      seq (ok_or ''madrpc is not an object'' (as_object b madrpc), s) (\<lambda>madrpc s.
      seq (map_err (\<lambda>e. ''Failed to get registry: '' @ e) (boa_get b madrpc (StringKey (boa_js b ''__registry'')) s)) (\<lambda>registry s.
      seq (ok_or ''Registry is not an object'' (as_object b registry), s) (\<lambda>registry s.
      seq (map_err (\<lambda>e. ''Failed to register: '' @ e) (boa_set b registry name func True s)) (\<lambda>_ s.
      (Inr (boa_undefined b), s)))))))))"

text \<open>
  The arguments of \<open>madrpc.call\<close> and \<open>madrpc.callSync\<close>: a method name, and a value that is sent as
  JSON, \<open>undefined\<close> when absent.
\<close>

definition call_arguments :: "('s, 'v, 'k) boa \<Rightarrow> nat \<Rightarrow> 'v list \<Rightarrow> 's
    \<Rightarrow> ((string + string \<times> json) \<times> 's) option" where
  "call_arguments b depth args s =
     (case Option.bind (arg args 0) (boa_as_string b) of
        None \<Rightarrow> Some (Inl ''First argument must be a string (method name)'', s)
      | Some k \<Rightarrow> (case boa_to_std b k of
          Inl e \<Rightarrow> Some (Inl (''Invalid method name: '' @ e), s)
        | Inr meth \<Rightarrow>
            map_option (\<lambda>(r, s). (map_sum (\<lambda>e. ''Failed to convert args to JSON: '' @ error_to_string e) (Pair meth) r, s))
              (js_value_to_json b depth (case arg args 1 of Some v \<Rightarrow> v | None \<Rightarrow> boa_undefined b) s)))"

text \<open>
  \<open>madrpc.call\<close> returns a pending promise and queues a job, given here as the data it captures;
  when the call of the client is over, the job settles the promise.
\<close>

definition js_call :: "('c \<times> 'j queues, 'v, 'k) boa \<Rightarrow> nat \<Rightarrow> (string \<Rightarrow> json \<Rightarrow> 'v \<times> 'v \<Rightarrow> 'j) \<Rightarrow> 'v list
    \<Rightarrow> 'c \<times> 'j queues \<Rightarrow> ((string + 'v) \<times> 'c \<times> 'j queues) option" where
  "js_call b depth job args s = map_option (\<lambda>r. map_err (boa_type_error b)
     (seq r (\<lambda>(meth, params) s. case boa_new_promise b s of ((promise, resolve, reject), s) \<Rightarrow>
        (Inr promise, fst s, enqueue_job (AsyncJob (job meth params (resolve, reject))) (snd s)))))
     (call_arguments b depth args s)"

definition rpc_call_async :: "json result \<Rightarrow> string + json" where
  "rpc_call_async r = map_sum (\<lambda>e. ''RPC call failed: '' @ error_to_string e) (\<lambda>j. j) r"

definition settle_call :: "('s, 'v, 'k) boa \<Rightarrow> 'v \<times> 'v \<Rightarrow> json result \<Rightarrow> 's \<Rightarrow> (string + 'v) \<times> 's" where
  "settle_call b resolvers answer s = (case rpc_call_async answer of
     Inr j \<Rightarrow> seq (map_err (\<lambda>e. boa_type_error b (''Failed to convert result to JS: '' @ error_to_string e))
                   (json_to_js_value b j s)) (\<lambda>v s. boa_call b (fst resolvers) [v] s)
   | Inl e \<Rightarrow> boa_call b (snd resolvers) [boa_string b (boa_js b e)] s)"

text \<open>\<open>install_madrpc_bindings\<close>: \<open>call\<close> and \<open>callSync\<close> exist only on a context with a client.\<close>

definition set_function :: "('s, 'v, 'k) boa \<Rightarrow> 'v \<Rightarrow> string \<Rightarrow> native \<Rightarrow> 's \<Rightarrow> unit result \<times> 's" where
  "set_function b ob name fn s = (case boa_function b fn s of (f, s) \<Rightarrow>
     map_err JavaScriptExecution (boa_set b ob (boa_js b name) f False s))"

definition install_madrpc_bindings :: "('s, 'v, 'k) boa \<Rightarrow> client option \<Rightarrow> 's \<Rightarrow> unit result \<times> 's" where
  "install_madrpc_bindings b cl s =
     (case boa_new_object b s of (madrpc, s) \<Rightarrow> case boa_new_object b s of (registry, s) \<Rightarrow>
      seq (map_err JavaScriptExecution (boa_set b madrpc (boa_js b ''__registry'') registry False s)) (\<lambda>_ s.
      seq (set_function b madrpc ''register'' RegisterFn s) (\<lambda>_ s.
      seq (case cl of
             None \<Rightarrow> (Inr (), s)
           | Some cl \<Rightarrow> seq (set_function b madrpc ''call'' (CallFn cl) s) (\<lambda>_ s.
               set_function b madrpc ''callSync'' (CallSyncFn cl) s)) (\<lambda>_ s.
      map_err JavaScriptExecution (boa_set_global b (boa_js b ''madrpc'') madrpc s)))))"

section \<open>A context\<close>

record 's js_context =
  cx_state :: 's
  cx_client :: "client option"

text \<open>\<open>with_client_from_source\<close> and \<open>with_client\<close>, which reads the script after the bindings.\<close>

definition with_client_from_source :: "('s, 'v, 'k) boa \<Rightarrow> string \<Rightarrow> client option \<Rightarrow> 's js_context result" where
  "with_client_from_source b script cl = (case boa_build b of
     Inl e \<Rightarrow> Inl (JavaScriptExecution (''Failed to build context: '' @ e))
   | Inr s \<Rightarrow> (case seq (install_madrpc_bindings b cl s) (\<lambda>_ s.
         map_err (\<lambda>e. JavaScriptExecution (''Script evaluation error: '' @ e)) (boa_eval b script s)) of
       (Inl e, s) \<Rightarrow> Inl e
     | (Inr _, s) \<Rightarrow> Inr \<lparr>cx_state = s, cx_client = cl\<rparr>))"

definition with_client :: "('s, 'v, 'k) boa \<Rightarrow> string + string \<Rightarrow> client option \<Rightarrow> 's js_context result" where
  "with_client b file cl = (case boa_build b of
     Inl e \<Rightarrow> Inl (JavaScriptExecution (''Failed to build context: '' @ e))
   | Inr s \<Rightarrow> (case seq (install_madrpc_bindings b cl s) (\<lambda>_ s.
         seq (map_err (\<lambda>e. InvalidRequest (''Failed to load script: '' @ e)) (file, s)) (\<lambda>script s.
         map_err (\<lambda>e. JavaScriptExecution (''Script evaluation error: '' @ e)) (boa_eval b script s))) of
       (Inl e, s) \<Rightarrow> Inl e
     | (Inr _, s) \<Rightarrow> Inr \<lparr>cx_state = s, cx_client = cl\<rparr>))"

definition context_new :: "('s, 'v, 'k) boa \<Rightarrow> string + string \<Rightarrow> 's js_context result" where
  "context_new b file = with_client b file None"

definition from_source :: "('s, 'v, 'k) boa \<Rightarrow> string \<Rightarrow> 's js_context result" where
  "from_source b script = with_client_from_source b script None"

text \<open>\<open>distributed_call\<close>, over the client's call.\<close>

definition distributed_call :: "(client \<Rightarrow> string \<Rightarrow> json \<Rightarrow> json result) \<Rightarrow> 's js_context \<Rightarrow> string \<Rightarrow> json \<Rightarrow> json result" where
  "distributed_call answer cx meth args = (case cx_client cx of
     None \<Rightarrow> Inl (InvalidRequest ''No client configured'')
   | Some cl \<Rightarrow> answer cl meth args)"


section \<open>Calling a registered function\<close>

definition MAX_PROMISE_WAIT_MS :: nat where "MAX_PROMISE_WAIT_MS = 30000"
definition PROMISE_POLL_INTERVAL_ASYNC_MS :: nat where "PROMISE_POLL_INTERVAL_ASYNC_MS = 10"
definition PROMISE_POLL_INTERVAL_SYNC_MS :: nat where "PROMISE_POLL_INTERVAL_SYNC_MS = 50"

definition lookup_function :: "('s, 'v, 'k) boa \<Rightarrow> string \<Rightarrow> 's \<Rightarrow> 'v result \<times> 's" where
  "lookup_function b meth s =
     seq (map_err JavaScriptExecution (boa_global b (boa_js b ''madrpc'') s)) (\<lambda>madrpc s.
     case as_object b madrpc of
       None \<Rightarrow> (Inl (InvalidRequest ''Failed to access registry''), s)
     | Some madrpc \<Rightarrow>
     seq (map_err (\<lambda>_. InvalidRequest ''Failed to access registry'')
            (boa_get b madrpc (StringKey (boa_js b ''__registry'')) s)) (\<lambda>registry s.
     seq (ok_or (InvalidRequest ''Registry is not an object'') (as_object b registry), s) (\<lambda>registry s.
     seq (map_err (\<lambda>e. InvalidRequest (''Method '' @ quoted meth @ '' lookup error: '' @ e))
            (boa_get b registry (StringKey (boa_js b meth)) s)) (\<lambda>func s.
     if boa_is_undefined b func then (Inl (InvalidRequest (''Method '' @ quoted meth @ '' is not registered'')), s)
     else (ok_or (InvalidRequest ''Registered value is not a function'') (as_object b func), s)))))"

definition call_function :: "('s, 'v, 'k) boa \<Rightarrow> string \<Rightarrow> json \<Rightarrow> 's \<Rightarrow> 'v result \<times> 's" where
  "call_function b meth args s =
     seq (lookup_function b meth s) (\<lambda>func s.
     seq (json_to_js_value b args s) (\<lambda>args_js s.
     map_err (\<lambda>e. JavaScriptExecution (''Function execution error: '' @ e)) (boa_call b func [args_js] s)))"

definition reason_string :: "('s, 'v, 'k) boa \<Rightarrow> 'v \<Rightarrow> string" where
  "reason_string b reason = (case boa_as_string b reason of
     Some k \<Rightarrow> (case boa_to_std b k of Inr t \<Rightarrow> t | Inl e \<Rightarrow> ''Unknown error'')
   | None \<Rightarrow> boa_debug b reason)"

text \<open>A conversion that exceeds the bound on the depth is not finished.\<close>

definition converted :: "('s, 'v, 'k) boa \<Rightarrow> nat \<Rightarrow> 'v \<Rightarrow> 's \<Rightarrow> (json result \<times> 's) outcome" where
  "converted b depth v s = (case js_value_to_json b depth v s of None \<Rightarrow> Unfinished | Some r \<Rightarrow> Finished r)"

text \<open>
  What the calls depend on from outside: in poll \<open>i\<close> the jobs run in the environment \<open>jobs i\<close>, on a
  thread whose runtime is \<open>runtime i\<close>, each run of the queues is given \<open>fuel\<close> turns, and \<open>late i\<close> is the
  time that passes before the clock of poll \<open>i\<close> is read, beyond the sleep: running the jobs, and
  waking up late.
\<close>

record ('j, 'c) run_env =
  re_jobs :: "nat \<Rightarrow> ('j, 'c) job_env"
  re_fuel :: nat
  re_depth :: nat
  re_late :: "nat \<Rightarrow> duration"
  re_runtime :: "nat \<Rightarrow> tokio_thread"

text \<open>
  The loop over the polls: \<open>run i\<close> runs the queues in poll \<open>i\<close>, \<open>polls\<close> bounds the polls, \<open>i\<close> is
  the number of the next one.
\<close>

primrec await_promise :: "('c \<times> 'j queues, 'v, 'k) boa \<Rightarrow> ('j, 'c) run_env
    \<Rightarrow> (nat \<Rightarrow> 'c \<times> 'j queues \<Rightarrow> ('c \<times> 'j queues) outcome) \<Rightarrow> duration \<Rightarrow> 'v \<Rightarrow> nat \<Rightarrow> nat
    \<Rightarrow> duration \<Rightarrow> 'c \<times> 'j queues \<Rightarrow> (json result \<times> 'c \<times> 'j queues) outcome" where
  "await_promise b env run interval p 0 i elapsed s = Unfinished"
| "await_promise b env run interval p (Suc polls) i elapsed s =
     (if elapsed \<ge> from_millis MAX_PROMISE_WAIT_MS
      then Finished (Inl (JavaScriptExecution
        (''Promise did not resolve within '' @ dec MAX_PROMISE_WAIT_MS @ ''ms timeout'')), s)
      else case run i s of
        Unfinished \<Rightarrow> Unfinished
      | Panicked \<Rightarrow> Panicked
      | Finished s \<Rightarrow> (case boa_state b p s of
          Pending \<Rightarrow> await_promise b env run interval p polls (i + 1) (elapsed + interval + re_late env (i + 1)) s
        | Fulfilled v \<Rightarrow> converted b (re_depth env) v s
        | Rejected reason \<Rightarrow> Finished (Inl (JavaScriptExecution
            (''Promise rejected: '' @ reason_string b reason)), s)))"

definition run_rpc :: "('c \<times> 'j queues, 'v, 'k) boa \<Rightarrow> ('j, 'c) run_env
    \<Rightarrow> (nat \<Rightarrow> 'c \<times> 'j queues \<Rightarrow> ('c \<times> 'j queues) outcome) \<Rightarrow> duration \<Rightarrow> nat \<Rightarrow> string \<Rightarrow> json
    \<Rightarrow> 'c \<times> 'j queues \<Rightarrow> (json result \<times> 'c \<times> 'j queues) outcome" where
  "run_rpc b env run interval polls meth args s = (case call_function b meth args s of
     (Inl e, s) \<Rightarrow> Finished (Inl e, s)
   | (Inr v, s) \<Rightarrow>
       if boa_is_object b v \<and> boa_is_promise b v then await_promise b env run interval v polls 0 (re_late env 0) s
       else (case run 0 s of
           Unfinished \<Rightarrow> Unfinished
         | Panicked \<Rightarrow> Panicked
         | Finished s \<Rightarrow> converted b (re_depth env) v s))"

text \<open>
  The two versions run the queues differently, blocking the thread on a runtime of its own or within the
  current one, and sleep for different times; running the jobs never returns an error.
\<close>

definition run_async :: "('j, 'c) run_env \<Rightarrow> nat \<Rightarrow> 'c \<times> 'j queues \<Rightarrow> ('c \<times> 'j queues) outcome" where
  "run_async env i s = run_jobs_async (re_jobs env i) (re_fuel env) 0 [] s"

definition run_blocking :: "('j, 'c) run_env \<Rightarrow> nat \<Rightarrow> 'c \<times> 'j queues \<Rightarrow> ('c \<times> 'j queues) outcome" where
  "run_blocking env i s = run_jobs (re_runtime env i) (re_jobs env i) (re_fuel env) s"

definition call_rpc where
  "call_rpc b env = run_rpc b env (run_blocking env) (from_millis PROMISE_POLL_INTERVAL_SYNC_MS)"

definition call_rpc_async where
  "call_rpc_async b env = run_rpc b env (run_async env) (from_millis PROMISE_POLL_INTERVAL_ASYNC_MS)"

section \<open>Errors of the conversion\<close>

text \<open>Only the engine's failures are errors: no number is out of range.\<close>

lemma json_to_js_errors:
  "fst (json_to_js_value b j s) = Inl e \<Longrightarrow> \<exists>m. e = JavaScriptExecution m"
  "fst (push_elements b a i js s) = Inl e \<Longrightarrow> \<exists>m. e = JavaScriptExecution m"
  "fst (define_members b ob fs s) = Inl e \<Longrightarrow> \<exists>m. e = JavaScriptExecution m"
proof (induction b j s and b a i js s and b ob fs s
    rule: json_to_js_value_push_elements_define_members.induct)
  case (3 b n s)
  then show ?case by (cases n) auto
next
  case (8 b a i j js s)
  then show ?case by (auto split: prod.splits sum.splits)
next
  case (10 b ob k j fs s)
  then show ?case by (auto split: prod.splits sum.splits)
qed (auto split: prod.splits)

section \<open>Waiting for a promise\<close>

lemma run_clears:
  "run_jobs_async env fuel k started s = Finished s' \<Longrightarrow> \<not> has_pending_jobs (snd s')"
proof (induction fuel arbitrary: k started s)
  case (Suc fuel)
  then show ?case
    by (auto simp: Let_def has_pending_jobs_def split: if_splits prod.splits option.splits)
qed simp

text \<open>With empty queues there is nothing to run.\<close>

lemma run_nothing:
  assumes "\<not> has_pending_jobs (snd s)" "0 < re_fuel env"
  shows "run_async env i s = Finished s"
proof -
  have "(snd s)\<lparr>async_jobs := []\<rparr> = snd s" using assms(1) by (simp add: has_pending_jobs_def)
  then have "(fst s, (snd s)\<lparr>async_jobs := []\<rparr>) = s" by (metis prod.collapse)
  with assms show ?thesis by (cases "re_fuel env") (simp_all add: run_async_def Let_def has_pending_jobs_def)
qed

abbreviation promise_timeout :: "json result" where
  "promise_timeout \<equiv> Inl (JavaScriptExecution (''Promise did not resolve within 30000ms timeout''))"

lemma dec_max_wait [simp]: "dec MAX_PROMISE_WAIT_MS = ''30000''"
  by (simp add: MAX_PROMISE_WAIT_MS_def dec_def dec_digits.simps [of 30000] dec_digits.simps [of 3000]
      dec_digits.simps [of 300] dec_digits.simps [of 30] dec_digits.simps [of 3] char_of_def bit_0)

text \<open>A promise pending with empty queues stays pending until the time is up.\<close>

lemma await_idle:
  assumes "\<not> has_pending_jobs (snd s)" "0 < re_fuel env" "boa_state b p s = Pending"
  shows "from_millis MAX_PROMISE_WAIT_MS \<le> elapsed + interval * polls
    \<Longrightarrow> await_promise b env (run_async env) interval p (Suc polls) i elapsed s = Finished (promise_timeout, s)"
proof (induction polls arbitrary: i elapsed)
  case 0
  then show ?case by simp
next
  case (Suc polls)
  have "from_millis MAX_PROMISE_WAIT_MS \<le> (elapsed + interval + re_late env (i + 1)) + interval * polls"
    using Suc.prems by simp
  from Suc.IH [OF this, of "i + 1"] show ?case
    using run_nothing [OF assms(1,2), of i] assms(3) by (subst await_promise.simps(2)) simp
qed

text \<open>The outcome of a call in terms of one run of the queues (\<open>run\<close>).\<close>

definition one_run :: "('c \<times> 'j queues, 'v, 'k) boa \<Rightarrow> ('j, 'c) run_env
    \<Rightarrow> ('c \<times> 'j queues \<Rightarrow> ('c \<times> 'j queues) outcome) \<Rightarrow> string \<Rightarrow> json
    \<Rightarrow> 'c \<times> 'j queues \<Rightarrow> (json result \<times> 'c \<times> 'j queues) outcome" where
  "one_run b env run meth args s = (case call_function b meth args s of
     (Inl e, s) \<Rightarrow> Finished (Inl e, s)
   | (Inr v, s) \<Rightarrow> (case run s of
       Unfinished \<Rightarrow> Unfinished
     | Panicked \<Rightarrow> Panicked
     | Finished s \<Rightarrow>
         if boa_is_object b v \<and> boa_is_promise b v
         then (case boa_state b v s of
             Pending \<Rightarrow> Finished (promise_timeout, s)
           | Fulfilled w \<Rightarrow> converted b (re_depth env) w s
           | Rejected reason \<Rightarrow> Finished (Inl (JavaScriptExecution
               (''Promise rejected: '' @ reason_string b reason)), s))
         else converted b (re_depth env) v s))"

lemma run_rpc_one_run:
  assumes "re_late env 0 < from_millis MAX_PROMISE_WAIT_MS" "0 < interval"
    and "from_millis MAX_PROMISE_WAIT_MS \<le> interval * polls"
  shows "run_rpc b env (run_async env) interval (Suc (Suc polls)) meth args s = one_run b env (run_async env 0) meth args s"
proof -
  obtain r s1 where c: "call_function b meth args s = (r, s1)" by (metis surj_pair)
  show ?thesis
  proof (cases "\<exists>v s2. r = Inr v \<and> boa_is_object b v \<and> boa_is_promise b v
      \<and> run_async env 0 s1 = Finished s2 \<and> boa_state b v s2 = Pending")
    case True
    then obtain v s2 where v: "r = Inr v" "boa_is_object b v" "boa_is_promise b v"
      and s2: "run_async env 0 s1 = Finished s2" "boa_state b v s2 = Pending" by blast
    have idle: "\<not> has_pending_jobs (snd s2)" using s2(1) unfolding run_async_def by (rule run_clears)
    have fuel: "0 < re_fuel env" using s2(1) by (cases "re_fuel env") (simp_all add: run_async_def)
    have "await_promise b env (run_async env) interval v (Suc polls) 1 (re_late env 0 + interval + re_late env 1) s2
        = Finished (promise_timeout, s2)"
      by (intro await_idle idle fuel s2(2)) (use assms(3) in linarith)
    then show ?thesis using assms(1) v s2
      by (simp add: run_rpc_def one_run_def c await_promise.simps(2) [of _ _ _ _ _ "Suc polls"]
          del: await_promise.simps)
  next
    case False
    then show ?thesis using assms(1)
      by (cases r) (auto simp: run_rpc_def one_run_def c split: outcome.split promise_state.split)
  qed
qed

text \<open>Blocking makes a difference only where the thread cannot block.\<close>

lemma blocking_is_async: "\<forall>i. can_block (re_runtime env i) \<Longrightarrow> run_blocking env = run_async env"
  by (intro ext) (simp add: run_blocking_def run_async_def run_jobs_eq)

lemma blocking_panics:
  assumes "\<not> can_block (re_runtime env 0)" "re_late env 0 < from_millis MAX_PROMISE_WAIT_MS"
  shows "run_rpc b env (run_blocking env) interval (Suc polls) meth args s
    = one_run b env (\<lambda>_. Panicked) meth args s"
  using assms by (auto simp: run_rpc_def one_run_def run_blocking_def run_jobs_eq split: prod.split sum.split)

text \<open>An asynchronous job that never completes keeps the queues running.\<close>

lemma hanging_run:
  assumes "\<And>k js. je_ready env k js = None"
  shows "started @ async_jobs (snd s) \<noteq> [] \<Longrightarrow> run_jobs_async env fuel k started s \<noteq> Finished s'"
proof (induction fuel arbitrary: k started s)
  case (Suc fuel)
  then show ?case by (auto simp: Let_def poll_once_def assms split: option.splits)
qed simp

lemma hanging_promise:
  assumes "\<And>k js. je_ready (re_jobs env 0) k js = None" "async_jobs (snd s) \<noteq> []"
    and "elapsed < from_millis MAX_PROMISE_WAIT_MS" and "run \<in> {run_async env, run_blocking env}"
  shows "await_promise b env run interval p polls 0 elapsed s \<noteq> Finished r"
proof -
  have "run_jobs_async (re_jobs env 0) (re_fuel env) 0 [] s \<noteq> Finished s'" for s'
    using hanging_run [OF assms(1), of "[]" s "re_fuel env" 0] assms(2) by simp
  moreover have "run 0 s = run_jobs_async (re_jobs env 0) (re_fuel env) 0 [] s \<or> run 0 s = Panicked"
    using assms(4) by (auto simp: run_async_def run_blocking_def run_jobs_eq)
  ultimately have "run 0 s = Panicked \<or> run 0 s = Unfinished" by (metis outcome.exhaust)
  then show ?thesis using assms(3) by (cases polls) auto
qed

section \<open>Properties\<close>

text \<open>
  A small engine, for the witnesses: every value from 2 on is an object, the call of a function
  queues an asynchronous job and returns the promise 7, which is fulfilled once the state of the
  engine is 1.
\<close>

definition small_boa :: "(nat \<times> nat queues, nat, string) boa" where
  "small_boa = \<lparr>boa_build = Inr (0, queues_new), boa_eval = (\<lambda>_ s. (Inr 0, s)), boa_global = (\<lambda>_ s. (Inr 2, s)),
     boa_set_global = (\<lambda>_ _ s. (Inr (), s)), boa_get = (\<lambda>_ _ s. (Inr 3, s)), boa_set = (\<lambda>_ _ _ _ s. (Inr (), s)),
     boa_define = (\<lambda>_ _ _ s. (Inr (), s)), boa_call = (\<lambda>_ _ s. (Inr 7, (fst s, enqueue_job (AsyncJob 1) (snd s)))),
     boa_is_object = (\<lambda>v. 2 \<le> v), boa_is_callable = (\<lambda>v. 2 \<le> v), boa_is_promise = (\<lambda>v. v = 7),
     boa_is_array = (\<lambda>_. False), boa_is_undefined = (\<lambda>v. v = 0), boa_is_null = (\<lambda>v. v = 1),
     boa_as_boolean = (\<lambda>_. None), boa_as_i32 = (\<lambda>_. None), boa_as_number = (\<lambda>_. None), boa_as_string = (\<lambda>_. None),
     boa_to_std = Inr, boa_js = (\<lambda>t. t), boa_undefined = 0, boa_null = 1, boa_bool = (\<lambda>_. 0), boa_f64 = (\<lambda>_. 0),
     boa_i64 = (\<lambda>_. 0), boa_string = (\<lambda>_. 0), boa_debug = (\<lambda>_. ''?''), boa_type_error = (\<lambda>t. t),
     boa_function = (\<lambda>_ s. (3, s)), boa_new_object = (\<lambda>s. (3, s)), boa_own_keys = (\<lambda>_ s. (Inr [], s)),
     boa_new_array = (\<lambda>s. (3, s)), boa_push = (\<lambda>_ _ s. (Inl ''no space'', s)), boa_array_from = Inr \<circ> (\<lambda>_. ()),
     boa_array_length = (\<lambda>_ s. (Inr 0, s)), boa_array_get = (\<lambda>_ _ s. (Inr 0, s)),
     boa_new_promise = (\<lambda>s. ((7, 3, 3), s)), boa_state = (\<lambda>_ s. if fst s = 1 then Fulfilled 1 else Pending)\<rparr>"

definition small_env :: "nat option \<Rightarrow> nat \<Rightarrow> (nat, nat) run_env" where
  "small_env ready fuel = \<lparr>re_jobs = (\<lambda>_. \<lparr>je_exec = (\<lambda>j c. (1, [])), je_clear = (\<lambda>c. c),
     je_ready = (\<lambda>k js. ready)\<rparr>), re_fuel = fuel, re_depth = 1, re_late = (\<lambda>_. 0), re_runtime = (\<lambda>_. plain_thread)\<rparr>"

lemma small_call: "call_function small_boa meth JNull s = (Inr 7, (fst s, enqueue_job (AsyncJob 1) (snd s)))"
  by (simp add: call_function_def lookup_function_def seq_def map_err_def ok_or_def as_object_def small_boa_def)

text \<open>
  C10. One complete run of the job queues decides a call: a promise it leaves pending has no job left
  that could settle it, so the polls that follow only wait for the time to be up. The asynchronous version
  always behaves like that (\<open>one_run\<close>), and the blocking version does, with the same answer, on a thread
  that can block; 3002 and 602 polls are enough for them. On a thread that cannot, one that drives the tasks
  of a runtime of \<open>tokio\<close>, the blocking version panics once the function has been called, promise or not:
  the runtime within a runtime that the asynchronous one is there to avoid.
\<close>

theorem one_run_decides:
  assumes "re_late env 0 < from_millis MAX_PROMISE_WAIT_MS"
  shows "call_rpc_async b env 3002 meth args s = one_run b env (run_async env 0) meth args s
    \<and> ((\<forall>i. can_block (re_runtime env i)) \<longrightarrow> call_rpc b env 602 meth args s = one_run b env (run_async env 0) meth args s)
    \<and> (\<not> can_block (re_runtime env 0) \<longrightarrow> call_rpc b env 602 meth args s = (case call_function b meth args s of
         (Inl e, s') \<Rightarrow> Finished (Inl e, s') | (Inr v, s') \<Rightarrow> Panicked))"
proof (intro conjI impI)
  show "call_rpc_async b env 3002 meth args s = one_run b env (run_async env 0) meth args s"
    using run_rpc_one_run [OF assms, of "from_millis PROMISE_POLL_INTERVAL_ASYNC_MS" 3000 b meth args s]
    by (simp add: call_rpc_async_def PROMISE_POLL_INTERVAL_ASYNC_MS_def MAX_PROMISE_WAIT_MS_def)
  show "call_rpc b env 602 meth args s = one_run b env (run_async env 0) meth args s"
    if "\<forall>i. can_block (re_runtime env i)"
    using run_rpc_one_run [OF assms, of "from_millis PROMISE_POLL_INTERVAL_SYNC_MS" 600 b meth args s]
    by (simp add: call_rpc_def blocking_is_async [OF that] PROMISE_POLL_INTERVAL_SYNC_MS_def MAX_PROMISE_WAIT_MS_def)
  show "call_rpc b env 602 meth args s = (case call_function b meth args s of
      (Inl e, s') \<Rightarrow> Finished (Inl e, s') | (Inr v, s') \<Rightarrow> Panicked)" if "\<not> can_block (re_runtime env 0)"
    using blocking_panics [OF that assms, of b "from_millis PROMISE_POLL_INTERVAL_SYNC_MS" 601 meth args s]
    by (simp add: call_rpc_def one_run_def split: prod.split sum.split)
qed

theorem one_run_decides_witness:
  "(\<exists>s'. call_rpc small_boa (small_env (Some 0) 2) 602 ''f'' JNull (0, queues_new) = Finished (Inr JNull, s'))
   \<and> call_rpc small_boa ((small_env (Some 0) 2)\<lparr>re_runtime := \<lambda>_. driving_thread\<rparr>) 602 ''f'' JNull (0, queues_new) = Panicked"
proof -
  have r: "run_async (small_env (Some 0) 2) 0 (0, enqueue_job (AsyncJob 1) queues_new) = Finished (1, queues_new)"
    by (simp add: run_async_def small_env_def queues_new_def poll_once_def run_job_def drain_jobs_def Let_def eval_nat_numeral)
  have b: "boa_is_object small_boa 7" "boa_is_promise small_boa 7" "boa_state small_boa 7 (1, queues_new) = Fulfilled 1"
    "re_depth (small_env (Some 0) 2) = Suc 0" "js_value_to_json small_boa (Suc 0) 1 (1, queues_new) = Some (Inr JNull, 1, queues_new)"
    by (simp_all add: small_boa_def small_env_def)
  have o: "one_run small_boa (small_env (Some 0) 2) (run_async (small_env (Some 0) 2) 0) ''f'' JNull (0, queues_new)
      = Finished (Inr JNull, (1, queues_new))"
    using r b by (simp add: one_run_def small_call converted_def)
  have late: "re_late (small_env (Some 0) 2) 0 < from_millis MAX_PROMISE_WAIT_MS"
    by (simp add: small_env_def MAX_PROMISE_WAIT_MS_def)
  have "\<forall>i. can_block (re_runtime (small_env (Some 0) 2) i)" by (simp add: small_env_def)
  with o have "call_rpc small_boa (small_env (Some 0) 2) 602 ''f'' JNull (0, queues_new) = Finished (Inr JNull, (1, queues_new))"
    using one_run_decides [OF late] by metis
  moreover have "call_rpc small_boa ((small_env (Some 0) 2)\<lparr>re_runtime := \<lambda>_. driving_thread\<rparr>) 602 ''f'' JNull (0, queues_new) = Panicked"
    using one_run_decides [of "(small_env (Some 0) 2)\<lparr>re_runtime := \<lambda>_. driving_thread\<rparr>" small_boa "''f''" JNull "(0, queues_new)"] late
    by (simp add: small_call)
  ultimately show ?thesis by simp
qed

text \<open>
  C25. The limit of 30 seconds is only looked at between complete runs of the queues: when an
  asynchronous job of the function (an RPC in flight) never completes, the call never returns,
  however many polls and turns it is given.
\<close>

theorem hanging_call_never_returns:
  assumes "call_function b meth args s = (Inr v, s1)" "boa_is_object b v" "boa_is_promise b v"
    and "async_jobs (snd s1) \<noteq> []" "\<And>k js. je_ready (re_jobs env 0) k js = None"
    and "re_late env 0 < from_millis MAX_PROMISE_WAIT_MS"
  shows "call_rpc b (env\<lparr>re_fuel := fuel\<rparr>) polls meth args s \<notin> range Finished
    \<and> call_rpc_async b (env\<lparr>re_fuel := fuel\<rparr>) polls meth args s \<notin> range Finished"
  using hanging_promise [of "env\<lparr>re_fuel := fuel\<rparr>" s1 "re_late env 0" _ b _ v polls] assms
  by (auto simp: call_rpc_def call_rpc_async_def run_rpc_def)

theorem hanging_call_never_returns_witness:
  "call_rpc small_boa ((small_env None 0)\<lparr>re_fuel := 1000000\<rparr>) 602 ''f'' JNull (0, queues_new)
     \<notin> range Finished"
  by (rule hanging_call_never_returns [OF small_call, THEN conjunct1])
    (simp_all add: small_boa_def small_env_def queues_new_def MAX_PROMISE_WAIT_MS_def)

text \<open>
  Converting arguments for a script fails only when the engine fails, always with the error of a
  failed execution; every number is accepted, an integer beyond 2^53 being rounded.
\<close>

theorem conversion_errors:
  assumes "json_to_js_value b j s = (r, s')"
  shows "((\<exists>v. r = Inr v) \<or> (\<exists>m. r = Inl (JavaScriptExecution m))) \<and> (\<forall>n. j = JNumber n \<longrightarrow> r \<in> Inr ` range (boa_f64 b))"
proof (intro conjI allI impI)
  show "(\<exists>v. r = Inr v) \<or> (\<exists>m. r = Inl (JavaScriptExecution m))"
    using json_to_js_errors(1) [of b j s] assms by (cases r) auto
  show "r \<in> Inr ` range (boa_f64 b)" if "j = JNumber n" for n using assms that by (cases n) auto
qed

theorem conversion_errors_witness:
  "\<exists>m s'. json_to_js_value small_boa (JArray [JNull]) (0, queues_new) = (Inl (JavaScriptExecution m), s')"
proof -
  obtain r s' where c: "json_to_js_value small_boa (JArray [JNull]) (0, queues_new) = (r, s')" by (metis surj_pair)
  then have "\<nexists>v. r = Inr v" by (auto simp: small_boa_def)
  with conversion_errors [OF c] c show ?thesis by blast
qed

end
