(* ===== verification/NodeServer.thy ===== *)
theory NodeServer
  imports Runtime HttpFront Registry
begin

text \<open>
  A compute node: its limits (\<open>madrpc-server/src/resource_limits.rs\<close>), the node with its cached
  script and metrics and its registration with an orchestrator (\<open>node.rs\<close>), the router
  (\<open>http_router.rs\<close>) and the handler of its HTTP server with its gates (\<open>http_server.rs\<close>). The
  file system is a function from paths; the outcome of the JavaScript is that of \<open>Runtime\<close>.
\<close>

section \<open>Resource limits\<close>

record resource_limits =
  execution_timeout :: duration

definition default_limits :: resource_limits where
  "default_limits = \<lparr>execution_timeout = from_secs 30\<rparr>"

definition limits_new :: resource_limits where
  "limits_new = default_limits"

definition with_execution_timeout :: "duration \<Rightarrow> resource_limits \<Rightarrow> resource_limits" where
  "with_execution_timeout t l = l\<lparr>execution_timeout := t\<rparr>"

definition as_secs :: "duration \<Rightarrow> nat" where
  "as_secs d = d div 1000000000"

definition as_millis :: "duration \<Rightarrow> nat" where
  "as_millis d = d div 1000000"

definition validate_limits :: "resource_limits \<Rightarrow> string + unit" where
  "validate_limits l =
     (if execution_timeout l = 0 then Inl ''execution timeout must be greater than zero''
      else if as_secs (execution_timeout l) > 3600
      then Inl (''execution timeout must be <= 1 hour (got '' @ dec (as_secs (execution_timeout l)) @ '' seconds)'')
      else Inr ())"

section \<open>The node\<close>

record compute_node =
  cn_script_path :: string
  cn_script :: string
  cn_metrics :: registry
  cn_clock :: ts_clock
  cn_client :: "client option"
  cn_limits :: resource_limits

text \<open>A path that exists has a text or an error of reading it.\<close>

type_synonym files = "string \<Rightarrow> (string + string) option"

definition load_script :: "files \<Rightarrow> string \<Rightarrow> resource_limits \<Rightarrow> string result" where
  "load_script fs path limits = (case validate_limits limits of
     Inl e \<Rightarrow> Inl (InvalidRequest (''Invalid resource limits: '' @ e))
   | Inr _ \<Rightarrow> (case fs path of
       None \<Rightarrow> Inl (InvalidRequest (''Script path does not exist: '' @ path))
     | Some (Inl e) \<Rightarrow> Inl (InvalidRequest (''Failed to load script: '' @ e))
     | Some (Inr script) \<Rightarrow> Inr script))"

definition with_resource_limits :: "files \<Rightarrow> instant \<Rightarrow> ts_clock \<Rightarrow> string \<Rightarrow> resource_limits \<Rightarrow> compute_node result" where
  "with_resource_limits fs now clock path limits = (case load_script fs path limits of
     Inl e \<Rightarrow> Inl e
   | Inr script \<Rightarrow> Inr \<lparr>cn_script_path = path, cn_script = script, cn_metrics = registry_new now,
       cn_clock = clock, cn_client = None, cn_limits = limits\<rparr>)"

definition compute_node_new :: "files \<Rightarrow> instant \<Rightarrow> ts_clock \<Rightarrow> string \<Rightarrow> compute_node result" where
  "compute_node_new fs now clock path = with_resource_limits fs now clock path default_limits"

definition with_orchestrator_and_resource_limits ::
  "files \<Rightarrow> instant \<Rightarrow> ts_clock \<Rightarrow> string \<Rightarrow> string \<Rightarrow> resource_limits \<Rightarrow> compute_node result" where
  "with_orchestrator_and_resource_limits fs now clock path orchestrator_addr limits =
     (case load_script fs path limits of
        Inl e \<Rightarrow> Inl e
      | Inr script \<Rightarrow> (case client_new orchestrator_addr of
          Inl e \<Rightarrow> Inl (InvalidRequest (''Failed to create orchestrator client: '' @ error_to_string e))
        | Inr cl \<Rightarrow> Inr \<lparr>cn_script_path = path, cn_script = script, cn_metrics = registry_new now,
            cn_clock = clock, cn_client = Some cl, cn_limits = limits\<rparr>))"

definition with_orchestrator :: "files \<Rightarrow> instant \<Rightarrow> ts_clock \<Rightarrow> string \<Rightarrow> string \<Rightarrow> compute_node result" where
  "with_orchestrator fs now clock path orchestrator_addr =
     with_orchestrator_and_resource_limits fs now clock path orchestrator_addr default_limits"

text \<open>\<open>None\<close> is the panic of \<open>expect\<close>.\<close>

definition and_resource_limits :: "resource_limits \<Rightarrow> compute_node \<Rightarrow> compute_node option" where
  "and_resource_limits limits n = (case validate_limits limits of
     Inl e \<Rightarrow> None | Inr _ \<Rightarrow> Some (n\<lparr>cn_limits := limits\<rparr>))"

definition node_record :: "string \<Rightarrow> instant \<Rightarrow> instant \<Rightarrow> bool \<Rightarrow> compute_node \<Rightarrow> compute_node" where
  "node_record meth start end' success n = (case record_call meth start end' success (cn_metrics n) (cn_clock n) of
     (r, c) \<Rightarrow> n\<lparr>cn_metrics := r, cn_clock := c\<rparr>)"

text \<open>
  What an execution depends on: the engine, its jobs and bounds; an error when no \<open>tokio\<close> runtime is
  there; the text of the error of a task that panicked; the time the task takes, which is over every limit
  for a task that does not end; the clock before and after.
\<close>

record ('j, 'c, 'v, 'k) exec_env =
  xe_boa :: "('c \<times> 'j queues, 'v, 'k) boa"
  xe_run :: "('j, 'c) run_env"
  xe_polls :: nat
  xe_no_runtime :: "string option"
  xe_join_text :: string
  xe_took :: duration
  xe_start :: instant
  xe_end :: instant

text \<open>A fresh context for every request, with the client when the node has one.\<close>

definition open_context :: "('j, 'c, 'v, 'k) exec_env \<Rightarrow> compute_node \<Rightarrow> ('c \<times> 'j queues) js_context result" where
  "open_context env n = (case cn_client n of
     Some cl \<Rightarrow> with_client_from_source (xe_boa env) (cn_script n) (Some cl)
   | None \<Rightarrow> from_source (xe_boa env) (cn_script n))"

text \<open>The blocking \<open>handle_request\<close>; the error of opening the context is returned before anything is recorded.\<close>

definition node_handle_request :: "('j, 'c, 'v, 'k) exec_env \<Rightarrow> string \<Rightarrow> request \<Rightarrow> compute_node
    \<Rightarrow> (response result \<times> compute_node) outcome" where
  "node_handle_request env version req n =
     (if is_metrics_request (rq_method req) then
        (case handle_metrics_request ServerNode version (xe_end env) (rq_method req) (rq_id req) (cn_metrics n) of
           None \<Rightarrow> Panicked
         | Some res \<Rightarrow> Finished (Inr res, n))
      else case open_context env n of
        Inl e \<Rightarrow> Finished (Inl e, n)
      | Inr cx \<Rightarrow> (case call_rpc (xe_boa env) (xe_run env) (xe_polls env) (rq_method req) (rq_args req) (cx_state cx) of
          Unfinished \<Rightarrow> Unfinished
        | Panicked \<Rightarrow> Panicked
        | Finished (Inr v, _) \<Rightarrow> Finished (Inr (response_success (rq_id req) v),
            node_record (rq_method req) (xe_start env) (xe_end env) True n)
        | Finished (Inl e, _) \<Rightarrow> Finished (Inr (response_error (rq_id req) (error_to_string e)),
            node_record (rq_method req) (xe_start env) (xe_end env) False n)))"

text \<open>
  The task of \<open>call_rpc\<close> on its blocking thread: the script is read first, the function is called
  inside \<open>block_on\<close>, on a runtime of the task's own.
\<close>

definition execution_task :: "('j, 'c, 'v, 'k) exec_env \<Rightarrow> string \<Rightarrow> json \<Rightarrow> compute_node \<Rightarrow> json result outcome" where
  "execution_task env meth params n = (case open_context env n of
     Inl e \<Rightarrow> Finished (Inl e)
   | Inr cx \<Rightarrow> (case block_on_new (re_runtime (xe_run env) 0) False
         (call_rpc_async (xe_boa env) (xe_run env) (xe_polls env) meth params (cx_state cx)) of
       Unfinished \<Rightarrow> Unfinished
     | Panicked \<Rightarrow> Panicked
     | Finished (r, _) \<Rightarrow> Finished r))"

definition time_limit_error :: "compute_node \<Rightarrow> madrpc_error" where
  "time_limit_error n = JavaScriptExecution (''JavaScript execution exceeded time limit of ''
     @ dec (as_millis (execution_timeout (cn_limits n))) @ ''ms'')"

text \<open>
  \<open>call_rpc\<close>: the caller waits for the task no longer than the limit; a task that is over the limit goes
  on without anyone waiting for it. Neither the limit nor a panic is recorded. A task within the limit
  that exhausts the bounds of the model has no answer.
\<close>

definition node_call_rpc :: "('j, 'c, 'v, 'k) exec_env \<Rightarrow> string \<Rightarrow> json \<Rightarrow> compute_node
    \<Rightarrow> (json result \<times> compute_node) outcome" where
  "node_call_rpc env meth params n = (case xe_no_runtime env of
     Some e \<Rightarrow> Finished (Inl (JavaScriptExecution (''No tokio runtime: '' @ e)), n)
   | None \<Rightarrow>
       if xe_took env > execution_timeout (cn_limits n) then Finished (Inl (time_limit_error n), n)
       else (case execution_task env meth params n of
           Unfinished \<Rightarrow> Unfinished
         | Panicked \<Rightarrow> Finished (Inl (JavaScriptExecution (''Task join error: '' @ xe_join_text env)), n)
         | Finished r \<Rightarrow> Finished (r, node_record meth (xe_start env) (xe_end env) (is_ok r) n)))"

definition node_get_metrics :: "instant \<Rightarrow> compute_node \<Rightarrow> metrics_snapshot result" where
  "node_get_metrics now n = Inr (registry_snapshot now False (cn_metrics n))"

text \<open>The version and the uptime of \<open>NodeInfo\<close>.\<close>

definition node_get_info :: "string \<Rightarrow> instant \<Rightarrow> compute_node \<Rightarrow> (string \<times> u64) result" where
  "node_get_info version now n = Inr (version, ms_uptime_ms (registry_snapshot now False (cn_metrics n)))"

definition node_info_json :: "string \<times> u64 \<Rightarrow> json" where
  "node_info_json i = JObject [(''server_type'', JString ''node''), (''version'', JString (fst i)),
     (''uptime_ms'', u64_json (snd i))]"

section \<open>Registration with an orchestrator\<close>

datatype register_event = RegisterSent nat | RegisterSlept duration

definition register_max_attempts :: nat where "register_max_attempts = 5"

text \<open>\<open>answer i\<close> is what the client's call of attempt \<open>i\<close> returns.\<close>

function register_loop :: "(nat \<Rightarrow> json result) \<Rightarrow> nat \<Rightarrow> duration \<Rightarrow> unit result \<times> register_event list" where
  "register_loop answer attempt delay =
     (let attempt = attempt + 1 in
      case answer attempt of
        Inr _ \<Rightarrow> (Inr (), [RegisterSent attempt])
      | Inl e \<Rightarrow>
          if attempt \<ge> register_max_attempts
          then (Inl (Transport (''Failed to register after '' @ dec register_max_attempts @ '' attempts: ''
                  @ error_to_string e)), [RegisterSent attempt])
          else (case register_loop answer attempt (delay * 2) of (r, events) \<Rightarrow>
            (r, RegisterSent attempt # RegisterSlept delay # events)))"
  by pat_completeness auto
termination
  by (relation "measure (\<lambda>(_, attempt, _). register_max_attempts - attempt)") auto

declare register_loop.simps [simp del]

definition register_call :: "http_lib \<Rightarrow> (nat \<Rightarrow> nat \<Rightarrow> bool \<times> u64) \<Rightarrow> (nat \<Rightarrow> nat \<Rightarrow> http_outcome) \<Rightarrow> (nat \<Rightarrow> u64)
    \<Rightarrow> client \<Rightarrow> string \<Rightarrow> nat \<Rightarrow> json result" where
  "register_call lib rand net counter cl public_url i =
     fst (call lib (rand i) (net i) cl ''_register'' (JObject [(''node_url'', JString public_url)]) (counter i))"

definition register_with_orchestrator :: "http_lib \<Rightarrow> (nat \<Rightarrow> nat \<Rightarrow> bool \<times> u64) \<Rightarrow> (nat \<Rightarrow> nat \<Rightarrow> http_outcome)
    \<Rightarrow> (nat \<Rightarrow> u64) \<Rightarrow> string \<Rightarrow> compute_node \<Rightarrow> unit result \<times> register_event list" where
  "register_with_orchestrator lib rand net counter public_url n = (case cn_client n of
     None \<Rightarrow> (Inl (InvalidRequest ''No orchestrator client configured''), [])
   | Some cl \<Rightarrow> register_loop (register_call lib rand net counter cl public_url) 0 (from_millis 500))"


section \<open>The router\<close>

text \<open>The result type of the code allows an error that no branch returns.\<close>

definition node_router :: "('j, 'c, 'v, 'k) exec_env \<Rightarrow> string \<Rightarrow> json_rpc_request \<Rightarrow> compute_node
    \<Rightarrow> ((json_rpc_error + json_rpc_response) \<times> compute_node) outcome" where
  "node_router env version req n =
     (if req_method req = ''_health'' then Finished (Inr (rpc_success (req_id req) health_to_json), n)
      else if req_method req = ''_metrics'' then
        Finished (Inr (case node_get_metrics (xe_end env) n of
           Inr m \<Rightarrow> rpc_success (req_id req) (snapshot_to_json m)
         | Inl e \<Rightarrow> rpc_error (req_id req) (internal_error (error_to_string e))), n)
      else if req_method req = ''_info'' then
        Finished (Inr (case node_get_info version (xe_end env) n of
           Inr i \<Rightarrow> rpc_success (req_id req) (node_info_json i)
         | Inl e \<Rightarrow> rpc_error (req_id req) (internal_error (error_to_string e))), n)
      else (case node_call_rpc env (req_method req) (req_params req) n of
          Unfinished \<Rightarrow> Unfinished
        | Panicked \<Rightarrow> Panicked
        | Finished (Inr result, n) \<Rightarrow> Finished (Inr (rpc_success (req_id req) result), n)
        | Finished (Inl (InvalidRequest _), n) \<Rightarrow> Finished (Inr (rpc_error (req_id req) method_not_found), n)
        | Finished (Inl (JavaScriptExecution msg), n) \<Rightarrow> Finished (Inr (rpc_error (req_id req) (server_error msg)), n)
        | Finished (Inl _, n) \<Rightarrow> Finished (Inr (rpc_error (req_id req) method_not_found), n)))"

section \<open>The HTTP server\<close>

definition MAX_BODY_SIZE :: nat where "MAX_BODY_SIZE = 10 * 1024 * 1024"

record node_server =
  sv_node :: compute_node
  sv_auth :: auth_config
  sv_limiter :: rate_limiter

definition server_new :: "instant \<Rightarrow> compute_node \<Rightarrow> node_server" where
  "server_new t n = \<lparr>sv_node = n, sv_auth = default_auth, sv_limiter = rl_disabled t\<rparr>"

definition server_with_auth :: "auth_config \<Rightarrow> node_server \<Rightarrow> node_server" where
  "server_with_auth cfg s = s\<lparr>sv_auth := cfg\<rparr>"

definition server_with_rate_limit :: "instant \<Rightarrow> rate_limit_config \<Rightarrow> node_server \<Rightarrow> node_server" where
  "server_with_rate_limit t cfg s = s\<lparr>sv_limiter := rl_new cfg t\<rparr>"

definition node_unauthorized :: http_reply where
  "node_unauthorized = \<lparr>reply_status = 401, reply_headers = [(''Content-Type'', ''application/json'')],
     reply_body = unauthorized_body\<rparr>"

definition node_rate_limited :: "serde \<Rightarrow> duration option \<Rightarrow> http_reply" where
  "node_rate_limited sd w = \<lparr>reply_status = 429,
     reply_headers = [(''Content-Type'', ''application/json''), (''Retry-After'', retry_after_secs w)],
     reply_body = print_json sd (rate_limited_json (retry_after_secs w))\<rparr>"

text \<open>
  \<open>handle_request\<close>, from the limiter's verdict on; \<open>body\<close> is what reading the body gives, \<open>debug\<close> the
  debug text of an error of the router.
\<close>

definition server_judged :: "serde \<Rightarrow> (json_rpc_error \<Rightarrow> string) \<Rightarrow> ('j, 'c, 'v, 'k) exec_env \<Rightarrow> string
    \<Rightarrow> rate_limit_result \<Rightarrow> bool \<Rightarrow> headers \<Rightarrow> string + string \<Rightarrow> node_server
    \<Rightarrow> (http_reply \<times> node_server) outcome" where
  "server_judged sd debug env version result is_post hs body s =
     (if \<not> is_allowed result then Finished (node_rate_limited sd (retry_after result), s)
      else if requires_auth (sv_auth s) \<and> \<not> validate_api_key (provided_key hs) (sv_auth s)
      then Finished (node_unauthorized, s)
      else if \<not> is_post then Finished (to_http_error sd JNull invalid_request, s)
      else case body of
        Inl e \<Rightarrow> Finished (to_http_error sd JNull (internal_error ''Failed to read request body''), s)
      | Inr body \<Rightarrow>
          if length body > MAX_BODY_SIZE
          then Finished (to_http_error sd JNull (request_too_large MAX_BODY_SIZE), s)
          else case parse_jsonrpc (parse_tree sd) (request_shape sd) body of
            Inl e \<Rightarrow> Finished (to_http_error sd JNull parse_error, s)
          | Inr req \<Rightarrow> (case node_router env version req (sv_node s) of
              Unfinished \<Rightarrow> Unfinished
            | Panicked \<Rightarrow> Panicked
            | Finished (Inr res, n) \<Rightarrow> Finished (to_http_response sd res, s\<lparr>sv_node := n\<rparr>)
            | Finished (Inl e, n) \<Rightarrow> Finished (to_http_error sd JNull (internal_error (debug e)), s\<lparr>sv_node := n\<rparr>)))"

text \<open>The whole of it for a request alone; \<open>Panicked\<close> is a panic of the limiter.\<close>

definition server_handle_request :: "serde \<Rightarrow> (json_rpc_error \<Rightarrow> string) \<Rightarrow> ('j, 'c, 'v, 'k) exec_env \<Rightarrow> string
    \<Rightarrow> instant \<Rightarrow> instant \<Rightarrow> ip_addr \<Rightarrow> bool \<Rightarrow> headers \<Rightarrow> string + string \<Rightarrow> node_server
    \<Rightarrow> (http_reply \<times> node_server) outcome" where
  "server_handle_request sd debug env version now created ip is_post hs body s =
     (case check_rate_limit now created ip (sv_limiter s) of (verdict, limiter) \<Rightarrow>
      let s = s\<lparr>sv_limiter := limiter\<rparr> in
      case verdict of
        None \<Rightarrow> Panicked
      | Some result \<Rightarrow> server_judged sd debug env version result is_post hs body s)"

section \<open>Registration is a bounded retry\<close>

definition register_out :: "json result \<Rightarrow> unit result" where
  "register_out r = (case r of Inr _ \<Rightarrow> Inr ()
     | Inl e \<Rightarrow> Inl (Transport (''Failed to register after '' @ dec register_max_attempts @ '' attempts: '' @ error_to_string e)))"

definition register_delay :: "nat \<Rightarrow> duration" where
  "register_delay i = from_millis 500 * 2 ^ i"

definition register_from :: "(nat \<Rightarrow> json result) \<Rightarrow> nat \<Rightarrow> nat \<Rightarrow> register_event list
    \<Rightarrow> (unit result \<times> register_event list) option" where
  "register_from answer left i es = Some (map_prod id (append es) (register_loop answer i (register_delay i)))"

definition register_attempt :: "(nat \<Rightarrow> json result) \<Rightarrow> nat \<Rightarrow> register_event list \<Rightarrow> json result \<times> register_event list" where
  "register_attempt answer i es = (answer (Suc i), es @ [RegisterSent (Suc i)])"

definition register_pause :: "nat \<Rightarrow> register_event list \<Rightarrow> register_event list" where
  "register_pause i es = es @ [RegisterSlept (register_delay i)]"

interpretation registration: retry_loop "register_from answer" "register_attempt answer" register_pause
    is_ok register_out "register_max_attempts - 1" "\<lambda>_. True"
  for answer
proof
  fix i left :: nat and es
  assume i: "i + left = register_max_attempts - 1"
  have d: "register_delay i * 2 = register_delay (Suc i)" by (simp add: register_delay_def)
  have "(register_max_attempts \<le> Suc i) = (left = 0)" using i by (simp add: register_max_attempts_def) arith
  with d show "register_from answer (Suc left) i es = (case register_attempt answer i es of (r, es') \<Rightarrow>
      if is_ok r \<or> left = 0 then Some (register_out r, es')
      else register_from answer left (Suc i) (register_pause i es'))"
    by (cases "answer (Suc i)") (auto simp: register_from_def register_attempt_def register_pause_def register_out_def
        register_loop.simps [of answer i] Let_def split: prod.split)
qed simp_all

lemma register_run:
  "register_loop answer 0 (from_millis 500) = (case retry_run (register_attempt answer) register_pause is_ok
     register_max_attempts 0 [] of (rs, es) \<Rightarrow> (register_out (last rs), es))"
proof -
  have "Suc (register_max_attempts - 1) = register_max_attempts" by (simp add: register_max_attempts_def)
  then show ?thesis using registration.loop_run [of 0 "register_max_attempts - 1" answer "[]"]
    by (simp add: register_from_def register_delay_def split_beta prod_eq_iff)
qed

text \<open>The time slept.\<close>

definition slept :: "register_event list \<Rightarrow> duration" where
  "slept es = sum_list (map (\<lambda>e. case e of RegisterSlept d \<Rightarrow> d | RegisterSent i \<Rightarrow> 0) es)"

lemma register_loop_slept:
  "attempt < register_max_attempts \<Longrightarrow>
   slept (snd (register_loop answer attempt d)) + d \<le> d * 2 ^ (register_max_attempts - 1 - attempt)"
proof (induction "register_max_attempts - attempt" arbitrary: attempt d)
  case (Suc k)
  show ?case
  proof (cases "is_ok (answer (Suc attempt)) \<or> register_max_attempts \<le> Suc attempt")
    case True
    then show ?thesis by (cases "answer (Suc attempt)") (auto simp: register_loop.simps [of answer attempt] slept_def Let_def)
  next
    case False
    then obtain e where e: "answer (Suc attempt) = Inl e" by (cases "answer (Suc attempt)") auto
    have "slept (snd (register_loop answer (Suc attempt) (d * 2))) + d * 2
      \<le> d * 2 * 2 ^ (register_max_attempts - 1 - Suc attempt)"
      by (rule Suc.hyps(1)) (use Suc.hyps(2) False in auto)
    moreover have "(2 :: nat) ^ (register_max_attempts - 1 - attempt) = 2 * 2 ^ (register_max_attempts - 1 - Suc attempt)"
      using False by (metis (no_types, lifting) Suc_diff_Suc Suc_le_eq diff_Suc_eq_diff_pred not_le_imp_less power_Suc)
    ultimately show ?thesis using False e
      by (simp add: register_loop.simps [of answer attempt] slept_def Let_def split_beta algebra_simps)
  qed
qed simp


section \<open>Facts about the handler\<close>

fun is_sent :: "register_event \<Rightarrow> bool" where
  "is_sent (RegisterSent i) = True"
| "is_sent (RegisterSlept d) = False"

lemma register_run_sent:
  "length (filter is_sent (snd (retry_run (register_attempt answer) register_pause is_ok left i es)))
     = length (filter is_sent es) + length (fst (retry_run (register_attempt answer) register_pause is_ok left i es))"
proof (induction left arbitrary: i es)
  case (Suc left)
  show ?case using Suc.IH [of "Suc i" "register_pause i (es @ [RegisterSent (Suc i)])"]
    by (simp add: register_attempt_def register_pause_def split_beta)
qed simp

definition node_counters :: "compute_node \<Rightarrow> u64 \<times> u64 \<times> u64" where
  "node_counters n = (total_requests (cn_metrics n), successful_requests (cn_metrics n), failed_requests (cn_metrics n))"

lemma node_record_counters:
  "node_counters (node_record meth t0 t1 ok n) = (case node_counters n of (t, s, f) \<Rightarrow> (t + 1, s + of_bool ok, f + of_bool (\<not> ok)))"
  by (simp add: node_counters_def node_record_def record_call_def split_beta method_call_counts)

text \<open>The methods the router answers itself.\<close>

definition built_in :: "string \<Rightarrow> bool" where
  "built_in meth = (meth = ''_health'' \<or> meth = ''_metrics'' \<or> meth = ''_info'')"

text \<open>The answer to a call of a script's function, by the kind of the error.\<close>

definition answer_of :: "json \<Rightarrow> json result \<Rightarrow> json_rpc_response" where
  "answer_of i r = (case r of Inr v \<Rightarrow> rpc_success i v
     | Inl (JavaScriptExecution msg) \<Rightarrow> rpc_error i (server_error msg)
     | Inl _ \<Rightarrow> rpc_error i method_not_found)"

lemma router_answers:
  "\<not> built_in (req_method req) \<Longrightarrow> node_router env version req n =
     (case node_call_rpc env (req_method req) (req_params req) n of
        Finished (r, n') \<Rightarrow> Finished (Inr (answer_of (req_id req) r), n')
      | Panicked \<Rightarrow> Panicked | Unfinished \<Rightarrow> Unfinished)"
  by (auto simp: node_router_def built_in_def answer_of_def split: outcome.split prod.split sum.split madrpc_error.split)

lemma call_no_panic: "node_call_rpc env meth params n \<noteq> Panicked"
  by (auto simp: node_call_rpc_def split: option.split outcome.split)

lemma router_never_errs:
  "(\<exists>res n'. node_router env version req n = Finished (Inr res, n')) \<or> node_router env version req n = Unfinished"
proof (cases "built_in (req_method req)")
  case True
  then show ?thesis by (auto simp: node_router_def built_in_def node_get_metrics_def node_get_info_def)
next
  case False
  then show ?thesis using call_no_panic [of env "req_method req" "req_params req" n]
    by (auto simp: router_answers split: outcome.splits)
qed

lemma read_answer:
  "read_response (answer_of i r) = (case r of Inr v \<Rightarrow> Inr v
     | Inl (JavaScriptExecution msg) \<Rightarrow> Inl (JavaScriptExecution msg)
     | Inl _ \<Rightarrow> Inl (InvalidRequest ''Method not found: Method not found''))"
  by (auto simp: answer_of_def read_response_def rpc_success_def rpc_error_def classify_error_def rpc_error_defs Let_def
      split: sum.split madrpc_error.split)

text \<open>A request that passes the limiter, the key and the method, with a body that is a request.\<close>

definition node_admits :: "serde \<Rightarrow> rate_limit_result \<Rightarrow> bool \<Rightarrow> headers \<Rightarrow> string + string \<Rightarrow> auth_config \<Rightarrow> json_rpc_request \<Rightarrow> bool" where
  "node_admits sd result is_post hs body cfg req \<longleftrightarrow> result = Allowed \<and> api_key cfg \<in> {None, Some (provided_key hs)} \<and> is_post
     \<and> (\<exists>t. body = Inr t \<and> length t \<le> MAX_BODY_SIZE
          \<and> parse_jsonrpc (parse_tree sd) (request_shape sd) t = Inr req)"

lemma node_key:
  "(requires_auth cfg \<and> \<not> validate_api_key (provided_key hs) cfg) = (api_key cfg \<notin> {None, Some (provided_key hs)})"
  using auth_ok_iff [of cfg hs] by (auto simp: auth_ok_def)

lemma admitted_judged:
  assumes "node_admits sd result is_post hs body (sv_auth s) req"
  shows "server_judged sd debug env version result is_post hs body s = (case node_router env version req (sv_node s) of
      Unfinished \<Rightarrow> Unfinished
    | Panicked \<Rightarrow> Panicked
    | Finished (Inr res, n) \<Rightarrow> Finished (to_http_response sd res, s\<lparr>sv_node := n\<rparr>)
    | Finished (Inl e, n) \<Rightarrow> Finished (to_http_error sd JNull (internal_error (debug e)), s\<lparr>sv_node := n\<rparr>))"
  using assms node_key [of "sv_auth s" hs] by (auto simp: server_judged_def node_admits_def allowed_iff)

lemma admitted_reply:
  assumes "check_rate_limit now created ip (sv_limiter s) = (Some result, limiter)"
    and "node_admits sd result is_post hs body (sv_auth s) req" "node_router env version req (sv_node s) = Finished (Inr res, n)"
  shows "server_handle_request sd debug env version now created ip is_post hs body s
    = Finished (to_http_response sd res, s\<lparr>sv_limiter := limiter, sv_node := n\<rparr>)"
  using assms admitted_judged [of sd result is_post hs body "s\<lparr>sv_limiter := limiter\<rparr>" req debug env version]
  by (simp add: server_handle_request_def)

lemma refused_judged:
  assumes "\<And>req. \<not> node_admits sd result is_post hs body (sv_auth s) req"
  shows "\<exists>reply. server_judged sd debug env version result is_post hs body s = Finished (reply, s)
    \<and> reply_status reply = (if result \<noteq> Allowed then 429
        else if api_key (sv_auth s) \<notin> {None, Some (provided_key hs)} then 401 else 200)"
proof (cases "result = Allowed \<and> api_key (sv_auth s) \<in> {None, Some (provided_key hs)}")
  case True
  then have ok: "(requires_auth (sv_auth s) \<and> \<not> validate_api_key (provided_key hs) (sv_auth s)) = False"
    using node_key [of "sv_auth s" hs] by simp
  note defs = server_judged_def allowed_iff ok to_http_error_def to_http_response_def
  consider "\<not> is_post" | "is_post" "\<exists>e. body = Inl e" | t where "is_post" "body = Inr t" by (cases body) auto
  then show ?thesis
  proof cases
    case (3 t)
    have "\<not> length t > MAX_BODY_SIZE \<Longrightarrow> \<exists>e. parse_jsonrpc (parse_tree sd) (request_shape sd) t = Inl e"
      using assms [of "projr (parse_jsonrpc (parse_tree sd) (request_shape sd) t)"] True 3
      by (cases "parse_jsonrpc (parse_tree sd) (request_shape sd) t") (simp_all add: node_admits_def)
    with True 3 show ?thesis by (cases "length t > MAX_BODY_SIZE") (auto simp: defs)
  qed (use True in \<open>auto simp: defs\<close>)
next
  case False
  then show ?thesis using node_key [of "sv_auth s" hs]
    by (auto simp: server_judged_def allowed_iff node_rate_limited_def node_unauthorized_def)
qed

lemma refused_reply:
  assumes "check_rate_limit now created ip (sv_limiter s) = (Some result, limiter)"
    and "\<And>req. \<not> node_admits sd result is_post hs body (sv_auth s) req"
  shows "\<exists>reply. server_handle_request sd debug env version now created ip is_post hs body s = Finished (reply, s\<lparr>sv_limiter := limiter\<rparr>)
    \<and> reply_status reply = (if result \<noteq> Allowed then 429
        else if api_key (sv_auth s) \<notin> {None, Some (provided_key hs)} then 401 else 200)"
proof -
  have "sv_auth (s\<lparr>sv_limiter := limiter\<rparr>) = sv_auth s" by simp
  note refused_judged [of sd result is_post hs body "s\<lparr>sv_limiter := limiter\<rparr>", unfolded this, OF assms(2), of debug env version]
  then show ?thesis by (simp only: server_handle_request_def assms(1) prod.case Let_def option.case)
qed

text \<open>What the limiter's verdict decides: 429 is its refusal alone, and nothing that follows touches the limiter.\<close>

lemma judged_reply:
  assumes "server_judged sd debug env version result is_post hs body s = Finished (reply, s')"
  shows "sv_limiter s' = sv_limiter s \<and> sv_auth s' = sv_auth s \<and> (reply_status reply \<noteq> 429 \<longleftrightarrow> result = Allowed)"
proof (cases "\<exists>req. node_admits sd result is_post hs body (sv_auth s) req")
  case True
  then obtain req where a: "node_admits sd result is_post hs body (sv_auth s) req" by blast
  obtain res n where "node_router env version req (sv_node s) = Finished (Inr res, n)"
    using router_never_errs [of env version req "sv_node s"] assms admitted_judged [OF a, of debug env version] by auto
  with assms admitted_judged [OF a, of debug env version] a show ?thesis
    by (auto simp: to_http_response_def node_admits_def)
next
  case False
  then have "\<And>req. \<not> node_admits sd result is_post hs body (sv_auth s) req" by blast
  from refused_judged [OF this, of debug env version] assms show ?thesis by auto
qed

section \<open>Properties\<close>

text \<open>
  The gates of a node: the router is reached, and the node's state may change, only for a request
  that the limiter admits, whose key is right, that is a POST and whose body is a JSON-RPC request
  of at most 10 MB. The status is 429 for the limiter's refusal, 401 for that of the key and 200
  for everything else; the limiter is charged in every case. (\<open>Unfinished\<close> are only calls that exhaust
  the bounds of the model.)
\<close>

theorem node_gates:
  assumes "fst (check_rate_limit now created ip (sv_limiter s)) = Some result"
  shows "case server_handle_request sd debug env version now created ip is_post hs body s of Panicked \<Rightarrow> False
    | Unfinished \<Rightarrow> (\<exists>req. node_admits sd result is_post hs body (sv_auth s) req
        \<and> node_call_rpc env (req_method req) (req_params req) (sv_node s) = Unfinished)
    | Finished (reply, s') \<Rightarrow> sv_limiter s' = snd (check_rate_limit now created ip (sv_limiter s)) \<and> sv_auth s' = sv_auth s
        \<and> ((\<exists>req. node_admits sd result is_post hs body (sv_auth s) req) \<or> sv_node s' = sv_node s)
        \<and> reply_status reply = (if result \<noteq> Allowed then 429
            else if api_key (sv_auth s) \<notin> {None, Some (provided_key hs)} then 401 else 200)"
proof -
  obtain limiter where c: "check_rate_limit now created ip (sv_limiter s) = (Some result, limiter)"
    using assms by (metis prod.collapse)
  show ?thesis
  proof (cases "\<exists>req. node_admits sd result is_post hs body (sv_auth s) req")
    case True
    then obtain req where a: "node_admits sd result is_post hs body (sv_auth s) req" by blast
    have h: "server_handle_request sd debug env version now created ip is_post hs body s
        = server_judged sd debug env version result is_post hs body (s\<lparr>sv_limiter := limiter\<rparr>)"
      by (simp add: server_handle_request_def c)
    show ?thesis
    proof (cases "node_router env version req (sv_node s)")
      case (Finished x)
      then obtain res n where "node_router env version req (sv_node s) = Finished (Inr res, n)"
        using router_never_errs [of env version req "sv_node s"] by auto
      from admitted_reply [OF c a this, of debug] show ?thesis
        using a by (auto simp: c to_http_response_def node_admits_def)
    next
      case Panicked
      then show ?thesis using router_never_errs [of env version req "sv_node s"] by auto
    next
      case Unfinished
      then have "node_call_rpc env (req_method req) (req_params req) (sv_node s) = Unfinished"
        by (cases "built_in (req_method req)")
          (auto simp: node_router_def built_in_def split: outcome.splits prod.splits sum.splits madrpc_error.splits)
      with a Unfinished show ?thesis by (auto simp: h admitted_judged)
    qed
  next
    case False
    then have "\<And>req. \<not> node_admits sd result is_post hs body (sv_auth s) req" by blast
    from refused_reply [OF c this, of debug env version] show ?thesis by (auto simp: c)
  qed
qed

definition bare_node :: compute_node where
  "bare_node = \<lparr>cn_script_path = ''s.js'', cn_script = '''', cn_metrics = registry_new 0,
     cn_clock = clock_start (\<lambda>_. 0), cn_client = None, cn_limits = default_limits\<rparr>"

definition bare_env :: "nat option \<Rightarrow> (nat, nat, nat, string) exec_env" where
  "bare_env ready = \<lparr>xe_boa = small_boa, xe_run = small_env ready 2, xe_polls = 3002, xe_no_runtime = None, xe_join_text = ''panic'',
     xe_took = 5, xe_start = 1, xe_end = 2\<rparr>"

definition mute_serde :: serde where
  "mute_serde = \<lparr>parse_tree = (\<lambda>_. Inl ''eof''), request_shape = (\<lambda>_. ''shape''), registration_shape = (\<lambda>_. ''shape''),
     print_json = (\<lambda>_. ''{}'')\<rparr>"

theorem node_gates_witness:
  "case server_handle_request mute_serde err_message (bare_env None) ''1'' 5 5 (V4 1) True [] (Inr ''x'')
      (server_with_auth (with_api_key ''k'') (server_new 0 bare_node)) of
      Finished (reply, s') \<Rightarrow> reply_status reply = 401 | _ \<Rightarrow> False"
proof -
  let ?s = "server_with_auth (with_api_key ''k'') (server_new 0 bare_node)"
  have "fst (check_rate_limit 5 5 (V4 1) (sv_limiter ?s)) = Some Allowed"
    by (simp add: server_with_auth_def server_new_def)
  from node_gates [OF this, where sd = mute_serde and debug = err_message and env = "bare_env None" and version = "''1''"
      and is_post = True and hs = "[]" and body = "Inr ''x''"]
  show ?thesis by (auto simp: server_with_auth_def server_new_def with_api_key_def provided_key_def node_admits_def
      split: outcome.splits prod.splits)
qed

text \<open>
  C27. A call of a script's function moves the counters of the node exactly when its task returns within
  the time limit, by one request and one success or failure; a call that is over the limit or whose
  task panics is answered with an error and not counted.
\<close>

theorem node_accounting:
  assumes "node_call_rpc env meth params n = Finished (r, n')" "node_counters n = (t, s, f)"
  shows "if xe_no_runtime env = None \<and> xe_took env \<le> execution_timeout (cn_limits n)
             \<and> execution_task env meth params n \<in> range Finished
    then execution_task env meth params n = Finished r \<and> node_counters n' = (t + 1, s + of_bool (is_ok r), f + of_bool (\<not> is_ok r))
    else (\<exists>m. r = Inl (JavaScriptExecution m)) \<and> n' = n"
  using assms by (cases "execution_task env meth params n")
    (auto simp: node_call_rpc_def node_record_counters time_limit_error_def split: option.splits if_splits)

theorem node_accounting_witness:
  "\<exists>r n'. node_call_rpc ((bare_env None)\<lparr>xe_took := from_secs 31\<rparr>) ''f'' JNull bare_node = Finished (r, n')
     \<and> node_counters n' = (0, 0, 0)"
proof -
  obtain r n' where c: "node_call_rpc ((bare_env None)\<lparr>xe_took := from_secs 31\<rparr>) ''f'' JNull bare_node = Finished (r, n')"
    by (simp add: node_call_rpc_def bare_env_def bare_node_def default_limits_def)
  have z: "node_counters bare_node = (0, 0, 0)"
    by (simp add: node_counters_def bare_node_def registry_new_def registry_with_config_def)
  from node_accounting [OF c z] c z show ?thesis
    by (simp add: bare_node_def bare_env_def default_limits_def)
qed

text \<open>
  Registration is a bounded retry of the client's call: it returns on the first success or with the
  error of the fifth failure, makes exactly the attempts that takes, and sleeps 7.5 seconds at most.
\<close>

theorem registration_settles:
  assumes "cn_client n = Some cl"
    and "answers = map (register_call lib rand net counter cl url) [1..<6]"
    and "register_with_orchestrator lib rand net counter url n = (r, events)"
  shows "Some r = map_option register_out (settle is_ok answers)
    \<and> length (filter is_sent events) = attempts_made is_ok answers \<and> slept events \<le> from_millis 7500"
proof -
  let ?answer = "register_call lib rand net counter cl url"
  let ?run = "retry_run (register_attempt ?answer) register_pause is_ok register_max_attempts 0 []"
  have loop: "register_loop ?answer 0 (from_millis 500) = (r, events)"
    using assms(1,3) by (simp add: register_with_orchestrator_def)
  have "fst (register_attempt ?answer i s) = ?answer (Suc i)" for i s by (simp add: register_attempt_def)
  then have "fst ?run = take (attempts_made is_ok (map (\<lambda>i. ?answer (Suc i)) [0..<0 + register_max_attempts]))
      (map (\<lambda>i. ?answer (Suc i)) [0..<0 + register_max_attempts])"
    by (rule retry_run_settles)
  moreover have "map (\<lambda>i. ?answer (Suc i)) [0..<0 + register_max_attempts] = answers"
    by (simp add: assms(2) register_max_attempts_def upt_conv_Cons eval_nat_numeral)
  ultimately have run: "fst ?run = take (attempts_made is_ok answers) answers" by simp
  have ne: "answers \<noteq> []" by (simp add: assms(2))
  have r: "r = register_out (last (fst ?run))" "events = snd ?run"
    using loop unfolding register_run by (auto split: prod.splits)
  have "attempts_made is_ok answers \<le> length answers" by (simp add: attempts_made_def)
  then have "length (filter is_sent events) = attempts_made is_ok answers"
    using register_run_sent [of ?answer register_max_attempts 0 "[]"] by (simp add: r(2) run)
  moreover have "Some r = map_option register_out (settle is_ok answers)"
    by (simp add: r(1) run settle_take [OF ne])
  moreover have "slept events \<le> from_millis 7500"
    using register_loop_slept [of 0 ?answer "from_millis 500"] loop by (simp add: register_max_attempts_def)
  ultimately show ?thesis by blast
qed


definition deaf_lib :: http_lib where
  "deaf_lib = \<lparr>uri_error = (\<lambda>_. Some ''bad''), tree_of = (\<lambda>_. Inl ''eof''), shape_text = (\<lambda>_. ''shape''), status_text = dec\<rparr>"

theorem registration_settles_witness:
  "\<exists>r events. register_with_orchestrator deaf_lib (\<lambda>_ _. (False, 0)) (\<lambda>_ _. SendFailed ''down'') (\<lambda>_. 1) ''u''
      (bare_node\<lparr>cn_client := Some \<lparr>base_url = ''o'', pool_config = default_connection, retry = default_retry\<rparr>\<rparr>) = (r, events)
    \<and> length (filter is_sent events) \<le> 5 \<and> slept events \<le> from_millis 7500"
proof -
  let ?cl = "\<lparr>base_url = ''o'', pool_config = default_connection, retry = default_retry\<rparr>"
  let ?n = "bare_node\<lparr>cn_client := Some ?cl\<rparr>"
  obtain r events where r: "register_with_orchestrator deaf_lib (\<lambda>_ _. (False, 0)) (\<lambda>_ _. SendFailed ''down'') (\<lambda>_. 1) ''u'' ?n
      = (r, events)" by (metis surj_pair)
  have "cn_client ?n = Some ?cl" by simp
  from registration_settles [OF this refl r] r show ?thesis by (auto simp: attempts_made_def)
qed

text \<open>The small engine on the bare node.\<close>

lemma small_execution: "execution_task (bare_env (Some 0)) ''f'' JNull bare_node = Finished (Inr JNull)"
proof -
  let ?env = "small_env (Some 0) 2"
  have cx: "open_context (bare_env (Some 0)) bare_node = Inr \<lparr>cx_state = (0, queues_new), cx_client = None\<rparr>"
    by (simp add: open_context_def bare_node_def bare_env_def from_source_def with_client_from_source_def
        install_madrpc_bindings_def set_function_def seq_def map_err_def small_boa_def)
  have r: "run_async ?env 0 (0, enqueue_job (AsyncJob 1) queues_new) = Finished (1, queues_new)"
    by (simp add: run_async_def small_env_def queues_new_def poll_once_def run_job_def drain_jobs_def Let_def eval_nat_numeral)
  have b: "boa_is_object small_boa 7" "boa_is_promise small_boa 7" "boa_state small_boa 7 (1, queues_new) = Fulfilled 1"
    "re_depth ?env = Suc 0" "js_value_to_json small_boa (Suc 0) 1 (1, queues_new) = Some (Inr JNull, 1, queues_new)"
    "re_late ?env 0 < from_millis MAX_PROMISE_WAIT_MS"
    by (simp_all add: small_boa_def small_env_def MAX_PROMISE_WAIT_MS_def)
  have "one_run small_boa ?env (run_async ?env 0) ''f'' JNull (0, queues_new) = Finished (Inr JNull, (1, queues_new))"
    using r b by (simp add: one_run_def small_call converted_def)
  then have "call_rpc_async small_boa ?env 3002 ''f'' JNull (0, queues_new) = Finished (Inr JNull, (1, queues_new))"
    using run_rpc_one_run [OF b(6), of "from_millis PROMISE_POLL_INTERVAL_ASYNC_MS" 3000 small_boa "''f''" JNull "(0, queues_new)"]
    by (simp add: call_rpc_async_def PROMISE_POLL_INTERVAL_ASYNC_MS_def MAX_PROMISE_WAIT_MS_def)
  moreover have "block_on_new (re_runtime ?env 0) False x = x" for x :: "(json result \<times> nat \<times> nat queues) outcome"
    by (simp add: small_env_def plain_thread_def block_on_new_def)
  ultimately show ?thesis unfolding execution_task_def cx by (simp add: bare_env_def)
qed

text \<open>
  What a node computes is what the client that posted the call reads: the value of the function, or its
  error with the same text; every other failure, an unknown method for one, is read as a method that
  was not found. None of them is an error that is tried again.
\<close>

lemma answered_reply:
  assumes "check_rate_limit now created ip (sv_limiter s) = (Some result, limiter)"
    and "node_admits sd result is_post hs body (sv_auth s) req" "\<not> built_in (req_method req)"
    and "node_call_rpc env (req_method req) (req_params req) (sv_node s) = Finished (r, n)"
  shows "server_handle_request sd debug env version now created ip is_post hs body s
    = Finished (to_http_response sd (answer_of (req_id req) r), s\<lparr>sv_limiter := limiter, sv_node := n\<rparr>)"
  by (rule admitted_reply [OF assms(1,2)]) (simp add: router_answers [OF assms(3)] assms(4))

lemma read_answered:
  assumes "uri_error lib base = None" "prints sd lib (response_to_json (answer_of i r))"
  shows "try_call lib base (Answered (reply_status (to_http_response sd (answer_of i r)))
      (Inr (reply_body (to_http_response sd (answer_of i r))))) = read_response (answer_of i r)"
  using assms by (simp add: to_http_response_def)
    (intro try_call_reply, auto simp: answer_of_def rpc_success_def rpc_error_def split: sum.splits madrpc_error.splits)

end
