(* ===== verification/CommandLine.thy ===== *)
theory CommandLine
  imports OrchHttp NodeServer
begin

text \<open>
  The command line (\<open>madrpc-cli/src/main.rs\<close>) and the live display (\<open>top.rs\<close>): how the options of
  a command become a node or an orchestrator with its server, the order of its steps, the state of
  the display and the texts it shows. The parser of the options is \<open>argh\<close>; drawing is \<open>ratatui\<close>, of
  which only the texts and the order of rows are modelled.
\<close>

section \<open>Options\<close>

definition validate_http_url :: "string \<Rightarrow> string \<Rightarrow> string + unit" where
  "validate_http_url url description =
     (if starts_with ''http://'' url \<or> starts_with ''https://'' url then Inr ()
      else Inl (''Invalid '' @ description @ '': '' @ quoted url @ '' must start with http:// or https://''))"

record node_args =
  na_script :: string
  na_bind :: string
  na_orchestrator :: "string option"
  na_api_key :: "string option"
  na_rate_limit_rps :: "f64 option"
  na_max_execution_time_ms :: u64
  na_public_url :: "string option"

record orchestrator_args =
  oa_bind :: string
  oa_nodes :: "string list"
  oa_health_check_interval_secs :: u64
  oa_health_check_timeout_ms :: u64
  oa_health_check_failure_threshold :: u32
  oa_disable_health_check :: bool
  oa_api_key :: "string option"
  oa_rate_limit_rps :: "f64 option"

record call_args =
  ca_server_address :: string
  ca_method :: string
  ca_args :: string

section \<open>Starting a node\<close>

text \<open>What the command does to the outside, in order.\<close>

datatype start_step = Registers string | Listens string

definition public_url_of :: "string option \<Rightarrow> node_args \<Rightarrow> string" where
  "public_url_of env_var a = (case na_public_url a of Some u \<Rightarrow> u
     | None \<Rightarrow> (case env_var of Some u \<Rightarrow> u | None \<Rightarrow> ''http://'' @ na_bind a))"

definition configured_node :: "files \<Rightarrow> instant \<Rightarrow> ts_clock \<Rightarrow> node_args \<Rightarrow> string + compute_node" where
  "configured_node fs now clock a =
     (case (case na_orchestrator a of None \<Rightarrow> Inr () | Some orch \<Rightarrow> validate_http_url orch ''orchestrator address'') of
        Inl e \<Rightarrow> Inl e
      | Inr _ \<Rightarrow>
          let limits = with_execution_timeout (from_millis (unat (na_max_execution_time_ms a))) limits_new
          in map_sum error_to_string (\<lambda>n. n) (case na_orchestrator a of
              Some orch \<Rightarrow> with_orchestrator_and_resource_limits fs now clock (na_script a) orch limits
            | None \<Rightarrow> with_resource_limits fs now clock (na_script a) limits))"

definition configured_server :: "instant \<Rightarrow> node_args \<Rightarrow> compute_node \<Rightarrow> node_server" where
  "configured_server now a n =
     (let s = server_new now n;
          s = (case na_api_key a of Some k \<Rightarrow> server_with_auth (with_api_key k) s | None \<Rightarrow> s)
      in case na_rate_limit_rps a of Some rps \<Rightarrow> server_with_rate_limit now (per_second rps) s | None \<Rightarrow> s)"

text \<open>
  The command \<open>node\<close>: \<open>register url n\<close> is the registration with the orchestrator, \<open>bind_error\<close> the
  error of the parser of the bind address. The steps are those taken before the server's loop or
  the error.
\<close>

definition run_node :: "files \<Rightarrow> instant \<Rightarrow> ts_clock \<Rightarrow> string option \<Rightarrow> (string \<Rightarrow> compute_node \<Rightarrow> unit result)
    \<Rightarrow> (string \<Rightarrow> string option) \<Rightarrow> node_args \<Rightarrow> (string + node_server) \<times> start_step list" where
  "run_node fs now clock env_var register bind_error a =
     (case configured_node fs now clock a of
        Inl e \<Rightarrow> (Inl e, [])
      | Inr n \<Rightarrow>
          let s = configured_server now a n;
              listen = (\<lambda>steps. case bind_error (na_bind a) of
                Some e \<Rightarrow> (Inl (''Invalid bind address '' @ na_bind a @ '': '' @ e), steps)
              | None \<Rightarrow> (Inr s, steps @ [Listens (na_bind a)]))
          in case na_orchestrator a of
            None \<Rightarrow> listen []
          | Some _ \<Rightarrow>
              let url = public_url_of env_var a
              in case validate_http_url url ''public URL'' of
                Inl e \<Rightarrow> (Inl e, [])
              | Inr _ \<Rightarrow> (case register url n of
                  Inl e \<Rightarrow> (Inl (error_to_string e), [Registers url])
                | Inr _ \<Rightarrow> listen [Registers url]))"

section \<open>Starting an orchestrator\<close>

text \<open>Disabling the health checks sets an interval of one year.\<close>

definition health_config_of :: "orchestrator_args \<Rightarrow> health_check_config" where
  "health_config_of a = (if oa_disable_health_check a
     then \<lparr>check_interval = from_secs (365 * 24 * 60 * 60),
       check_timeout_ns = from_millis (unat (oa_health_check_timeout_ms a)),
       hc_failure_threshold = oa_health_check_failure_threshold a\<rparr>
     else \<lparr>check_interval = from_secs (unat (oa_health_check_interval_secs a)),
       check_timeout_ns = from_millis (unat (oa_health_check_timeout_ms a)),
       hc_failure_threshold = oa_health_check_failure_threshold a\<rparr>)"

primrec validate_nodes :: "string list \<Rightarrow> string + unit" where
  "validate_nodes [] = Inr ()"
| "validate_nodes (u # us) = (case validate_http_url u ''node address'' of Inl e \<Rightarrow> Inl e | Inr _ \<Rightarrow> validate_nodes us)"

definition run_orchestrator :: "instant \<Rightarrow> ts_clock \<Rightarrow> (string \<Rightarrow> string option) \<Rightarrow> orchestrator_args
    \<Rightarrow> string + orch_server" where
  "run_orchestrator now clock bind_error a = (case validate_nodes (oa_nodes a) of
     Inl e \<Rightarrow> Inl e
   | Inr _ \<Rightarrow> (case orch_with_config now clock (oa_nodes a) (health_config_of a) of
       Inl e \<Rightarrow> Inl (error_to_string e)
     | Inr o' \<Rightarrow>
         let s = orch_server_new now o';
             s = (case oa_api_key a of Some k \<Rightarrow> orch_with_auth (with_api_key k) s | None \<Rightarrow> s);
             s = (case oa_rate_limit_rps a of Some rps \<Rightarrow> orch_with_rate_limit now (per_second rps) s | None \<Rightarrow> s)
         in case bind_error (oa_bind a) of
           Some e \<Rightarrow> Inl (''Invalid bind address '' @ oa_bind a @ '': '' @ e)
         | None \<Rightarrow> Inr s))"

section \<open>A call from the command line\<close>

text \<open>The text printed, or the error.\<close>

definition run_call :: "serde \<Rightarrow> http_lib \<Rightarrow> (nat \<Rightarrow> bool \<times> u64) \<Rightarrow> (nat \<Rightarrow> http_outcome) \<Rightarrow> u64 \<Rightarrow> call_args \<Rightarrow> string + string" where
  "run_call sd lib rand net counter a = (case validate_http_url (ca_server_address a) ''server address'' of
     Inl e \<Rightarrow> Inl e
   | Inr _ \<Rightarrow> (case parse_tree sd (ca_args a) of
       Inl e \<Rightarrow> Inl (''Invalid JSON in args: '' @ e)
     | Inr args \<Rightarrow> (case client_new (ca_server_address a) of
         Inl e \<Rightarrow> Inl (error_to_string e)
       | Inr cl \<Rightarrow> (case fst (call lib rand net cl (ca_method a) args counter) of
           Inl e \<Rightarrow> Inl (error_to_string e)
         | Inr result \<Rightarrow> Inr (print_json sd result)))))"

section \<open>The live display\<close>

definition format_duration_ms :: "u64 \<Rightarrow> string" where
  "format_duration_ms ms =
     (if ms < 1000 then dec (unat ms) @ ''ms''
      else if ms < 60000 then dec (unat (ms div 1000)) @ ''s''
      else if ms < 3600000 then dec (unat (ms div 60000)) @ ''m '' @ dec (unat (ms mod 60000 div 1000)) @ ''s''
      else dec (unat (ms div 3600000)) @ ''h '' @ dec (unat (ms mod 3600000 div 60000)) @ ''m'')"

text \<open>\<open>fixed1\<close> prints a float with one decimal; the bytes 206 and 188 are the letter mu.\<close>

definition format_latency_us :: "(f64 \<Rightarrow> string) \<Rightarrow> u64 \<Rightarrow> string" where
  "format_latency_us fixed1 us =
     (if us = 0 then ''-''
      else if us < 1000 then dec (unat us) @ [CHR 0xCE, CHR 0xBC, CHR ''s'']
      else if us < 1000000 then dec (unat (us div 1000)) @ ''ms''
      else fixed1 (f_div (f_of_nat (unat us)) (Fin 1000000)) @ ''s'')"

record top_app =
  ta_server_address :: string
  ta_server_type :: "server_type option"
  ta_current_metrics :: "metrics_snapshot option"
  ta_error_message :: "string option"
  ta_last_update :: "instant option"
  ta_interval_ms :: u64
  ta_should_quit :: bool

definition top_new :: "string \<Rightarrow> u64 \<Rightarrow> top_app" where
  "top_new address interval = \<lparr>ta_server_address = address, ta_server_type = None, ta_current_metrics = None,
     ta_error_message = None, ta_last_update = None, ta_interval_ms = interval, ta_should_quit = False\<rparr>"

text \<open>\<open>answer\<close> is the result of the client's call, \<open>info_of\<close> and \<open>metrics_of\<close> the derived readers.\<close>

definition detect_server_type :: "(json \<Rightarrow> string + server_base) \<Rightarrow> json result \<Rightarrow> top_app \<Rightarrow> top_app" where
  "detect_server_type info_of answer app = (case answer of
     Inr v \<Rightarrow> (case info_of v of
       Inr info \<Rightarrow> app\<lparr>ta_server_type := Some (sb_server_type info), ta_error_message := None\<rparr>
     | Inl e \<Rightarrow> app\<lparr>ta_error_message := Some (''Failed to parse server info: '' @ e)\<rparr>)
   | Inl e \<Rightarrow> app\<lparr>ta_error_message := Some (''Failed to connect to server: '' @ error_to_string e)\<rparr>)"

definition update_metrics :: "(json \<Rightarrow> string + metrics_snapshot) \<Rightarrow> instant \<Rightarrow> json result \<Rightarrow> top_app \<Rightarrow> top_app" where
  "update_metrics metrics_of now answer app = (case answer of
     Inr v \<Rightarrow> (case metrics_of v of
       Inr m \<Rightarrow> app\<lparr>ta_current_metrics := Some m, ta_last_update := Some now, ta_error_message := None\<rparr>
     | Inl e \<Rightarrow> app\<lparr>ta_error_message := Some (''Failed to parse metrics: '' @ e)\<rparr>)
   | Inl e \<Rightarrow> app\<lparr>ta_error_message := Some (''Failed to fetch metrics: '' @ error_to_string e)\<rparr>)"

definition handle_key_event :: "char \<Rightarrow> top_app \<Rightarrow> top_app" where
  "handle_key_event k app = (if k = CHR ''q'' \<or> k = CHR ''Q'' then app\<lparr>ta_should_quit := True\<rparr> else app)"

section \<open>What is shown\<close>

definition success_rate :: "metrics_snapshot \<Rightarrow> u64" where
  "success_rate m = (if ms_total_requests m > 0
     then f_to_u64 (f_mul (f_div (f_of_nat (unat (ms_successful_requests m))) (f_of_nat (unat (ms_total_requests m)))) (Fin 100))
     else 100)"

definition uptime_text :: "u64 \<Rightarrow> string" where
  "uptime_text ms = (let secs = ms div 1000; mins = secs div 60; hours = mins div 60 in
     if hours > 0 then dec (unat hours) @ ''h '' @ dec (unat (mins mod 60)) @ ''m''
     else if mins > 0 then dec (unat mins) @ ''m '' @ dec (unat (secs mod 60)) @ ''s''
     else dec (unat secs) @ ''s'')"

definition summary_text :: "metrics_snapshot \<Rightarrow> string list" where
  "summary_text m =
     [''Total Requests: '' @ dec (unat (ms_total_requests m)) @ ''  Success: '' @ dec (unat (ms_successful_requests m))
        @ ''  Failed: '' @ dec (unat (ms_failed_requests m)) @ ''  Success Rate: '' @ dec (unat (success_rate m)) @ ''%'',
      ''Active Connections: '' @ dec (unat (ms_active_connections m)) @ ''  Uptime: '' @ uptime_text (ms_uptime_ms m)
        @ ''  Methods: '' @ dec (length (ms_methods m))]"

definition title_text :: "top_app \<Rightarrow> string" where
  "title_text app = ''MaDRPC '' @ (case ta_server_type app of Some ServerNode \<Rightarrow> ''Node''
       | Some ServerOrchestrator \<Rightarrow> ''Orchestrator'' | None \<Rightarrow> ''Unknown'')
     @ '' | '' @ ta_server_address app @ '' | Refresh: '' @ dec (unat (ta_interval_ms app)) @ ''ms | Press ''
     @ quoted ''q'' @ '' to quit''"

text \<open>Rows in falling order of their counts, rows of one count in the order of the map.\<close>

definition node_rows :: "u64 \<Rightarrow> (string \<times> node_metrics) list \<Rightarrow> string list list" where
  "node_rows now_ms ns = map (\<lambda>n.
     [nm_node_addr n, dec (unat (nm_request_count n)),
      (if nm_last_request_ms n = 0 then ''Never''
       else format_duration_ms (saturating_sub now_ms (nm_last_request_ms n)))])
     (sort_key (\<lambda>n. - int (unat (nm_request_count n))) (map snd ns))"

definition method_rows :: "(f64 \<Rightarrow> string) \<Rightarrow> (string \<times> method_metrics) list \<Rightarrow> string list list" where
  "method_rows fixed1 methods = map (\<lambda>(name, m).
     [name, dec (unat (mm_call_count m)), dec (unat (mm_success_count m)), dec (unat (mm_failure_count m)),
      format_latency_us fixed1 (mm_p50_latency_us m), format_latency_us fixed1 (mm_p95_latency_us m),
      format_latency_us fixed1 (mm_p99_latency_us m)])
     (sort_key (\<lambda>(name, m). - int (unat (mm_call_count m))) methods)"

text \<open>The parts of a frame: the middle is the summary, the error or the wait for the server.\<close>

record frame =
  fr_title :: string
  fr_middle :: "string list"
  fr_nodes :: "string list list option"
  fr_methods :: "string list list option"

definition draw :: "(f64 \<Rightarrow> string) \<Rightarrow> u64 \<Rightarrow> top_app \<Rightarrow> frame" where
  "draw fixed1 now_ms app = \<lparr>fr_title = title_text app,
     fr_middle = (case ta_current_metrics app of
         Some m \<Rightarrow> summary_text m
       | None \<Rightarrow> (case ta_error_message app of
           Some e \<Rightarrow> [''ERROR: '' @ e, ''Will keep trying to connect...'']
         | None \<Rightarrow> [''Connecting to server...''])),
     fr_nodes = (case ta_current_metrics app of
         Some m \<Rightarrow> if ta_server_type app = Some ServerOrchestrator then map_option (node_rows now_ms) (ms_nodes m) else None
       | None \<Rightarrow> None),
     fr_methods = map_option (\<lambda>m. method_rows fixed1 (ms_methods m)) (ta_current_metrics app)\<rparr>"

text \<open>
  The main loop: in each turn the metrics may be due, with the answer of the call and the clock, and
  a key may come. The turns of the list are those that happen; the frames drawn are returned.
\<close>

type_synonym turn = "(json result \<times> instant) option \<times> char option \<times> u64"

primrec top_loop :: "(f64 \<Rightarrow> string) \<Rightarrow> (json \<Rightarrow> string + metrics_snapshot) \<Rightarrow> turn list \<Rightarrow> top_app \<Rightarrow> frame list \<times> top_app" where
  "top_loop fixed1 metrics_of [] app = ([], app)"
| "top_loop fixed1 metrics_of (t # ts) app = (if ta_should_quit app then ([], app)
     else case t of (due, key, now_ms) \<Rightarrow>
       let app = (case due of Some (answer, now) \<Rightarrow> update_metrics metrics_of now answer app | None \<Rightarrow> app);
           frame = draw fixed1 now_ms app;
           app = (case key of Some k \<Rightarrow> handle_key_event k app | None \<Rightarrow> app)
       in map_prod (Cons frame) (\<lambda>app. app) (top_loop fixed1 metrics_of ts app))"

definition run_top :: "(f64 \<Rightarrow> string) \<Rightarrow> (json \<Rightarrow> string + server_base) \<Rightarrow> (json \<Rightarrow> string + metrics_snapshot) \<Rightarrow> string \<Rightarrow> u64
    \<Rightarrow> json result \<Rightarrow> turn list \<Rightarrow> frame list \<times> top_app" where
  "run_top fixed1 info_of metrics_of address interval first ts =
     top_loop fixed1 metrics_of ts (detect_server_type info_of first (top_new address interval))"


section \<open>The success rate\<close>

lemma rr_1: "rr 1 = 1" using rr_of_nat [of 1] by simp
lemma rr_100: "rr 100 = 100" using rr_of_nat [of 100] by simp

text \<open>The percentage as the display computes it: two roundings, then the fraction is cut off.\<close>

definition rate_of :: "nat \<Rightarrow> nat \<Rightarrow> rat" where
  "rate_of s t = rr (rr (rr (of_nat s) / rr (of_nat t)) * 100)"

lemma rate_bound:
  assumes "s \<le> t" "0 < t" "t < 2 ^ 64"
  shows "f_to_nat 64 (f_mul (f_div (f_of_nat s) (f_of_nat t)) (Fin 100)) = nat \<lfloor>rate_of s t\<rfloor>"
    and "0 \<le> rate_of s t" "rate_of s t \<le> 100"
proof -
  have big: "rr (of_nat n) < f_big \<and> 0 \<le> rr (of_nat n)" if "n < 2 ^ 64" for n
  proof -
    have "rat_of_nat n \<le> of_nat (2 ^ 64)" using that by (simp only: of_nat_le_iff)
    also have "\<dots> = 2 powi 64" by (simp add: power_int_def)
    finally have "rr (of_nat n) \<le> rr (2 powi 64)" by (rule rr_mono)
    also have "\<dots> = 2 ^ 64" by (subst rr_powi) simp_all
    also have "\<dots> < f_big" by (simp add: f_big_def)
    finally show ?thesis using rr_mono [of 0 "of_nat n"] by simp
  qed
  have f: "f_of_nat n = Fin (rr (of_nat n))" if "n < 2 ^ 64" for n
    using big [OF that] unfolding f_of_nat_def by (intro rnd_Fin) simp
  have t1: "1 \<le> rr (of_nat t)" using rr_mono [of 1 "of_nat t"] assms(2) rr_1 by simp
  have st: "rr (of_nat s) \<le> rr (of_nat t)" using assms(1) by (intro rr_mono) simp
  have q: "0 \<le> rr (of_nat s) / rr (of_nat t)" "rr (of_nat s) / rr (of_nat t) \<le> 1"
    using t1 st big [of s] assms by (simp_all add: divide_le_eq)
  let ?q = "rr (rr (of_nat s) / rr (of_nat t))"
  have q1: "0 \<le> ?q" "?q \<le> 1" using rr_mono [OF q(2)] rr_1 rr_nonneg [OF q(1)] by simp_all
  have d: "f_div (f_of_nat s) (f_of_nat t) = Fin ?q"
    using f [of s] f [of t] assms t1 q1 by (simp add: rnd_Fin f_big_def)
  have p: "0 \<le> rr (?q * 100)" "rr (?q * 100) \<le> 100"
    using rr_mono [of "?q * 100" 100] rr_100 q1 rr_nonneg [of "?q * 100"] by simp_all
  have "rnd (?q * 100) = Fin (rr (?q * 100))" using p by (intro rnd_Fin) (simp add: f_big_def)
  then have m: "f_mul (Fin ?q) (Fin 100) = Fin (rr (?q * 100))" by simp
  show "0 \<le> rate_of s t" "rate_of s t \<le> 100" using p by (simp_all add: rate_of_def)
  have "nat \<lfloor>rr (?q * 100)\<rfloor> \<le> 100" using p(2) by (simp add: floor_le_iff nat_le_iff)
  then show "f_to_nat 64 (f_mul (f_div (f_of_nat s) (f_of_nat t)) (Fin 100)) = nat \<lfloor>rate_of s t\<rfloor>"
    unfolding d m using p(1) by (simp add: rate_of_def)
qed



lemma rate_close:
  assumes "s \<le> t" "0 < t" "t \<le> 2 ^ 53"
  shows "of_nat (100 * s div t) - 1 \<le> rate_of s t" "rate_of s t \<le> of_nat (100 * s div t) + 3 / 2"
proof -
  let ?k = "100 * s div t" and ?x = "of_nat s / of_nat t :: rat"
  have st: "rr (of_nat s) = of_nat s" "rr (of_nat t) = of_nat t" using assms by (simp_all add: rr_of_nat)
  have t0: "(0::rat) < of_nat t" using assms(2) by simp
  have x1: "?x \<le> 1" "0 \<le> ?x" using assms by simp_all
  have "\<bar>rr ?x - ?x\<bar> \<le> 2 powi (1 - 54)" using x1 by (intro rr_error_lt) simp_all
  also have "(2::rat) powi (1 - 54) \<le> 1 / 200" by (simp add: power_int_minus)
  finally have e: "\<bar>rr ?x - ?x\<bar> \<le> 1 / 200" .
  have "?k * t \<le> 100 * s" by simp
  then have "(of_nat (?k * t) :: rat) \<le> of_nat (100 * s)" by (simp only: of_nat_le_iff)
  then have lo: "of_nat ?k \<le> 100 * ?x" using t0 by (simp add: field_simps)
  have "100 * s < Suc ?k * t" using dividend_less_times_div [OF assms(2), of "100 * s"] by (simp add: mult.commute)
  then have "(of_nat (100 * s) :: rat) < of_nat (Suc ?k * t)" by (simp only: of_nat_less_iff)
  then have hi: "100 * ?x < of_nat ?k + 1" using t0 by (simp add: field_simps)
  have "?k \<le> 100 * t div t" using assms(1) by (intro div_le_mono) simp
  then have k: "?k \<le> 100" using assms(2) by simp
  have e1: "?x - 1 / 200 \<le> rr ?x" "rr ?x \<le> ?x + 1 / 200" using e by linarith+
  have "of_int (int ?k - 1) \<le> rr ?x * 100" using e1(1) lo by (simp only: of_int_diff of_int_of_nat_eq of_int_1)
  then have "rr (of_int (int ?k - 1)) \<le> rr (rr ?x * 100)" by (rule rr_mono)
  moreover have "rr (of_int (int ?k - 1)) = of_int (int ?k - 1)" using k by (intro rr_of_int) simp
  ultimately show "of_nat ?k - 1 \<le> rate_of s t" by (simp add: rate_of_def st)
  have "rr ?x * 100 \<le> of_nat ?k + 3 / 2" using e1(2) hi by linarith
  then have "rr (rr ?x * 100) \<le> rr (of_int (2 * int ?k + 3) * 2 powi (- 1))"
    by (intro rr_mono) (simp add: power_int_minus)
  moreover have "rr (of_int (2 * int ?k + 3) * 2 powi (- 1)) = of_int (2 * int ?k + 3) * 2 powi (- 1)"
    using k by (intro rr_exact) simp_all
  ultimately show "rate_of s t \<le> of_nat ?k + 3 / 2" by (simp add: rate_of_def st power_int_minus)
qed

lemma flog2_3: "flog2 3 = 1" by (simp add: flog2.simps)
lemma flog2_28: "flog2 28 = 4" by (simp add: flog2.simps)

lemma uexp_29: "uexp (29 / 100) = - 54"
proof -
  have "\<lceil>100 / 29 :: rat\<rceil> = 4" by (simp add: ceiling_unique)
  then show ?thesis by (simp add: uexp_def bexp_def clog2_def flog2_3)
qed

lemma rr_29: "rr (29 / 100) = 5224175567749775 / 2 ^ 54"
proof -
  have f: "\<lfloor>29 / 100 * 2 ^ 54 :: rat\<rfloor> = 5224175567749775" by (rule floor_unique) simp_all
  then have "rne (29 / 100 * 2 ^ 54) = 5224175567749775" by (simp add: rne_def Let_def)
  then show ?thesis by (simp add: rr_def uexp_29 power_int_minus field_simps)
qed

lemma uexp_2900: "uexp (5224175567749775 / 2 ^ 54 * 100) = - 48"
proof -
  have "\<lfloor>5224175567749775 / 2 ^ 54 * 100 :: rat\<rfloor> = 28" by (rule floor_unique) simp_all
  then show ?thesis by (simp add: uexp_def bexp_def flog2_28)
qed

lemma rr_2900: "rr (5224175567749775 / 2 ^ 54 * 100) = 8162774324609023 / 2 ^ 48"
proof -
  have f: "\<lfloor>5224175567749775 / 2 ^ 54 * 100 * 2 ^ 48 :: rat\<rfloor> = 8162774324609023" by (rule floor_unique) simp_all
  then have "rne (5224175567749775 / 2 ^ 54 * 100 * 2 ^ 48) = 8162774324609023" by (simp add: rne_def Let_def)
  then show ?thesis unfolding rr_def uexp_2900 by (simp add: power_int_minus field_simps)
qed

lemma rate_full: "0 < t \<Longrightarrow> t \<le> 2 ^ 53 \<Longrightarrow> rate_of t t = 100"
  using rr_of_nat [of t] rr_1 rr_100 by (simp add: rate_of_def)

text \<open>Twenty-nine of a hundred are shown as 28 percent.\<close>

lemma rate_29: "success_rate (m\<lparr>ms_total_requests := 100, ms_successful_requests := 29\<rparr>) = 28"
proof -
  have d: "f_div (Fin 29) (Fin 100) = Fin (5224175567749775 / 2 ^ 54)"
    using rr_29 by (simp add: rnd_Fin f_big_def)
  have "rnd (5224175567749775 / 2 ^ 54 * 100) = Fin (8162774324609023 / 2 ^ 48)"
    by (subst rnd_Fin) (simp_all only: rr_2900, simp_all add: f_big_def)
  then have p: "f_mul (Fin (5224175567749775 / 2 ^ 54)) (Fin 100) = Fin (8162774324609023 / 2 ^ 48)" by simp
  have "\<lfloor>8162774324609023 / 2 ^ 48 :: rat\<rfloor> = 28" by (rule floor_unique) simp_all
  then have "f_to_u64 (Fin (8162774324609023 / 2 ^ 48)) = 28" by (simp add: f_to_u64_def)
  then show ?thesis using d p by (simp add: success_rate_def f_of_nat_small)
qed


section \<open>Properties\<close>

text \<open>
  C40. A node that is started with an orchestrator registers before it listens: no step comes before the
  registration, the socket is opened after the registration succeeded, and with a bind address that
  does not parse the command fails with the node registered and never served.
\<close>

theorem registers_before_listening:
  assumes "run_node fs now clock env_var register bind_error a = (res, steps)" "na_orchestrator a = Some orch"
  shows "(let url = public_url_of env_var a in
      steps \<in> {[], [Registers url], [Registers url, Listens (na_bind a)]}
    \<and> (is_ok res \<longleftrightarrow> Listens (na_bind a) \<in> set steps)
    \<and> (Registers url \<in> set steps \<longrightarrow> starts_with ''http://'' url \<or> starts_with ''https://'' url)
    \<and> (\<forall>n e. configured_node fs now clock a = Inr n \<and> is_ok (validate_http_url url ''public URL'')
          \<and> is_ok (register url n) \<and> bind_error (na_bind a) = Some e \<longrightarrow> \<not> is_ok res \<and> steps = [Registers url]))"
proof (cases "configured_node fs now clock a")
  case (Inl e)
  with assms show ?thesis by (auto simp: run_node_def Let_def)
next
  case (Inr n)
  let ?url = "public_url_of env_var a"
  show ?thesis
  proof (cases "is_ok (validate_http_url ?url ''public URL'')")
    case False
    with assms Inr show ?thesis by (cases "validate_http_url ?url ''public URL''") (auto simp: run_node_def Let_def)
  next
    case True
    then have u: "starts_with ''http://'' ?url \<or> starts_with ''https://'' ?url" "validate_http_url ?url ''public URL'' = Inr ()"
      by (auto simp: validate_http_url_def split: if_splits)
    show ?thesis
    proof (cases "register ?url n")
      case (Inl e)
      with assms Inr u show ?thesis by (auto simp: run_node_def Let_def)
    next
      case (Inr x)
      with assms \<open>configured_node fs now clock a = Inr n\<close> u show ?thesis
        by (cases "bind_error (na_bind a)") (auto simp: run_node_def Let_def)
    qed
  qed
qed

definition some_node_args :: node_args where
  "some_node_args = \<lparr>na_script = ''s.js'', na_bind = ''nowhere'', na_orchestrator = Some ''http://o'', na_api_key = None,
     na_rate_limit_rps = None, na_max_execution_time_ms = 30000, na_public_url = None\<rparr>"

theorem registers_before_listening_witness:
  "\<exists>res. run_node (\<lambda>_. Some (Inr '''')) 0 (clock_start (\<lambda>_. 0)) None (\<lambda>_ _. Inr ()) (\<lambda>_. Some ''invalid'') some_node_args
      = (res, [Registers ''http://nowhere'']) \<and> \<not> is_ok res"
proof -
  obtain res steps where r: "run_node (\<lambda>_. Some (Inr '''')) 0 (clock_start (\<lambda>_. 0)) None (\<lambda>_ _. Inr ()) (\<lambda>_. Some ''invalid'')
      some_node_args = (res, steps)" by (metis surj_pair)
  have a: "na_orchestrator some_node_args = Some ''http://o''" "public_url_of None some_node_args = ''http://nowhere''"
    "na_bind some_node_args = ''nowhere''"
    by (simp_all add: some_node_args_def public_url_of_def)
  have u: "is_ok (validate_http_url ''http://nowhere'' ''public URL'')"
    by (simp add: validate_http_url_def starts_with_def)
  have "\<exists>n. configured_node (\<lambda>_. Some (Inr '''')) 0 (clock_start (\<lambda>_. 0)) some_node_args = Inr n"
    by (simp add: configured_node_def some_node_args_def validate_http_url_def starts_with_def with_execution_timeout_def
        limits_new_def with_orchestrator_and_resource_limits_def load_script_def validate_limits_def as_secs_def
        client_new_def with_configs_def Let_def)
  then obtain n where "configured_node (\<lambda>_. Some (Inr '''')) 0 (clock_start (\<lambda>_. 0)) some_node_args = Inr n" by blast
  with registers_before_listening [OF r a(1)] a u have "\<not> is_ok res \<and> steps = [Registers ''http://nowhere'']"
    by (simp add: Let_def)
  with r show ?thesis by blast
qed

text \<open>An update that brings no metrics.\<close>

definition update_fails :: "(json \<Rightarrow> string + metrics_snapshot) \<Rightarrow> turn \<Rightarrow> bool" where
  "update_fails metrics_of t = (case fst t of None \<Rightarrow> True
     | Some (answer, now) \<Rightarrow> (case answer of Inl e \<Rightarrow> True | Inr v \<Rightarrow> \<not> is_ok (metrics_of v)))"

lemma failed_update:
  "update_fails metrics_of (Some (answer, now), key, ms)
    \<Longrightarrow> ta_current_metrics (update_metrics metrics_of now answer app) = ta_current_metrics app"
  by (cases answer) (auto simp: update_fails_def update_metrics_def split: sum.splits)

lemma update_keeps_type [simp]: "ta_server_type (update_metrics metrics_of now answer app) = ta_server_type app"
  by (auto simp: update_metrics_def split: sum.split)

lemma key_keeps [simp]:
  "ta_server_type (handle_key_event k app) = ta_server_type app"
  "ta_current_metrics (handle_key_event k app) = ta_current_metrics app"
  by (simp_all add: handle_key_event_def)

text \<open>
  Once metrics have come, an outage of the server does not show: while every update fails, each frame
  is the summary of the last metrics, whatever error is held; and the type of the server, asked for
  once at the start, is never asked for again, so it stays unknown when that first call fails.
\<close>

theorem outage_not_shown:
  assumes "ta_current_metrics app = Some m" "\<forall>t \<in> set ts. update_fails metrics_of t"
  shows "case top_loop fixed1 metrics_of ts app of (frames, app') \<Rightarrow>
    (\<forall>frame \<in> set frames. fr_middle frame = summary_text m) \<and> ta_current_metrics app' = Some m
      \<and> ta_server_type app' = ta_server_type app"
  using assms
proof (induction ts arbitrary: app)
  case (Cons t ts)
  obtain due key ms where t: "t = (due, key, ms)" by (cases t)
  define app1 where "app1 = (case due of Some (answer, now) \<Rightarrow> update_metrics metrics_of now answer app | None \<Rightarrow> app)"
  define app2 where "app2 = (case key of Some k \<Rightarrow> handle_key_event k app1 | None \<Rightarrow> app1)"
  have 1: "ta_current_metrics app1 = Some m" "ta_server_type app1 = ta_server_type app"
    using Cons.prems failed_update [of metrics_of _ _ key ms app]
    by (auto simp: app1_def t split: option.splits)
  then have "ta_current_metrics app2 = Some m" "ta_server_type app2 = ta_server_type app"
    by (simp_all add: app2_def split: option.splits)
  with Cons.IH [of app2] Cons.prems(2) have ih: "case top_loop fixed1 metrics_of ts app2 of (frames, app') \<Rightarrow>
    (\<forall>frame \<in> set frames. fr_middle frame = summary_text m) \<and> ta_current_metrics app' = Some m
      \<and> ta_server_type app' = ta_server_type app" by simp
  have "top_loop fixed1 metrics_of (t # ts) app = (if ta_should_quit app then ([], app)
      else map_prod (Cons (draw fixed1 ms app1)) (\<lambda>app. app) (top_loop fixed1 metrics_of ts app2))"
    unfolding app2_def app1_def by (simp add: t Let_def)
  with ih 1 Cons.prems(1) show ?case by (auto simp: draw_def split: prod.splits)
qed simp

theorem outage_not_shown_witness:
  "map fr_middle (fst (top_loop (\<lambda>_. ''0.0'') (\<lambda>_. Inl ''shape'') [(Some (Inl AllNodesFailed, 5), None, 7)]
      ((top_new ''http://o'' 250)\<lparr>ta_current_metrics := Some (registry_snapshot 9 False (registry_new 0))\<rparr>)))
    = [summary_text (registry_snapshot 9 False (registry_new 0))]"
proof -
  let ?app = "(top_new ''http://o'' 250)\<lparr>ta_current_metrics := Some (registry_snapshot 9 False (registry_new 0))\<rparr>"
  let ?ts = "[(Some (Inl AllNodesFailed :: json result, 5 :: nat), None :: char option, 7 :: u64)]"
  let ?frames = "fst (top_loop (\<lambda>_. ''0.0'') (\<lambda>_. Inl ''shape'') ?ts ?app)"
  have "ta_current_metrics ?app = Some (registry_snapshot 9 False (registry_new 0))" by simp
  moreover have "\<forall>t \<in> set ?ts. update_fails (\<lambda>_. Inl ''shape'') t" by (simp add: update_fails_def)
  ultimately have all: "\<forall>frame \<in> set ?frames. fr_middle frame = summary_text (registry_snapshot 9 False (registry_new 0))"
    using outage_not_shown [of ?app _ ?ts "\<lambda>_. Inl ''shape''" "\<lambda>_. ''0.0''"] by (simp add: split_beta)
  obtain frame where "?frames = [frame]" by (simp add: top_new_def Let_def)
  with all show ?thesis by simp
qed

text \<open>
  The success rate on the display is between 0 and 100 percent, 100 when every request has succeeded,
  and within one percent of the exact percentage rounded down, although the quotient and the
  product are rounded and the fraction is cut off (29 of 100 are shown as 28 percent).
\<close>

theorem success_rate_close:
  assumes "ms_successful_requests m \<le> ms_total_requests m" "unat (ms_total_requests m) \<le> 2 ^ 53" "0 < ms_total_requests m"
  shows "success_rate m \<le> 100
    \<and> \<bar>int (unat (success_rate m)) - int (100 * unat (ms_successful_requests m) div unat (ms_total_requests m))\<bar> \<le> 1
    \<and> (ms_successful_requests m = ms_total_requests m \<longrightarrow> success_rate m = 100)"
proof -
  let ?s = "unat (ms_successful_requests m)" and ?t = "unat (ms_total_requests m)" and ?r = "rate_of (unat (ms_successful_requests m)) (unat (ms_total_requests m))"
  have st: "?s \<le> ?t" "0 < ?t" "?t < 2 ^ 64"
    using assms by (simp_all add: word_le_nat_alt unat_gt_0)
  note bound = rate_bound [OF st] and close = rate_close [OF st(1,2) assms(2)]
  have n: "nat \<lfloor>?r\<rfloor> \<le> 100" using bound(3) by (simp add: nat_le_iff floor_le_iff)
  have "success_rate m = of_nat (nat \<lfloor>?r\<rfloor>)" using assms(3) bound(1) by (simp add: success_rate_def f_to_u64_def)
  then have r: "unat (success_rate m) = nat \<lfloor>?r\<rfloor>" using n by (simp add: unat_of_nat)
  have "int (100 * ?s div ?t) - 1 \<le> \<lfloor>?r\<rfloor>" using close(1) by (simp add: le_floor_iff)
  moreover have "\<lfloor>?r\<rfloor> \<le> int (100 * ?s div ?t) + 1" using close(2) by (simp add: floor_le_iff)
  ultimately have d: "\<bar>int (unat (success_rate m)) - int (100 * ?s div ?t)\<bar> \<le> 1" using bound(2) r by simp
  have le: "success_rate m \<le> 100" using n r by (simp add: word_le_nat_alt)
  have "success_rate m = 100" if "ms_successful_requests m = ms_total_requests m"
  proof -
    have "?r = 100" using rate_full [OF st(2) assms(2)] that by simp
    then show ?thesis using \<open>success_rate m = of_nat (nat \<lfloor>?r\<rfloor>)\<close> by simp
  qed
  with le d show ?thesis by blast
qed

theorem success_rate_close_witness:
  "\<bar>int (unat (success_rate ((registry_snapshot 9 False (registry_new 0))\<lparr>ms_total_requests := 100, ms_successful_requests := 29\<rparr>))) - 29\<bar> \<le> 1
    \<and> success_rate ((registry_snapshot 9 False (registry_new 0))\<lparr>ms_total_requests := 100, ms_successful_requests := 29\<rparr>) = 28"
  using success_rate_close [of "(registry_snapshot 9 False (registry_new 0))\<lparr>ms_total_requests := 100, ms_successful_requests := 29\<rparr>"]
    rate_29 [of "registry_snapshot 9 False (registry_new 0)"] by simp

end
