(* ===== verification/Tasks.thy ===== *)
theory Tasks
  imports Transition Orchestrator
begin

text \<open>
  Concurrent forwarding (\<open>madrpc-orchestrator/src/orchestrator.rs\<close>,
  \<open>forward_request_jsonrpc\<close>). The server runs every request as a task of its own, and the tasks
  share the pool and the metrics through an \<open>Arc\<close>. A task holds the pool's lock while it
  selects a node and nothing across an \<open>await\<close>, so its loop is a sequence of atomic steps:
  select a node, record it, send and get an answer, sleep and try again, or record the call and
  return. This theory models the tasks and what they share as one step relation and proves that
  every interleaving of them is accounted for by the sequential loop of \<open>Orchestrator\<close>.
\<close>

section \<open>Tasks and shared state\<close>

text \<open>
  Where a task stands in a turn of the loop: about to take the pool's lock, about to record the
  node it selected, waiting for the node's answer, sleeping before the next turn, about to
  record the successful call, or done with the value the function returns. A task whose client
  has gone away is dropped at an \<open>await\<close>.
\<close>

datatype phase = Selecting | Recording string | Sending string | Sleeping | Closing json
  | Done "json result" | Dropped

text \<open>
  A running call of \<open>forward_request_jsonrpc\<close>: its arguments, the loop's variables, and what it
  has done so far. \<open>t_env\<close> is what the task meets: the clock, the random values and the
  network's answers for each attempt.
\<close>

record task =
  t_method :: string
  t_params :: json
  t_env :: forward_env
  t_attempt :: nat
  t_backoff :: u64
  t_phase :: phase
  t_events :: "forward_event list"

record server =
  shared :: orchestrator
  tasks :: "nat \<rightharpoonup> task"

definition put_task :: "nat \<Rightarrow> task \<Rightarrow> server \<Rightarrow> server" where
  "put_task t k s = s\<lparr>tasks := (tasks s)(t \<mapsto> k)\<rparr>"

definition new_task :: "orch_retry_config \<Rightarrow> json_rpc_request \<Rightarrow> forward_env \<Rightarrow> task" where
  "new_task cfg req env = \<lparr>t_method = req_method req, t_params = req_params req, t_env = env,
     t_attempt = 0, t_backoff = initial_backoff_ms cfg, t_phase = Selecting, t_events = []\<rparr>"

lemma put_task_simps [simp]:
  "shared (put_task t k s) = shared s"
  "tasks (put_task t k s) u = (if u = t then Some k else tasks s u)"
  by (simp_all add: put_task_def)

section \<open>The steps of a task\<close>

text \<open>The selection's result; \<open>ok_or_else\<close> with \<open>?\<close> ends the loop when there is none.\<close>

definition selected :: "orch_retry_config \<Rightarrow> string option \<Rightarrow> task \<Rightarrow> task" where
  "selected cfg node k = (case node of
     None \<Rightarrow> k\<lparr>t_phase := Done (Inl (no_node_error (max_retries cfg) (t_attempt k)))\<rparr>
   | Some a \<Rightarrow> k\<lparr>t_phase := Recording a\<rparr>)"

definition sending :: "string \<Rightarrow> task \<Rightarrow> task" where
  "sending a k = k\<lparr>t_phase := Sending a, t_events := t_events k @ [SentTo a]\<rparr>"

definition answered :: "orch_retry_config \<Rightarrow> json result \<Rightarrow> task \<Rightarrow> task" where
  "answered cfg response k = (case response of
     Inl e \<Rightarrow> if t_attempt k < max_retries cfg \<and> is_retryable_static e
       then k\<lparr>t_phase := Sleeping, t_events := t_events k @ [Backoff (t_backoff k)]\<rparr>
       else k\<lparr>t_phase := Done (Inl e)\<rparr>
   | Inr v \<Rightarrow> k\<lparr>t_phase := Closing v\<rparr>)"

definition woken :: "orch_retry_config \<Rightarrow> task \<Rightarrow> task" where
  "woken cfg k = k\<lparr>t_phase := Selecting, t_attempt := t_attempt k + 1,
     t_backoff := next_backoff cfg (t_backoff k)\<rparr>"

definition task_response :: "http_lib \<Rightarrow> task \<Rightarrow> string \<Rightarrow> json result" where
  "task_response lib k a = send_http_request lib (t_env k) (t_attempt k) (t_method k) (t_params k) a"

definition task_latency :: "task \<Rightarrow> u64" where
  "task_latency k = of_nat (duration_since (fe_end (t_env k)) (fe_start (t_env k)) div 1000)"

text \<open>
  The labels: what happens, to which task, and what it does to the pool and the metrics.
  \<open>Pool\<close> and \<open>Meter\<close> are everything else that acts on the shared state: registrations,
  operators, health checks, other users of the metrics.
\<close>

datatype label =
    Arrive nat json_rpc_request forward_env
  | Select nat system_time "string option"
  | Note nat string
  | Answer nat
  | Wake nat
  | Finish nat string u64
  | Drop nat
  | Pool lb_op
  | Meter reg_op

inductive task_step :: "http_lib \<Rightarrow> server \<Rightarrow> label \<Rightarrow> server \<Rightarrow> bool" for lib where
  arrive: "tasks s t = None \<Longrightarrow> \<not> is_metrics_request (req_method req)
    \<Longrightarrow> task_step lib s (Arrive t req env) (put_task t (new_task (orch_retry (shared s)) req env) s)"
| select: "tasks s t = Some k \<Longrightarrow> t_phase k = Selecting \<Longrightarrow> now = fe_now (t_env k) (t_attempt k)
    \<Longrightarrow> next_node now (orch_lb (shared s)) = (node, lb)
    \<Longrightarrow> task_step lib s (Select t now node)
      (put_task t (selected (orch_retry (shared s)) node k) (s\<lparr>shared := (shared s)\<lparr>orch_lb := lb\<rparr>\<rparr>))"
| note_: "tasks s t = Some k \<Longrightarrow> t_phase k = Recording a
    \<Longrightarrow> task_step lib s (Note t a)
      (put_task t (sending a k) (s\<lparr>shared := on_metrics (record_node_request a) (shared s)\<rparr>))"
| answer: "tasks s t = Some k \<Longrightarrow> t_phase k = Sending a
    \<Longrightarrow> task_step lib s (Answer t) (put_task t (answered (orch_retry (shared s)) (task_response lib k a) k) s)"
| wake: "tasks s t = Some k \<Longrightarrow> t_phase k = Sleeping
    \<Longrightarrow> task_step lib s (Wake t) (put_task t (woken (orch_retry (shared s)) k) s)"
| finish_: "tasks s t = Some k \<Longrightarrow> t_phase k = Closing v
    \<Longrightarrow> task_step lib s (Finish t (t_method k) (task_latency k)) (put_task t (k\<lparr>t_phase := Done (Inr v)\<rparr>)
      (s\<lparr>shared := on_metrics (record_call (t_method k) (fe_start (t_env k)) (fe_end (t_env k)) True) (shared s)\<rparr>))"
| drop: "tasks s t = Some k \<Longrightarrow> t_phase k = Selecting \<or> (\<exists>a. t_phase k = Sending a) \<or> t_phase k = Sleeping
    \<Longrightarrow> task_step lib s (Drop t) (put_task t (k\<lparr>t_phase := Dropped\<rparr>) s)"
| pool: "task_step lib s (Pool op) (s\<lparr>shared := (shared s)\<lparr>orch_lb := lb_exec op (orch_lb (shared s))\<rparr>\<rparr>)"
| meter: "task_step lib s (Meter op) (s\<lparr>shared := on_metrics (\<lambda>r c. reg_exec op (r, c)) (shared s)\<rparr>)"

inductive_cases task_stepE [elim]: "task_step lib s l s'"

section \<open>The two shared components\<close>

text \<open>
  What a label does to the pool and to the metrics; each component sees a run of its own
  operations, and what was proved of those runs holds of every interleaving.
\<close>

fun pool_ops :: "label \<Rightarrow> lb_op list" where
  "pool_ops (Select t now node) = [NextNode now]"
| "pool_ops (Pool op) = [op]"
| "pool_ops l = []"

fun meter_ops :: "label \<Rightarrow> reg_op list" where
  "meter_ops (Note t a) = [NodeRequest a]"
| "meter_ops (Finish t m l) = [MethodCall m l True]"
| "meter_ops (Meter op) = [op]"
| "meter_ops l = []"

fun owner :: "label \<Rightarrow> nat option" where
  "owner (Arrive t req env) = Some t"
| "owner (Select t now node) = Some t"
| "owner (Note t a) = Some t"
| "owner (Answer t) = Some t"
| "owner (Wake t) = Some t"
| "owner (Finish t m l) = Some t"
| "owner (Drop t) = Some t"
| "owner l = None"

lemma pool_fold: "fold lb_exec ops lb = lb_run ops lb"
  by (simp add: lb_run_def)

lemma meter_fold: "fold reg_exec ops s = reg_run ops s"
  by (simp add: reg_run_def)

interpretation pool: component_view "task_step lib" "\<lambda>s. orch_lb (shared s)" lb_exec pool_ops
  for lib
  by standard auto

interpretation metrics: component_view "task_step lib"
    "\<lambda>s. (orch_metrics (shared s), orch_clock (shared s))" reg_exec meter_ops
  for lib
  by standard (auto simp: record_call_def task_latency_def)

lemma retry_step: "task_step lib s l s' \<Longrightarrow> orch_retry (shared s') = orch_retry (shared s)"
  by auto

interpretation same_config: invariant_system "task_step lib" "\<lambda>s. orch_retry (shared s) = cfg"
  for lib cfg
  by standard (simp add: retry_step)

section \<open>Nodes out of the rotation\<close>

lemma next_loop_enabled:
  "enabled_nodes lb \<noteq> [] \<Longrightarrow> fst (next_node_loop turns now lb) = Some a \<Longrightarrow> a \<in> set (enabled_nodes lb)"
proof (induction turns arbitrary: lb)
  case (Suc turns)
  have "enabled_nodes lb ! (round_robin_index lb mod length (enabled_nodes lb)) \<in> set (enabled_nodes lb)"
    using Suc.prems(1) by simp
  with Suc.prems Suc.IH [of "lb\<lparr>round_robin_index := (round_robin_index lb + 1) mod 2 ^ 64 mod length (enabled_nodes lb)\<rparr>"]
  show ?case by (auto simp: Let_def split: option.splits if_splits)
qed simp

lemma next_node_enabled: "fst (next_node now lb) = Some a \<Longrightarrow> a \<in> set (enabled_nodes lb)"
  by (auto simp: next_node_def intro: next_loop_enabled split: if_splits)

text \<open>What brings a node back: an operator, a healthy check, and adding it, as a registration does.\<close>

definition readmits :: "string \<Rightarrow> label \<Rightarrow> bool" where
  "readmits a l \<longleftrightarrow> l \<in> Pool ` {EnableNode a, AutoEnableNode a, AddNode a}"

lemma next_keeps_enabled [simp]: "enabled_nodes (snd (next_node now lb)) = enabled_nodes lb"
proof -
  have "enabled_nodes (snd (next_node_loop turns now lb)) = enabled_nodes lb" for turns
    by (induction turns arbitrary: lb) (auto simp: Let_def split: option.split)
  then show ?thesis by (simp add: next_node_def)
qed

lemma stays_out_exec:
  assumes "a \<notin> set (enabled_nodes lb)" "op \<notin> {EnableNode a, AutoEnableNode a, AddNode a}"
  shows "a \<notin> set (enabled_nodes (lb_exec op lb))"
proof (cases op)
  case (CheckCircuitTimeouts clk)
  with assms show ?thesis by (simp add: check_circuit_timeouts_def Let_def)
qed (use assms in \<open>auto simp: disable_node_def enable_node_def auto_disable_node_def auto_enable_node_def update_health_status_def
    add_node_def remove_node_def retain_other_def push_absent_def split: option.split\<close>)

lemma never_selected_from:
  "steps (task_step lib) s ls s' \<Longrightarrow> a \<notin> set (enabled_nodes (orch_lb (shared s))) \<Longrightarrow> list_all (\<lambda>l. \<not> readmits a l) ls
   \<Longrightarrow> Select u now (Some a) \<notin> set ls"
proof (induction rule: steps.induct)
  case (then_ s l s1 ls s')
  have ops: "pool_ops l = [] \<or> (\<exists>op. pool_ops l = [op] \<and> op \<notin> {EnableNode a, AutoEnableNode a, AddNode a})"
    using then_.prems(2) by (cases l) (auto simp: readmits_def)
  have "orch_lb (shared s1) = fold lb_exec (pool_ops l) (orch_lb (shared s))"
    using pool.step_view [OF then_.hyps(1)] .
  with ops stays_out_exec [OF then_.prems(1)] then_.prems(1) have "a \<notin> set (enabled_nodes (orch_lb (shared s1)))"
    by auto
  with then_.IH then_.prems(2) have "Select u now (Some a) \<notin> set ls" by simp
  moreover have "l \<noteq> Select u now (Some a)"
    using then_.hyps(1) then_.prems(1) next_node_enabled [of now "orch_lb (shared s)" a] by (auto elim!: task_stepE)
  ultimately show ?case by auto
qed simp

lemma never_selected:
  assumes "a \<notin> set (enabled_nodes lb)" "orch_lb (shared s) = lb" "steps (task_step lib) s ls s'" "list_all (\<lambda>l. \<not> readmits a l) ls"
  shows "Select u now (Some a) \<notin> set ls"
  using never_selected_from [OF assms(3)] assms(1,2,4) by simp

section \<open>A task's own steps\<close>

definition task_ok :: "orch_retry_config \<Rightarrow> task \<Rightarrow> bool" where
  "task_ok cfg k \<longleftrightarrow> t_attempt k \<le> max_retries cfg \<and> (t_phase k = Sleeping \<longrightarrow> t_attempt k < max_retries cfg)"

definition tasks_ok :: "server \<Rightarrow> bool" where
  "tasks_ok s \<longleftrightarrow> (\<forall>t k. tasks s t = Some k \<longrightarrow> task_ok (orch_retry (shared s)) k)"

lemma tasks_okD: "tasks_ok s \<Longrightarrow> tasks s t = Some k \<Longrightarrow> task_ok (orch_retry (shared s)) k"
  by (simp add: tasks_ok_def)

lemma own_task_ok [simp]:
  "task_ok cfg (new_task cfg req env)"
  "task_ok cfg k \<Longrightarrow> task_ok cfg (selected cfg node k)"
  "task_ok cfg k \<Longrightarrow> task_ok cfg (sending a k)"
  "task_ok cfg k \<Longrightarrow> task_ok cfg (answered cfg r k)"
  "task_ok cfg k \<Longrightarrow> t_phase k = Sleeping \<Longrightarrow> task_ok cfg (woken cfg k)"
  by (auto simp: task_ok_def new_task_def selected_def sending_def answered_def woken_def
      split: option.split sum.split)

lemma finished_task_ok [simp]:
  "task_ok cfg k \<Longrightarrow> task_ok cfg (k\<lparr>t_phase := Done r\<rparr>)"
  "task_ok cfg k \<Longrightarrow> task_ok cfg (k\<lparr>t_phase := Dropped\<rparr>)"
  by (simp_all add: task_ok_def)

lemma tasks_ok_step: "tasks_ok s \<Longrightarrow> task_step lib s l s' \<Longrightarrow> tasks_ok s'"
  unfolding tasks_ok_def by (erule task_stepE) auto

fun phase_rank :: "phase \<Rightarrow> nat" where
  "phase_rank Selecting = 4"
| "phase_rank (Recording a) = 3"
| "phase_rank (Sending a) = 2"
| "phase_rank Sleeping = 1"
| "phase_rank (Closing v) = 1"
| "phase_rank p = 0"

text \<open>The steps a task has left at most.\<close>

definition work_of :: "orch_retry_config \<Rightarrow> task \<Rightarrow> nat" where
  "work_of cfg k = (if phase_rank (t_phase k) = 0 then 0
     else 4 * (max_retries cfg - t_attempt k) + phase_rank (t_phase k))"

definition task_work :: "nat \<Rightarrow> server \<Rightarrow> nat option" where
  "task_work t s = map_option (work_of (orch_retry (shared s))) (tasks s t)"

lemma work_less:
  "t_phase k = Selecting \<Longrightarrow> work_of cfg (selected cfg node k) < work_of cfg k"
  "t_phase k = Recording a \<Longrightarrow> work_of cfg (sending a k) < work_of cfg k"
  "t_phase k = Sending a \<Longrightarrow> work_of cfg (answered cfg r k) < work_of cfg k"
  "t_phase k = Sleeping \<Longrightarrow> task_ok cfg k \<Longrightarrow> work_of cfg (woken cfg k) < work_of cfg k"
  "phase_rank (t_phase k) \<noteq> 0 \<Longrightarrow> work_of cfg (k\<lparr>t_phase := Done res\<rparr>) < work_of cfg k"
  "phase_rank (t_phase k) \<noteq> 0 \<Longrightarrow> work_of cfg (k\<lparr>t_phase := Dropped\<rparr>) < work_of cfg k"
  by (auto simp: work_of_def selected_def sending_def answered_def woken_def task_ok_def
      split: option.split sum.split)

interpretation tasks: bounded_participants "task_step lib" owner task_work tasks_ok
  for lib
proof
  fix s l s' i n
  assume ok: "tasks_ok s" and step: "task_step lib s l s'"
  show "tasks_ok s'" using ok step by (rule tasks_ok_step)
  assume work: "task_work i s = Some n"
  show "task_work i s' = Some n" if "owner l \<noteq> Some i"
    using step work that by cases (auto simp: task_work_def)
  show "\<exists>m < n. task_work i s' = Some m" if "owner l = Some i"
  proof -
    from work obtain k where "tasks s i = Some k" by (auto simp: task_work_def)
    note k = this tasks_okD [OF ok this]
    show ?thesis using step work that k
      by cases (auto simp: task_work_def intro: work_less)
  qed
qed

section \<open>Every interleaving is a sequential run\<close>

text \<open>
  What the other tasks do to the pool, cut at the selections of task \<open>t\<close>: first what happens
  before the first one, then what happens after each.
\<close>

fun selects_for :: "nat \<Rightarrow> label \<Rightarrow> bool" where
  "selects_for t (Select u now node) = (u = t)"
| "selects_for t l = False"

primrec slots :: "nat \<Rightarrow> label list \<Rightarrow> lb_op list list" where
  "slots t [] = [[]]"
| "slots t (l # ls) = (if selects_for t l then [] # slots t ls
     else (pool_ops l @ hd (slots t ls)) # tl (slots t ls))"

text \<open>The environment of the sequential loop in which attempt \<open>base + i\<close> meets the operations \<open>ms ! i\<close>.\<close>

definition with_ops :: "forward_env \<Rightarrow> nat \<Rightarrow> lb_op list list \<Rightarrow> forward_env" where
  "with_ops env base ms = env\<lparr>fe_meanwhile := \<lambda>k. (ms ! (k - base), [])\<rparr>"

lemma with_ops_simps [simp]:
  "fe_now (with_ops env base ms) = fe_now env"
  "fe_meanwhile (with_ops env base ms) k = (ms ! (k - base), [])"
  "send_http_request lib (with_ops env base ms) k m p a = send_http_request lib env k m p a"
  by (simp_all add: with_ops_def send_http_request_def split: sum.split)

text \<open>The caller sees the result and the events; they do not depend on the metrics.\<close>

definition outcome_of :: "('r \<times> 'e \<times> 'o) option \<Rightarrow> ('r \<times> 'e) option" where
  "outcome_of = map_option (\<lambda>(res, events, o'). (res, events))"

lemma outcome_of_simps [simp]:
  "outcome_of None = None"
  "outcome_of (Some (res, events, o')) = Some (res, events)"
  "outcome_of (map_option (\<lambda>(res, events, o'). (f res, g events, o')) r) = map_option (map_prod f g) (outcome_of r)"
  by (auto simp: outcome_of_def option.map_comp comp_def split_beta map_prod_def)

lemma forward_loop_cong:
  assumes "orch_lb o1 = orch_lb o2" "orch_retry o1 = orch_retry o2"
    and "\<forall>k \<ge> i. fe_now e1 k = fe_now e2 k \<and> fst (fe_meanwhile e1 k) = fst (fe_meanwhile e2 k)
      \<and> send_http_request lib e1 k meth params = send_http_request lib e2 k meth params"
  shows "outcome_of (forward_loop lib e1 meth params left i b o1) = outcome_of (forward_loop lib e2 meth params left i b o2)"
  using assms
proof (induction left arbitrary: i b o1 o2)
  case (Suc left)
  obtain node lb where n: "next_node (fe_now e2 i) (orch_lb o2) = (node, lb)" by (cases "next_node (fe_now e2 i) (orch_lb o2)")
  have eq: "fe_now e1 i = fe_now e2 i" "fst (fe_meanwhile e1 i) = fst (fe_meanwhile e2 i)"
    "send_http_request lib e1 i meth params = send_http_request lib e2 i meth params" using Suc.prems(3) by simp_all
  show ?case
  proof (cases node)
    case None
    with n eq Suc.prems(1,2) show ?thesis by (simp add: Let_def)
  next
    case (Some a)
    let ?o = "\<lambda>e o'. meanwhile e i (on_metrics (record_node_request a) (o'\<lparr>orch_lb := lb\<rparr>))"
    have "outcome_of (forward_loop lib e1 meth params left (Suc i) b' (?o e1 o1))
        = outcome_of (forward_loop lib e2 meth params left (Suc i) b' (?o e2 o2))" for b'
      using Suc.prems eq by (intro Suc.IH) simp_all
    with n Some eq Suc.prems(1,2) show ?thesis by (simp add: Let_def map_prod_def split: sum.split)
  qed
qed simp

text \<open>
  The result and the events a task ends with, from where it stands, if the others act as in
  \<open>ms\<close>: the events so far, and the sequential loop for the turns it has left.
\<close>

definition from_selection :: "http_lib \<Rightarrow> task \<Rightarrow> lb_op list list \<Rightarrow> orchestrator
    \<Rightarrow> (json result \<times> forward_event list) option" where
  "from_selection lib k ms o' = map_option (map_prod id ((@) (t_events k)))
     (outcome_of (forward_loop lib (with_ops (t_env k) (t_attempt k) (tl ms)) (t_method k) (t_params k)
       (Suc (max_retries (orch_retry o') - t_attempt k)) (t_attempt k) (t_backoff k)
       (o'\<lparr>orch_lb := lb_run (hd ms) (orch_lb o')\<rparr>)))"

definition from_answer :: "http_lib \<Rightarrow> task \<Rightarrow> lb_op list list \<Rightarrow> orchestrator
    \<Rightarrow> (json result \<times> forward_event list) option" where
  "from_answer lib k ms o' = (case t_phase k of
     Sleeping \<Rightarrow> from_selection lib (woken (orch_retry o') k) ms o'
   | Closing v \<Rightarrow> Some (Inr v, t_events k)
   | Done r \<Rightarrow> Some (r, t_events k)
   | _ \<Rightarrow> None)"

definition ends_with :: "http_lib \<Rightarrow> task \<Rightarrow> lb_op list list \<Rightarrow> orchestrator
    \<Rightarrow> (json result \<times> forward_event list) option" where
  "ends_with lib k ms o' = (let reply = \<lambda>a k. from_answer lib (answered (orch_retry o') (task_response lib k a) k) ms o'
     in case t_phase k of
       Selecting \<Rightarrow> from_selection lib k ms o'
     | Recording a \<Rightarrow> reply a (sending a k)
     | Sending a \<Rightarrow> reply a k
     | _ \<Rightarrow> from_answer lib k ms o')"

lemma slots_nonempty [simp]: "slots t ls \<noteq> []"
  by (induction ls) auto

lemma task_fields [simp]:
  "t_phase (sending a k) = Sending a" "t_events (sending a k) = t_events k @ [SentTo a]"
  "task_response lib (sending a k) = task_response lib k"
  "t_env (sending a k) = t_env k" "t_attempt (sending a k) = t_attempt k"
  "t_phase (woken cfg k) = Selecting"
  by (simp_all add: sending_def woken_def task_response_def fun_eq_iff)

text \<open>The steps of the others are absorbed by the slot they fall into.\<close>

lemma from_selection_absorbs:
  assumes "orch_lb o'' = lb_run ops (orch_lb o')" "orch_retry o'' = orch_retry o'" "ms \<noteq> []"
  shows "from_selection lib k ((ops @ hd ms) # tl ms) o' = from_selection lib k ms o''"
proof -
  have "lb_run (ops @ hd ms) (orch_lb o') = lb_run (hd ms) (orch_lb o'')" using assms by (simp add: lb_run_def)
  then show ?thesis unfolding from_selection_def using assms
    by (simp add: assms del: forward_loop.simps) (intro arg_cong [of _ _ "map_option _"] forward_loop_cong; simp add: assms)
qed

lemma ends_with_absorbs:
  assumes "orch_lb o'' = lb_run ops (orch_lb o')" "orch_retry o'' = orch_retry o'" "ms \<noteq> []"
  shows "ends_with lib k ((ops @ hd ms) # tl ms) o' = ends_with lib k ms o''"
  unfolding ends_with_def from_answer_def assms(2) Let_def
  by (simp only: from_selection_absorbs [OF assms])

text \<open>A selection is the next turn of the loop.\<close>

lemma loop_turn:
  assumes "next_node (fe_now env i) (orch_lb o') = (node, lb)" "i \<le> max_retries (orch_retry o')"
  shows "outcome_of (forward_loop lib env meth params (Suc (max_retries (orch_retry o') - i)) i b o') =
    (case node of
      None \<Rightarrow> Some (Inl (no_node_error (max_retries (orch_retry o')) i), [])
    | Some a \<Rightarrow> (case send_http_request lib env i meth params a of
        Inl e \<Rightarrow> if i < max_retries (orch_retry o') \<and> is_retryable_static e
          then map_option (map_prod id (\<lambda>events. SentTo a # Backoff b # events))
            (outcome_of (forward_loop lib env meth params (Suc (max_retries (orch_retry o') - Suc i)) (Suc i)
              (next_backoff (orch_retry o') b) (meanwhile env i (on_metrics (record_node_request a) (o'\<lparr>orch_lb := lb\<rparr>)))))
          else Some (Inl e, [SentTo a])
      | Inr v \<Rightarrow> Some (Inr v, [SentTo a])))"
proof (cases "i < max_retries (orch_retry o')")
  case True
  then have "Suc (max_retries (orch_retry o') - Suc i) = max_retries (orch_retry o') - i" by simp
  with True assms show ?thesis
    by (subst forward_loop.simps(2)) (simp add: Let_def id_def split: option.split sum.split del: forward_loop.simps)
next
  case False
  with assms show ?thesis by (simp add: Let_def split: option.split sum.split)
qed

lemma select_continues:
  assumes "t_phase k = Selecting" "task_ok (orch_retry o') k" "ms \<noteq> []"
    and n: "next_node (fe_now (t_env k) (t_attempt k)) (orch_lb o') = (node, lb)"
  shows "ends_with lib k ([] # ms) o' = ends_with lib (selected (orch_retry o') node k) ms (o'\<lparr>orch_lb := lb\<rparr>)"
proof -
  let ?e = "with_ops (t_env k) (t_attempt k) ms" and ?e' = "with_ops (t_env k) (Suc (t_attempt k)) (tl ms)"
  have le: "t_attempt k \<le> max_retries (orch_retry o')" using assms(2) by (simp add: task_ok_def)
  have same: "o'\<lparr>orch_lb := orch_lb o'\<rparr> = o'" "lb_run [] lb0 = lb0" for lb0 by (simp_all add: lb_run_def)
  have nth: "ms ! (j - t_attempt k) = tl ms ! (j - Suc (t_attempt k))" if "Suc (t_attempt k) \<le> j" for j
    using that assms(3) by (cases ms) (simp_all add: Suc_diff_le [symmetric])
  have later: "outcome_of (forward_loop lib ?e (t_method k) (t_params k) left (Suc (t_attempt k)) b
        (meanwhile ?e (t_attempt k) (on_metrics (record_node_request a) (o'\<lparr>orch_lb := lb\<rparr>))))
      = outcome_of (forward_loop lib ?e' (t_method k) (t_params k) left (Suc (t_attempt k)) b (o'\<lparr>orch_lb := lb_run (hd ms) lb\<rparr>))"
    for left b a using assms(3) by (intro forward_loop_cong) (simp_all add: nth hd_conv_nth fun_eq_iff)
  have turn: "ends_with lib k ([] # ms) o' = map_option (map_prod id ((@) (t_events k)))
      (outcome_of (forward_loop lib ?e (t_method k) (t_params k) (Suc (max_retries (orch_retry o') - t_attempt k))
        (t_attempt k) (t_backoff k) o'))"
    by (simp add: ends_with_def assms(1) from_selection_def same del: forward_loop.simps)
  have app: "(@) (xs @ ys) = (\<lambda>zs. xs @ ys @ zs)" for xs ys :: "forward_event list" by (simp add: fun_eq_iff)
  show ?thesis unfolding turn loop_turn [of ?e, unfolded with_ops_simps, OF n le] later
    by (auto simp: ends_with_def selected_def sending_def answered_def task_response_def from_answer_def
        from_selection_def woken_def option.map_comp comp_def map_prod.comp prod.map_comp id_def app
        simp del: forward_loop.simps split: option.split sum.split)
qed

text \<open>The other steps of the task itself.\<close>

lemma own_continues:
  "t_phase k = Recording a \<Longrightarrow> ends_with lib (sending a k) ms o' = ends_with lib k ms o'"
  "t_phase k = Sending a
    \<Longrightarrow> ends_with lib (answered (orch_retry o') (task_response lib k a) k) ms o' = ends_with lib k ms o'"
  "t_phase k = Sleeping \<Longrightarrow> ends_with lib (woken (orch_retry o') k) ms o' = ends_with lib k ms o'"
  "t_phase k = Closing v \<Longrightarrow> ends_with lib (k\<lparr>t_phase := Done (Inr v)\<rparr>) ms o' = ends_with lib k ms o'"
  by (auto simp: ends_with_def from_answer_def answered_def split: sum.split)

lemma step_continues:
  assumes "task_step lib s l s'" "tasks_ok s" "tasks s t = Some k" "tasks s' t = Some k'" "t_phase k' \<noteq> Dropped"
  shows "ends_with lib k (slots t (l # ls)) (shared s) = ends_with lib k' (slots t ls) (shared s')"
proof (cases "selects_for t l")
  case True
  then obtain now node where l: "l = Select t now node" by (cases l) auto
  from tasks_okD [OF assms(2,3)] assms show ?thesis
    by (auto simp: l select_continues)
next
  case False
  have absorb: "ends_with lib k (slots t (l # ls)) (shared s) = ends_with lib k (slots t ls) (shared s')"
    using False pool.step_view [OF assms(1)] retry_step [OF assms(1)]
    by (simp add: ends_with_absorbs pool_fold)
  also have "\<dots> = ends_with lib k' (slots t ls) (shared s')"
    using assms False by cases (auto simp: own_continues split: if_splits)
  finally show ?thesis .
qed

lemma arrived:
  "task_step lib s (Arrive t req env) s' \<Longrightarrow> s' = put_task t (new_task (orch_retry (shared s)) req env) s"
  by (erule task_stepE) simp_all

lemma dropped_stays:
  "task_step lib s l s' \<Longrightarrow> tasks s t = Some k \<Longrightarrow> t_phase k = Dropped \<Longrightarrow> tasks s' t = Some k"
  by (erule task_stepE) auto

lemma task_stays: "task_step lib s l s' \<Longrightarrow> tasks s t = Some k \<Longrightarrow> \<exists>k'. tasks s' t = Some k'"
  by auto

lemma dropped_run:
  "steps (task_step lib) s ls s' \<Longrightarrow> tasks s t = Some k \<Longrightarrow> t_phase k = Dropped \<Longrightarrow> tasks s' t = Some k"
  by (induction rule: steps.induct) (simp_all add: dropped_stays)

lemma run_continues:
  "steps (task_step lib) s ls s' \<Longrightarrow> tasks_ok s \<Longrightarrow> tasks s t = Some k \<Longrightarrow> tasks s' t = Some k'
   \<Longrightarrow> t_phase k' = Done r \<Longrightarrow> ends_with lib k (slots t ls) (shared s) = Some (r, t_events k')"
proof (induction arbitrary: k rule: steps.induct)
  case (stop s)
  then show ?case by (simp add: ends_with_def from_answer_def)
next
  case (then_ s l s1 ls s')
  from task_stays [OF then_.hyps(1) then_.prems(2)] obtain k1 where k1: "tasks s1 t = Some k1" by blast
  have "t_phase k1 \<noteq> Dropped"
    using dropped_run [OF then_.hyps(2) k1] then_.prems(3,4) by auto
  then have "ends_with lib k (slots t (l # ls)) (shared s) = ends_with lib k1 (slots t ls) (shared s1)"
    by (rule step_continues [OF then_.hyps(1) then_.prems(1,2) k1])
  also have "\<dots> = Some (r, t_events k')"
    by (rule then_.IH [OF tasks_ok_step [OF then_.prems(1) then_.hyps(1)] k1 then_.prems(3,4)])
  finally show ?case .
qed

section \<open>Counting\<close>

definition succeeded :: "server \<Rightarrow> nat set" where
  "succeeded s = {t. \<exists>k v. tasks s t = Some k \<and> t_phase k = Done (Inr v)}"

text \<open>The calls that others than the tasks record.\<close>

fun other_meter_ops :: "label \<Rightarrow> reg_op list" where
  "other_meter_ops (Meter op) = [op]"
| "other_meter_ops l = []"

definition metered :: "(bool \<Rightarrow> bool) \<Rightarrow> label list \<Rightarrow> nat" where
  "metered P ls = calls_where P (concat (map other_meter_ops ls))"

lemma calls_where_append [simp]: "calls_where P (ops @ ops') = calls_where P ops + calls_where P ops'"
  by (induction P ops rule: calls_where.induct) simp_all

lemma metered_simps [simp]:
  "metered P [] = 0" "metered P (l # ls) = calls_where P (other_meter_ops l) + metered P ls"
  by (simp_all add: metered_def)

lemma counters_exec:
  "counters (on_metrics (\<lambda>r c. reg_exec op (r, c)) o') = (case counters o' of (t, s, f) \<Rightarrow>
     (t + of_nat (calls_where (\<lambda>_. True) [op]), s + of_nat (calls_where (\<lambda>ok. ok) [op]), f + of_nat (calls_where Not [op])))"
  by (cases op) (simp_all add: counters_def method_call_counts node_request_fields)

lemma counters_node_request: "counters (on_metrics (record_node_request a) o') = counters o'"
  by (simp add: counters_def node_request_fields)

lemma succeeded_put:
  "tasks s t = None \<or> (\<exists>k. tasks s t = Some k \<and> \<not> (\<exists>v. t_phase k = Done (Inr v))) \<Longrightarrow>
   succeeded (put_task t k' s) = (if \<exists>v. t_phase k' = Done (Inr v) then insert t (succeeded s) else succeeded s)"
  by (auto simp: succeeded_def split: if_splits)

lemma succeeded_shared [simp]: "succeeded (s\<lparr>shared := o'\<rparr>) = succeeded s"
  by (simp add: succeeded_def)

lemma phase_not_ok [simp]:
  "t_phase (new_task cfg req env) \<noteq> Done (Inr v)"
  "t_phase k = Selecting \<Longrightarrow> t_phase (selected cfg node k) \<noteq> Done (Inr v)"
  "t_phase k = Sending a \<Longrightarrow> t_phase (answered cfg r k) \<noteq> Done (Inr v)"
  by (auto simp: selected_def new_task_def answered_def split: option.split sum.split)

text \<open>One step: the counters move with the successes and with what others record.\<close>

lemma step_counts:
  assumes "task_step lib s l s'" "finite (succeeded s)"
  shows "finite (succeeded s') \<and> counters (shared s') = (case counters (shared s) of (t, c, f) \<Rightarrow>
     (t + of_nat (card (succeeded s') - card (succeeded s)) + of_nat (metered (\<lambda>_. True) [l]),
      c + of_nat (card (succeeded s') - card (succeeded s)) + of_nat (metered (\<lambda>ok. ok) [l]),
      f + of_nat (metered Not [l]))) \<and> card (succeeded s) \<le> card (succeeded s')"
  using assms(1)
proof cases
  case (arrive t req env)
  then show ?thesis using assms(2) by (simp add: succeeded_put split: prod.split)
next
  case (select t k now node lb)
  then show ?thesis using assms(2) by (simp add: succeeded_put split: prod.split)
next
  case (note_ t k a)
  then show ?thesis using assms(2) by (simp add: succeeded_put counters_node_request split: prod.split)
next
  case (answer t k a)
  then show ?thesis using assms(2) by (simp add: succeeded_put split: prod.split)
next
  case (wake t k)
  then show ?thesis using assms(2) by (simp add: succeeded_put split: prod.split)
next
  case (finish_ t k v)
  then have "t \<notin> succeeded s" by (auto simp: succeeded_def)
  with finish_ show ?thesis using assms(2) by (simp add: succeeded_put counters_record_call split: prod.split)
next
  case (drop t k)
  then have "\<not> (\<exists>v. t_phase k = Done (Inr v))" by auto
  with drop show ?thesis using assms(2) by (simp add: succeeded_put split: prod.split)
qed (use assms(2) in \<open>simp_all add: counters_exec split: prod.split\<close>)

lemma run_task_counts:
  assumes "steps (task_step lib) s ls s'" "finite (succeeded s)" "counters (shared s) = (t, c, f)"
  shows "card (succeeded s) \<le> card (succeeded s') \<and> counters (shared s') =
     (t + of_nat (card (succeeded s') - card (succeeded s)) + of_nat (metered (\<lambda>_. True) ls),
      c + of_nat (card (succeeded s') - card (succeeded s)) + of_nat (metered (\<lambda>ok. ok) ls),
      f + of_nat (metered Not ls))"
  using assms
proof (induction arbitrary: t c f rule: steps.induct)
  case (then_ s l s1 ls s')
  note one = step_counts [OF then_.hyps(1) then_.prems(1)]
  obtain t1 c1 f1 where n: "counters (shared s1) = (t1, c1, f1)" by (cases "counters (shared s1)")
  from then_.IH [OF conjunct1 [OF one] n] one n then_.prems(2) show ?case
    by (auto simp flip: of_nat_add simp: algebra_simps)
qed simp

section \<open>Rotation over all the tasks\<close>

fun picked :: "label \<Rightarrow> (system_time \<times> string option) list" where
  "picked (Select t now node) = [(now, node)]"
| "picked l = []"

text \<open>What is selected over a whole run, by whichever task, in order.\<close>

definition picks :: "label list \<Rightarrow> (system_time \<times> string option) list" where
  "picks ls = concat (map picked ls)"

lemma picks_simps [simp]: "picks [] = []" "picks (l # ls) = picked l @ picks ls"
  by (simp_all add: picks_def)

fun pool_label :: "label \<Rightarrow> bool" where
  "pool_label (Pool op) = True"
| "pool_label l = False"

lemma picks_are_selections:
  "steps (task_step lib) s ls s' \<Longrightarrow> list_all (\<lambda>l. \<not> pool_label l) ls \<Longrightarrow>
   map snd (picks ls) = fst (select_run next_node (map fst (picks ls)) (orch_lb (shared s)))"
proof (induction rule: steps.induct)
  case (then_ s l s1 ls s')
  then have IH: "map snd (picks ls) = fst (select_run next_node (map fst (picks ls)) (orch_lb (shared s1)))"
    by simp
  from then_.hyps(1) show ?case using IH then_.prems
    by cases (simp_all add: split_beta)
qed simp

text \<open>In turns of \<open>n\<close>, each position comes up once in every \<open>n\<close> consecutive ones.\<close>

lemma turn_block:
  assumes "d < n"
  shows "length (filter (\<lambda>j. (i + j) mod n = d) [a..<a + n]) = 1"
proof -
  have "map (\<lambda>j. (i + j) mod n) [a..<a + n] = rotate (i + a) [0..<n]"
    using assms by (intro nth_equalityI) (simp_all add: nth_rotate ac_simps)
  then have "distinct (map (\<lambda>j. (i + j) mod n) [a..<a + n])" "d \<in> set (map (\<lambda>j. (i + j) mod n) [a..<a + n])"
    using assms by (simp_all only: distinct_rotate distinct_upt set_rotate set_upt atLeastLessThan_iff le0 simp_thms)
  then have "count (mset (map (\<lambda>j. (i + j) mod n) [a..<a + n])) d = 1"
    unfolding distinct_count_atmost_1 by metis
  moreover have "length (filter (\<lambda>j. f j = d) js) = count (mset (map f js)) d" for f :: "nat \<Rightarrow> nat" and js
    by (induction js) auto
  ultimately show ?thesis by simp
qed

lemma turn_blocks:
  "d < n \<Longrightarrow> length (filter (\<lambda>j. (i + j) mod n = d) [0..<q * n]) = q"
proof (induction q)
  case (Suc q)
  have "[0..<Suc q * n] = [0..<q * n] @ [q * n..<q * n + n]"
    by (metis add.commute le_add1 mult_Suc upt_add_eq_append zero_le)
  with Suc turn_block [of d n i "q * n"] show ?case by simp
qed simp

lemma turn_count:
  assumes "d < n"
  shows "length (filter (\<lambda>j. (i + j) mod n = d) [0..<m]) \<in> {m div n, Suc (m div n)}"
proof -
  let ?b = "m div n * n" and ?P = "\<lambda>j. (i + j) mod n = d"
  have le: "?b \<le> m" "m \<le> ?b + n" using dividend_less_div_times [of n m] assms by simp_all
  then have split: "[0..<m] = [0..<?b] @ [?b..<m]" "[?b..<?b + n] = [?b..<m] @ [m..<?b + n]"
    by (metis le_add_diff_inverse upt_add_eq_append zero_le,
        metis le_add_diff_inverse upt_add_eq_append)
  have "length (filter ?P [?b..<m]) \<le> 1"
    using turn_block [OF assms, of i ?b] unfolding split(2) by simp
  moreover have "length (filter ?P [0..<m]) = m div n + length (filter ?P [?b..<m])"
    unfolding split(1) using turn_blocks [OF assms, of i "m div n"] by simp
  ultimately show ?thesis by (simp only: insert_iff) linarith
qed

text \<open>How often an address comes up among the first selections of a pool in rotation.\<close>

lemma turn_addr_count:
  assumes "distinct (enabled_nodes lb)" "a \<in> set (enabled_nodes lb)"
  shows "length (filter (\<lambda>j. turn_addr lb j = a) [0..<m])
    \<in> {m div length (enabled_nodes lb), Suc (m div length (enabled_nodes lb))}"
proof -
  from assms(2) obtain d where d: "d < length (enabled_nodes lb)" "enabled_nodes lb ! d = a"
    by (auto simp: in_set_conv_nth)
  then have "turn_addr lb j = a \<longleftrightarrow> (round_robin_index lb + j) mod length (enabled_nodes lb) = d" for j
  proof -
    from d(1) have "(round_robin_index lb + j) mod length (enabled_nodes lb) < length (enabled_nodes lb)"
      by (intro mod_less_divisor) auto
    from nth_eq_iff_index_eq [OF assms(1) this d(1)] d(2) show ?thesis by (simp add: turn_addr_def)
  qed
  with turn_count [OF d(1)] show ?thesis by simp
qed

section \<open>Running the machine\<close>

text \<open>The step relation computes: a label has at most one effect.\<close>

definition task_exec :: "http_lib \<Rightarrow> label \<Rightarrow> server \<Rightarrow> server option" where
  "task_exec lib l s = (let cfg = orch_retry (shared s); on_task = \<lambda>t f. (case tasks s t of None \<Rightarrow> None | Some k \<Rightarrow> f k)
   in case l of
     Arrive t req env \<Rightarrow> if tasks s t = None \<and> \<not> is_metrics_request (req_method req)
       then Some (put_task t (new_task cfg req env) s) else None
   | Select t now node \<Rightarrow> on_task t (\<lambda>k. case next_node now (orch_lb (shared s)) of (node', lb) \<Rightarrow>
       if t_phase k = Selecting \<and> now = fe_now (t_env k) (t_attempt k) \<and> node' = node
       then Some (put_task t (selected cfg node k) (s\<lparr>shared := (shared s)\<lparr>orch_lb := lb\<rparr>\<rparr>)) else None)
   | Note t a \<Rightarrow> on_task t (\<lambda>k. if t_phase k = Recording a
       then Some (put_task t (sending a k) (s\<lparr>shared := on_metrics (record_node_request a) (shared s)\<rparr>)) else None)
   | Answer t \<Rightarrow> on_task t (\<lambda>k. case t_phase k of
       Sending a \<Rightarrow> Some (put_task t (answered cfg (task_response lib k a) k) s) | _ \<Rightarrow> None)
   | Wake t \<Rightarrow> on_task t (\<lambda>k. if t_phase k = Sleeping then Some (put_task t (woken cfg k) s) else None)
   | Finish t m lat \<Rightarrow> on_task t (\<lambda>k. case t_phase k of
       Closing v \<Rightarrow> if m = t_method k \<and> lat = task_latency k then Some (put_task t (k\<lparr>t_phase := Done (Inr v)\<rparr>)
         (s\<lparr>shared := on_metrics (record_call (t_method k) (fe_start (t_env k)) (fe_end (t_env k)) True) (shared s)\<rparr>)) else None
     | _ \<Rightarrow> None)
   | Drop t \<Rightarrow> on_task t (\<lambda>k. if (case t_phase k of Selecting \<Rightarrow> True | Sending a \<Rightarrow> True | Sleeping \<Rightarrow> True | _ \<Rightarrow> False)
       then Some (put_task t (k\<lparr>t_phase := Dropped\<rparr>) s) else None)
   | Pool op \<Rightarrow> Some (s\<lparr>shared := (shared s)\<lparr>orch_lb := lb_exec op (orch_lb (shared s))\<rparr>\<rparr>)
   | Meter op \<Rightarrow> Some (s\<lparr>shared := on_metrics (\<lambda>r c. reg_exec op (r, c)) (shared s)\<rparr>))"

lemma task_exec_sound: "task_exec lib l s = Some s' \<Longrightarrow> task_step lib s l s'"
  by (cases l) (auto simp: task_exec_def Let_def split: option.splits if_splits phase.splits prod.splits
      intro: task_step.intros)

lemma task_exec_complete: "task_step lib s l s' \<Longrightarrow> task_exec lib l s = Some s'"
  by (erule task_stepE) (auto simp: task_exec_def Let_def)

primrec task_run :: "http_lib \<Rightarrow> label list \<Rightarrow> server \<Rightarrow> server option" where
  "task_run lib [] s = Some s"
| "task_run lib (l # ls) s = Option.bind (task_exec lib l s) (task_run lib ls)"

lemma task_run_sound: "task_run lib ls s = Some s' \<Longrightarrow> steps (task_step lib) s ls s'"
  by (induction ls arbitrary: s) (auto simp: steps_Cons bind_eq_Some_conv intro: task_exec_sound)

definition idle_server :: server where
  "idle_server = \<lparr>shared = two_nodes, tasks = (\<lambda>_. None)\<rparr>"

text \<open>Two calls at once: the second one selects first, so the first one is sent to the other node.\<close>

definition two_calls :: "label list" where
  "two_calls = [Arrive 0 some_request (idle_env (\<lambda>_ _ _. echo_net)), Arrive 1 some_request (idle_env (\<lambda>_ _ _. echo_net)),
     Select 1 7 (Some ''a''), Select 0 7 (Some ''b''), Note 0 ''b'', Note 1 ''a'', Answer 0, Drop 1, Finish 0 ''f'' 0]"

lemma idle_server_ok: "tasks_ok idle_server" "lb_ok (orch_lb (shared idle_server))"
  using two_nodes_ok by (simp_all add: tasks_ok_def idle_server_def)

lemma two_calls_run:
  "\<exists>s' k. steps (task_step echo_lib) idle_server two_calls s' \<and> tasks s' 0 = Some k \<and> t_phase k = Done (Inr JNull)
     \<and> t_events k = [SentTo ''b''] \<and> succeeded s' = {0}"
proof -
  have "task_response echo_lib k a = Inr JNull" if "t_env k = idle_env (\<lambda>_ _ _. echo_net)" for k a
    using call_first [of echo_lib "\<lparr>base_url = normalize_url a, pool_config = default_connection, retry = default_retry\<rparr>" "\<lambda>_. echo_net"] that
    by (simp add: task_response_def send_http_request_def client_new_def with_configs_def idle_env_def echo_answers conclusive_def default_retry_def)
  moreover have others: "{t. t \<noteq> Suc 0 \<and> (t \<noteq> Suc 0 \<longrightarrow> t = 0)} = {0}" by auto
  ultimately have "\<exists>s'. task_run echo_lib two_calls idle_server = Some s' \<and> (\<exists>k. tasks s' 0 = Some k
      \<and> t_phase k = Done (Inr JNull) \<and> t_events k = [SentTo ''b'']) \<and> succeeded s' = {0}"
    by (simp add: two_calls_def task_exec_def Let_def idle_server_def new_task_def some_request_def is_metrics_request_def
      two_nodes_def selected_def answered_def idle_env_def next_node_def lb_new_def collect_nodes_def node_new_def
      count_request_def sending_def task_latency_def duration_since_def succeeded_def others)
  then show ?thesis by (elim exE conjE) (intro exI conjI task_run_sound; assumption)
qed

section \<open>Properties\<close>

text \<open>
  C4. Concurrency is accounted for: whatever the other tasks, operators and health checks do
  in between, a task that ends returns the result of the sequential function, after the same
  sendings and pauses, in a pool where the others' operations happen while its attempts are in
  flight.
\<close>

theorem interleaving_is_sequential:
  assumes "\<not> is_metrics_request (req_method req)" "tasks_ok s"
    and "steps (task_step lib) s (Arrive t req env # ls) s'" "tasks s' t = Some k" "t_phase k = Done r"
  shows "outcome_of (forward_request_jsonrpc lib (with_ops env 0 (tl (slots t ls))) version req
      ((shared s)\<lparr>orch_lb := lb_run (hd (slots t ls)) (orch_lb (shared s))\<rparr>)) = Some (r, t_events k)"
proof -
  from assms(3) obtain s1 where step: "task_step lib s (Arrive t req env) s1" and run: "steps (task_step lib) s1 ls s'"
    by (rule steps_ConsE)
  from arrived [OF step] have s1: "tasks s1 t = Some (new_task (orch_retry (shared s)) req env)" "shared s1 = shared s" by simp_all
  from run_continues [OF run tasks_ok_step [OF assms(2) step] s1(1) assms(4,5)]
  have "from_selection lib (new_task (orch_retry (shared s)) req env) (slots t ls) (shared s) = Some (r, t_events k)"
    by (simp add: s1 ends_with_def new_task_def)
  then show ?thesis
    using assms(1) by (simp add: from_selection_def new_task_def forward_request_jsonrpc_def id_def
        option.map_ident prod.map_ident del: forward_loop.simps)
qed

theorem interleaving_is_sequential_witness:
  "outcome_of (forward_request_jsonrpc echo_lib (with_ops (idle_env (\<lambda>_ _ _. echo_net)) 0 [[]]) ''1'' some_request
      ((shared idle_server)\<lparr>orch_lb := lb_run [NextNode 7] (orch_lb (shared idle_server))\<rparr>)) = Some (Inr JNull, [SentTo ''b''])"
proof -
  obtain s' k where run: "steps (task_step echo_lib) idle_server two_calls s'" and k: "tasks s' 0 = Some k"
    "t_phase k = Done (Inr JNull)" "t_events k = [SentTo ''b'']" using two_calls_run by blast
  have "\<not> is_metrics_request (req_method some_request)" by (simp add: some_request_def is_metrics_request_def)
  from interleaving_is_sequential [OF this idle_server_ok(1) run [unfolded two_calls_def] k(1,2)] k(3)
  show ?thesis by simp
qed

text \<open>
  C21. Accounting under concurrency: over any run of a server that starts with no request in
  flight, the counters of the orchestrator are moved by exactly one total and one success for
  every task that has returned a result, whatever the interleaving, the tasks dropped half way
  included; no task ever counts a failure. Anything else is what others recorded.
\<close>

theorem concurrent_accounting:
  assumes "steps (task_step lib) s ls s'" "tasks s = (\<lambda>_. None)" "counters (shared s) = (t, c, f)"
  shows "counters (shared s') = (t + of_nat (card (succeeded s')) + of_nat (metered (\<lambda>_. True) ls),
     c + of_nat (card (succeeded s')) + of_nat (metered (\<lambda>ok. ok) ls), f + of_nat (metered Not ls))"
proof -
  have "succeeded s = {}" by (simp add: succeeded_def assms(2))
  with run_task_counts [OF assms(1) _ assms(3)] show ?thesis by simp
qed

theorem concurrent_accounting_witness:
  "\<exists>s'. steps (task_step echo_lib) idle_server two_calls s' \<and> counters (shared s') = (1, 1, 0)"
proof -
  obtain s' where run: "steps (task_step echo_lib) idle_server two_calls s'" and ok: "succeeded s' = {0}"
    using two_calls_run by blast
  have "tasks idle_server = (\<lambda>_. None)" "counters (shared idle_server) = (0, 0, 0)"
    by (simp_all add: idle_server_def counters_def two_nodes_def registry_new_def registry_with_config_def)
  from concurrent_accounting [OF run this] ok have "counters (shared s') = (1, 1, 0)"
    by (simp add: two_calls_def)
  with run show ?thesis by blast
qed

lemma can_stepI:
  "task_step lib s l s' \<Longrightarrow> owner l = Some t \<Longrightarrow> l \<noteq> Drop t
   \<Longrightarrow> \<exists>l s'. owner l = Some t \<and> l \<noteq> Drop t \<and> task_step lib s l s'"
  by blast

lemma task_can_step:
  assumes k: "tasks s t = Some k" and "t_phase k \<noteq> Dropped" "\<forall>r. t_phase k \<noteq> Done r"
  shows "\<exists>l s'. owner l = Some t \<and> l \<noteq> Drop t \<and> task_step lib s l s'"
proof (cases "t_phase k")
  case Selecting
  obtain node lb where "next_node (fe_now (t_env k) (t_attempt k)) (orch_lb (shared s)) = (node, lb)"
    by (cases "next_node (fe_now (t_env k) (t_attempt k)) (orch_lb (shared s))")
  from task_step.select [OF k Selecting refl this] show ?thesis by (rule can_stepI) simp_all
next
  case (Recording a)
  from task_step.note_ [OF k this] show ?thesis by (rule can_stepI) simp_all
next
  case (Sending a)
  from task_step.answer [OF k this] show ?thesis by (rule can_stepI) simp_all
next
  case Sleeping
  from task_step.wake [OF k this] show ?thesis by (rule can_stepI) simp_all
next
  case (Closing v)
  from task_step.finish_ [OF k this] show ?thesis by (rule can_stepI) simp_all
qed (use assms in auto)

text \<open>
  C22. Every task finishes: it takes at most four steps of its own for each attempt the
  configuration allows, and until it has returned or was dropped, one of its own steps is
  possible, so no task ever waits for another one.
\<close>

theorem tasks_finish:
  assumes "steps (task_step lib) s (Arrive t req env # ls) s'" "tasks_ok s" "tasks s' t = Some k"
  shows "length (filter (\<lambda>l. owner l = Some t) ls) \<le> 4 * Suc (max_retries (orch_retry (shared s)))
    \<and> ((\<exists>r. t_phase k = Done r) \<or> t_phase k = Dropped
       \<or> (\<exists>l s''. owner l = Some t \<and> l \<noteq> Drop t \<and> task_step lib s' l s''))"
proof -
  from assms(1) obtain s1 where step: "task_step lib s (Arrive t req env) s1" and run: "steps (task_step lib) s1 ls s'"
    by (rule steps_ConsE)
  from arrived [OF step] have "task_work t s1 = Some (4 * Suc (max_retries (orch_retry (shared s))))"
    by (simp add: task_work_def work_of_def new_task_def)
  from tasks.own_steps_bounded [OF run tasks_ok_step [OF assms(2) step] this]
  have "length (filter (\<lambda>l. owner l = Some t) ls) \<le> 4 * Suc (max_retries (orch_retry (shared s)))" by auto
  moreover have "\<exists>l s''. owner l = Some t \<and> l \<noteq> Drop t \<and> task_step lib s' l s''"
    if "t_phase k \<noteq> Dropped" "\<And>r. t_phase k \<noteq> Done r"
  proof -
    show ?thesis using task_can_step [OF assms(3)] that by blast
  qed
  ultimately show ?thesis by blast
qed

theorem tasks_finish_witness:
  "\<exists>s'. steps (task_step echo_lib) idle_server two_calls s'
     \<and> length (filter (\<lambda>l. owner l = Some 0) (tl two_calls)) \<le> 4 * Suc (max_retries (orch_retry (shared idle_server)))"
proof -
  obtain s' k where run: "steps (task_step echo_lib) idle_server two_calls s'" and k: "tasks s' 0 = Some k"
    using two_calls_run by blast
  from tasks_finish [OF run [unfolded two_calls_def] idle_server_ok(1) k] run
  show ?thesis by (auto simp: two_calls_def)
qed

text \<open>
  C6. The rotation spans the tasks: while every enabled node is selectable (no circuit of theirs is open) and no
  operation on the pool falls between their steps, the nodes the tasks are given, in the order they select,
  are the enabled nodes in turn from the position of the round robin on, each selection the next one; so
  after any number of selections every enabled node has been given out equally often up to one.
\<close>

theorem tasks_share_rotation:
  assumes "steps (task_step lib) s ls s'" "list_all (\<lambda>l. \<not> pool_label l) ls"
    and "lb_ok (orch_lb (shared s))" "\<forall>a \<in> set (enabled_nodes (orch_lb (shared s))). selectable (orch_lb (shared s)) a"
    and "a \<in> set (enabled_nodes (orch_lb (shared s)))"
  shows "map snd (picks ls) = map (\<lambda>j. Some (enabled_nodes (orch_lb (shared s)) !
        ((round_robin_index (orch_lb (shared s)) + j) mod length (enabled_nodes (orch_lb (shared s)))))) [0..<length (picks ls)]
    \<and> length (filter (\<lambda>p. snd p = Some a) (picks ls))
    \<in> {length (picks ls) div length (enabled_nodes (orch_lb (shared s))),
       Suc (length (picks ls) div length (enabled_nodes (orch_lb (shared s))))}"
proof -
  let ?lb = "orch_lb (shared s)"
  have ok: "lb_bounds ?lb" "distinct (enabled_nodes ?lb)" using assms(3) by (simp_all add: lb_ok_def lb_inv_iff)
  have "enabled_nodes ?lb \<noteq> []" using assms(5) by auto
  from select_run_in_turn [OF ok(1) this assms(4)] picks_are_selections [OF assms(1,2)]
  have picks: "map snd (picks ls) = map (\<lambda>j. Some (turn_addr ?lb j)) [0..<length (picks ls)]" by simp
  have "length (filter (\<lambda>p. snd p = Some a) (picks ls)) = length (filter (\<lambda>x. x = Some a) (map snd (picks ls)))"
    by (simp add: filter_map comp_def)
  also have "\<dots> = length (filter (\<lambda>j. turn_addr ?lb j = a) [0..<length (picks ls)])"
    unfolding picks by (simp add: filter_map comp_def)
  finally show ?thesis using turn_addr_count [OF ok(2) assms(5)] picks by (simp add: turn_addr_def)
qed

theorem tasks_share_rotation_witness:
  "\<exists>s'. steps (task_step echo_lib) idle_server two_calls s' \<and> map snd (picks two_calls) = [Some ''a'', Some ''b'']
     \<and> length (filter (\<lambda>p. snd p = Some ''b'') (picks two_calls)) \<in> {1, 2}"
proof -
  obtain s' where run: "steps (task_step echo_lib) idle_server two_calls s'" using two_calls_run by blast
  have lb: "enabled_nodes (orch_lb (shared idle_server)) = [''a'', ''b'']" "round_robin_index (orch_lb (shared idle_server)) = 0"
    by (simp_all add: idle_server_def two_nodes_def lb_new_def)
  have n: "length (picks two_calls) = 2" by (simp add: two_calls_def)
  have "list_all (\<lambda>l. \<not> pool_label l) two_calls"
    "\<forall>a \<in> set (enabled_nodes (orch_lb (shared idle_server))). selectable (orch_lb (shared idle_server)) a"
    by (simp_all add: two_calls_def idle_server_def two_nodes_def lb_new_def selectable_def map_of_collect)
  from tasks_share_rotation [OF run this(1) idle_server_ok(2) this(2), of "''b''"] run show ?thesis
    by (auto simp: lb n eval_nat_numeral)
qed

end
