(* ===== verification/Atomics.thy ===== *)
theory Atomics
  imports Transition Registry
begin

text \<open>
  The metrics registry under concurrent threads (\<open>madrpc-metrics/src/registry.rs\<close>). \<open>Registry\<close> gives each
  recording as one function; here it is what the code makes of it: atomic operations on the
  counters, one critical section for each use of a map's lock, and statistics behind \<open>Arc\<close>
  handles, which a thread may still hold when the map has dropped them. The threads interleave
  between any two of these steps. Relaxed atomics are taken to be interleaved: each is a single
  read-modify-write on its own location, and only the counters themselves are compared.
\<close>

section \<open>Timestamps\<close>

text \<open>
  \<open>get_monotonic_timestamp\<close>: the clock is read once, then the loop loads the last timestamp and
  tries to replace it; \<open>compare_exchange_weak\<close> may fail for no reason.
\<close>

datatype stamp_phase = Asking | Reading u64 | Loaded u64 u64 | Stamped u64

record stamp_machine =
  sm_clock :: ts_clock
  sm_threads :: "nat \<Rightarrow> stamp_phase"

datatype stamp_label = StampRead nat | StampLoad nat | StampSwap nat u64 | StampRetry nat | StampAgain nat

definition set_stamp :: "nat \<Rightarrow> stamp_phase \<Rightarrow> stamp_machine \<Rightarrow> stamp_machine" where
  "set_stamp t p s = s\<lparr>sm_threads := (sm_threads s)(t := p)\<rparr>"

inductive stamp_step :: "stamp_machine \<Rightarrow> stamp_label \<Rightarrow> stamp_machine \<Rightarrow> bool" where
  read: "sm_threads s t = Asking \<Longrightarrow> read_millis (sm_clock s) = (system_time, c)
    \<Longrightarrow> stamp_step s (StampRead t) (set_stamp t (Reading system_time) (s\<lparr>sm_clock := c\<rparr>))"
| load: "sm_threads s t = Reading system_time
    \<Longrightarrow> stamp_step s (StampLoad t) (set_stamp t (Loaded system_time (LAST_TIMESTAMP (sm_clock s))) s)"
| swap: "sm_threads s t = Loaded system_time last' \<Longrightarrow> LAST_TIMESTAMP (sm_clock s) = last' \<Longrightarrow> new = max system_time (last' + 1)
    \<Longrightarrow> stamp_step s (StampSwap t new) (set_stamp t (Stamped new) (s\<lparr>sm_clock := (sm_clock s)\<lparr>LAST_TIMESTAMP := new\<rparr>\<rparr>))"
| retry: "sm_threads s t = Loaded system_time last'
    \<Longrightarrow> stamp_step s (StampRetry t) (set_stamp t (Reading system_time) s)"
| again: "sm_threads s t = Stamped new \<Longrightarrow> stamp_step s (StampAgain t) (set_stamp t Asking s)"

inductive_cases stamp_stepE: "stamp_step s l s'"

fun issued :: "stamp_label \<Rightarrow> u64 list" where
  "issued (StampSwap t new) = [new]"
| "issued l = []"

definition timestamps_of :: "stamp_label list \<Rightarrow> u64 list" where
  "timestamps_of ls = concat (map issued ls)"

lemma timestamps_of_simps [simp]:
  "timestamps_of [] = []" "timestamps_of (l # ls) = issued l @ timestamps_of ls"
  by (simp_all add: timestamps_of_def)

lemma read_millis_last [simp]: "LAST_TIMESTAMP (snd (read_millis c)) = LAST_TIMESTAMP c"
  by (simp add: read_millis_def Let_def)

lemma stamp_step_last:
  assumes "stamp_step s l s'"
  shows "case issued l of [] \<Rightarrow> LAST_TIMESTAMP (sm_clock s') = LAST_TIMESTAMP (sm_clock s)
    | new # _ \<Rightarrow> issued l = [new] \<and> LAST_TIMESTAMP (sm_clock s') = new \<and> LAST_TIMESTAMP (sm_clock s) + 1 \<le> new"
  using assms
proof cases
  case (read t system_time c)
  then show ?thesis using read_millis_last [of "sm_clock s"] by (simp add: set_stamp_def)
qed (auto simp: set_stamp_def)

lemma word_less_Suc:
  assumes "x \<noteq> - 1"
  shows "x < x + (1 :: u64)"
proof -
  have "unat x \<noteq> unat (- 1 :: u64)" using assms by (simp only: word_unat_eq_iff not_False_eq_True)
  moreover have "unat (- 1 :: u64) = 2 ^ 64 - 1" by (simp add: unsigned_minus_1_eq_mask mask_eq_exp_minus_1)
  ultimately have "unat x \<noteq> 2 ^ 64 - 1" by simp
  moreover have "unat x < 2 ^ 64" using unsigned_less [of x] by simp
  ultimately have "unat x + 1 < 2 ^ 64" by simp
  from unat_Suc_word [OF this] show ?thesis by (simp add: word_less_nat_alt)
qed

lemma stamps_increase:
  "steps stamp_step s ls s' \<Longrightarrow> LAST_TIMESTAMP (sm_clock s) \<noteq> - 1 \<Longrightarrow> \<forall>ts \<in> set (timestamps_of ls). ts \<noteq> - 1
   \<Longrightarrow> sorted_wrt (<) (LAST_TIMESTAMP (sm_clock s) # timestamps_of ls)"
proof (induction rule: steps.induct)
  case (then_ s l s1 ls s')
  note last = stamp_step_last [OF then_.hyps(1)]
  show ?case
  proof (cases "issued l")
    case Nil
    with last then_.IH then_.prems show ?thesis by simp
  next
    case (Cons new more)
    with last have l: "issued l = [new]" "LAST_TIMESTAMP (sm_clock s1) = new" "LAST_TIMESTAMP (sm_clock s) + 1 \<le> new" by simp_all
    have "LAST_TIMESTAMP (sm_clock s) < new"
      using word_less_Suc [OF then_.prems(1)] l(3) by (rule order.strict_trans2)
    with then_.IH then_.prems l show ?thesis by (auto intro: order.strict_trans)
  qed
qed simp

section \<open>The shared registry\<close>

text \<open>
  The fields of \<open>MetricsRegistry\<close>; the maps hold handles, and the statistics behind them are the
  two stores, where nothing is ever freed.
\<close>

record shared_registry =
  at_total :: u64
  at_success :: u64
  at_failed :: u64
  at_active :: u64
  at_cleanup :: u64
  at_methods :: "(string \<times> nat) list"
  at_nodes :: "(string \<times> nat) list"
  method_store :: "method_stats list"
  node_store :: "node_stats list"
  at_start :: instant
  at_config :: metrics_config
  at_clock :: ts_clock

definition shared_new :: "instant \<Rightarrow> metrics_config \<Rightarrow> ts_clock \<Rightarrow> shared_registry" where
  "shared_new t cfg c = \<lparr>at_total = 0, at_success = 0, at_failed = 0, at_active = 0, at_cleanup = 0,
     at_methods = [], at_nodes = [], method_store = [], node_store = [], at_start = t, at_config = cfg, at_clock = c\<rparr>"

definition on_method :: "nat \<Rightarrow> (method_stats \<Rightarrow> method_stats) \<Rightarrow> shared_registry \<Rightarrow> shared_registry" where
  "on_method p f r = r\<lparr>method_store := (method_store r)[p := f (method_store r ! p)]\<rparr>"

definition on_node :: "nat \<Rightarrow> (node_stats \<Rightarrow> node_stats) \<Rightarrow> shared_registry \<Rightarrow> shared_registry" where
  "on_node p f r = r\<lparr>node_store := (node_store r)[p := f (node_store r ! p)]\<rparr>"

section \<open>The steps of a recording\<close>

text \<open>
  Where a thread stands in \<open>record_method_call\<close> or \<open>record_node_request\<close>; \<open>Stamp\<close> and \<open>Store\<close> are the two
  halves of \<open>update_last_access\<close>, with what comes after them.
\<close>

datatype after_stamp = ThenLatency | ThenResult | ThenEnd

datatype record_phase =
    Total | Outcome | Tick
  | SweepStamp | SweepMethods u64 | SweepNodes u64
  | Entry
  | Count nat
  | Stamp nat after_stamp | Store nat u64 after_stamp
  | BinCount nat | LatencySum nat | SampleCount nat
  | Result nat
  | Finished nat

fun first_phase :: "reg_op \<Rightarrow> record_phase" where
  "first_phase (MethodCall m l ok) = Total"
| "first_phase (NodeRequest a) = Tick"

fun after :: "nat \<Rightarrow> after_stamp \<Rightarrow> record_phase" where
  "after p ThenLatency = BinCount p"
| "after p ThenResult = Result p"
| "after p ThenEnd = Finished p"

text \<open>
  One step. The critical sections are \<open>SweepMethods\<close> and \<open>SweepNodes\<close>, which read the timestamps
  while they hold the lock, and \<open>Entry\<close>, which clones the handle; new statistics of a method take a
  timestamp, those of a node start with zero.
\<close>

fun enter :: "reg_op \<Rightarrow> shared_registry \<Rightarrow> nat \<times> shared_registry" where
  "enter (MethodCall m l ok) r = (case map_of (at_methods r) m of
     Some p \<Rightarrow> (p, r)
   | None \<Rightarrow> (case method_stats_new (at_clock r) of (stats, c) \<Rightarrow> (length (method_store r),
       r\<lparr>at_methods := AList.update m (length (method_store r)) (at_methods r),
         method_store := method_store r @ [stats], at_clock := c\<rparr>)))"
| "enter (NodeRequest a) r = (case map_of (at_nodes r) a of
     Some p \<Rightarrow> (p, r)
   | None \<Rightarrow> (length (node_store r), r\<lparr>at_nodes := AList.update a (length (node_store r)) (at_nodes r),
       node_store := node_store r @ [node_stats_new]\<rparr>))"

fun count_at :: "reg_op \<Rightarrow> nat \<Rightarrow> shared_registry \<Rightarrow> shared_registry" where
  "count_at (MethodCall m l ok) p r = on_method p (\<lambda>s. s\<lparr>call_count := call_count s + 1\<rparr>) r"
| "count_at (NodeRequest a) p r = on_node p (\<lambda>s. s\<lparr>ns_request_count := ns_request_count s + 1\<rparr>) r"

fun store_at :: "reg_op \<Rightarrow> nat \<Rightarrow> u64 \<Rightarrow> shared_registry \<Rightarrow> shared_registry" where
  "store_at (MethodCall m l ok) p now r = on_method p (\<lambda>s. s\<lparr>last_access_ms := now\<rparr>) r"
| "store_at (NodeRequest a) p now r = on_node p (\<lambda>s. s\<lparr>ns_last_request_ms := now\<rparr>) r"

fun latency_of :: "reg_op \<Rightarrow> u64" where
  "latency_of (MethodCall m l ok) = l"
| "latency_of (NodeRequest a) = 0"

fun succeeds :: "reg_op \<Rightarrow> bool" where
  "succeeds (MethodCall m l ok) = ok"
| "succeeds (NodeRequest a) = False"

fun first_stamp :: "reg_op \<Rightarrow> after_stamp" where
  "first_stamp (MethodCall m l ok) = ThenLatency"
| "first_stamp (NodeRequest a) = ThenEnd"

fun advance :: "reg_op \<Rightarrow> record_phase \<Rightarrow> shared_registry \<Rightarrow> record_phase \<times> shared_registry" where
  "advance op Total r = (Outcome, r\<lparr>at_total := at_total r + 1\<rparr>)"
| "advance op Outcome r = (Tick, if succeeds op then r\<lparr>at_success := at_success r + 1\<rparr> else r\<lparr>at_failed := at_failed r + 1\<rparr>)"
| "advance op Tick r = (if at_cleanup r mod 1000 = 0 then SweepStamp else Entry, r\<lparr>at_cleanup := at_cleanup r + 1\<rparr>)"
| "advance op SweepStamp r = (case get_monotonic_timestamp (at_clock r) of (now, c) \<Rightarrow> (SweepMethods now, r\<lparr>at_clock := c\<rparr>))"
| "advance op (SweepMethods now) r = (let stamp = \<lambda>p. last_access_ms (method_store r ! p) in
     (SweepNodes now, r\<lparr>at_methods := evict_lru stamp (max_methods (at_config r))
        (retain_fresh stamp now (method_ttl_secs (at_config r) * 1000) (at_methods r))\<rparr>))"
| "advance op (SweepNodes now) r = (let stamp = \<lambda>p. ns_last_request_ms (node_store r ! p) in
     (Entry, r\<lparr>at_nodes := evict_lru stamp (max_nodes (at_config r))
        (retain_fresh stamp now (node_ttl_secs (at_config r) * 1000) (at_nodes r))\<rparr>))"
| "advance op Entry r = (case enter op r of (p, r) \<Rightarrow> (Count p, r))"
| "advance op (Count p) r = (Stamp p (first_stamp op), count_at op p r)"
| "advance op (Stamp p next) r = (case get_monotonic_timestamp (at_clock r) of (now, c) \<Rightarrow> (Store p now next, r\<lparr>at_clock := c\<rparr>))"
| "advance op (Store p now next) r = (after p next, store_at op p now r)"
| "advance op (BinCount p) r = (LatencySum p, on_method p (\<lambda>s. let h = latencies s; bin = latency_to_bin (latency_of op) in
     s\<lparr>latencies := h\<lparr>bins := (bins h)[bin := bins h ! bin + 1]\<rparr>\<rparr>) r)"
| "advance op (LatencySum p) r = (SampleCount p, on_method p (\<lambda>s. s\<lparr>latencies := (latencies s)
     \<lparr>total_latency := total_latency (latencies s) + latency_of op\<rparr>\<rparr>) r)"
| "advance op (SampleCount p) r = (Stamp p ThenResult, on_method p (\<lambda>s. s\<lparr>latencies := (latencies s)
     \<lparr>sample_count := sample_count (latencies s) + 1\<rparr>\<rparr>) r)"
| "advance op (Result p) r = (Stamp p ThenEnd, on_method p (\<lambda>s. if succeeds op then s\<lparr>success_count := success_count s + 1\<rparr>
     else s\<lparr>failure_count := failure_count s + 1\<rparr>) r)"
| "advance op (Finished p) r = (Finished p, r)"

fun finished :: "record_phase \<Rightarrow> bool" where
  "finished (Finished p) = True"
| "finished ph = False"

text \<open>The threads: each is one recording; a thread that records again is another one.\<close>

record registry_machine =
  shared_reg :: shared_registry
  recorders :: "(reg_op \<times> record_phase) list"

datatype record_label = Begin reg_op | Act nat

inductive record_step :: "registry_machine \<Rightarrow> record_label \<Rightarrow> registry_machine \<Rightarrow> bool" where
  begins: "record_step s (Begin op) (s\<lparr>recorders := recorders s @ [(op, first_phase op)]\<rparr>)"
| acts: "i < length (recorders s) \<Longrightarrow> recorders s ! i = (op, ph) \<Longrightarrow> \<not> finished ph \<Longrightarrow> advance op ph (shared_reg s) = (ph', r)
    \<Longrightarrow> record_step s (Act i) \<lparr>shared_reg = r, recorders = (recorders s)[i := (op, ph')]\<rparr>"

inductive_cases record_stepE: "record_step s l s'"

definition machine_new :: "instant \<Rightarrow> metrics_config \<Rightarrow> ts_clock \<Rightarrow> registry_machine" where
  "machine_new t cfg c = \<lparr>shared_reg = shared_new t cfg c, recorders = []\<rparr>"

section \<open>A recording alone\<close>

text \<open>What the shared registry is as the registry of \<open>Registry\<close>: the handles replaced by what is behind them.\<close>

definition view_methods :: "shared_registry \<Rightarrow> (string \<times> method_stats) list" where
  "view_methods r = map (\<lambda>(m, p). (m, method_store r ! p)) (at_methods r)"

definition view_nodes :: "shared_registry \<Rightarrow> (string \<times> node_stats) list" where
  "view_nodes r = map (\<lambda>(a, p). (a, node_store r ! p)) (at_nodes r)"

definition view :: "shared_registry \<Rightarrow> registry" where
  "view r = \<lparr>total_requests = at_total r, successful_requests = at_success r, failed_requests = at_failed r,
     active_connections = at_active r, mr_methods = view_methods r, mr_nodes = view_nodes r,
     mr_start_time = at_start r, mr_config = at_config r, cleanup_counter = at_cleanup r\<rparr>"

text \<open>The handles are in their stores, and no two entries share one.\<close>

definition handles_ok :: "nat \<Rightarrow> (string \<times> nat) list \<Rightarrow> bool" where
  "handles_ok n m \<longleftrightarrow> wf_map m \<and> distinct (map snd m) \<and> (\<forall>p \<in> snd ` set m. p < n)"

definition shared_ok :: "shared_registry \<Rightarrow> bool" where
  "shared_ok r \<longleftrightarrow> handles_ok (length (method_store r)) (at_methods r) \<and> handles_ok (length (node_store r)) (at_nodes r)"

primrec advance_n :: "nat \<Rightarrow> reg_op \<Rightarrow> record_phase \<times> shared_registry \<Rightarrow> record_phase \<times> shared_registry" where
  "advance_n 0 op x = x"
| "advance_n (Suc n) op x = advance_n n op (advance op (fst x) (snd x))"

lemma advance_n_add: "advance_n (k + n) op x = advance_n n op (advance_n k op x)"
  by (induction k arbitrary: x) simp_all

lemma advance_n_finished [simp]: "advance_n n op (Finished p, r) = (Finished p, r)"
  by (induction n) simp_all

definition through :: "('v \<Rightarrow> 'w) \<Rightarrow> (string \<times> 'v) list \<Rightarrow> (string \<times> 'w) list" where
  "through f m = map (\<lambda>(k, p). (k, f p)) m"

lemma through_simps [simp]: "through f [] = []" "through f ((k, p) # m) = (k, f p) # through f m"
  "keys (through f m) = keys m" "length (through f m) = length m"
  by (auto simp: through_def)

lemma map_of_through: "map_of (through f m) k = map_option f (map_of m k)"
  by (induction m) auto

lemma delete_through: "AList.delete k (through f m) = through f (AList.delete k m)"
  by (induction m) auto

lemma evict_through: "evict_lru stamp limit (through f m) = through f (evict_lru (\<lambda>p. stamp (f p)) limit m)"
proof -
  have "fold (\<lambda>(name, _) m. AList.delete name m) es (through f m) = through f (fold (\<lambda>(name, _) m. AList.delete name m) es m)"
    for es :: "(string \<times> u64) list" and m
    by (induction es arbitrary: m) (auto simp: delete_through)
  moreover have "map (\<lambda>(name, stats). (name, stamp stats)) (through f m) = map (\<lambda>(name, p). (name, stamp (f p))) m"
    by (auto simp: through_def)
  ultimately show ?thesis by (simp add: evict_lru_def Let_def)
qed

lemma retain_through: "retain_fresh stamp now ttl (through f m) = through f (retain_fresh (\<lambda>p. stamp (f p)) now ttl m)"
  by (induction m) (auto simp: retain_fresh_def)

lemma view_maps: "view_methods r = through (nth (method_store r)) (at_methods r)" "view_nodes r = through (nth (node_store r)) (at_nodes r)"
  by (simp_all add: view_methods_def view_nodes_def through_def)

lemma through_cong: "(\<And>p. p \<in> snd ` set m \<Longrightarrow> f p = g p) \<Longrightarrow> through f m = through g m"
  by (force simp: through_def)

lemma handles_tail:
  assumes "handles_ok n ((k, p) # m)"
  shows "handles_ok n m" "p \<notin> snd ` set m" "k \<notin> set (keys m)" "p < n"
  using assms by (simp_all add: handles_ok_def)

lemma update_through:
  assumes "handles_ok n m" "map_of m k = Some p" "p < length st"
  shows "through (nth (st[p := x])) m = AList.update k x (through (nth st) m)"
  using assms(1,2)
proof (induction m)
  case (Cons y m)
  obtain k' p' where y: "y = (k', p')" by (rule prod.exhaust)
  note tl = handles_tail [OF Cons.prems(1) [unfolded y]]
  show ?case
  proof (cases "k' = k")
    case True
    with Cons.prems y have p: "p' = p" by simp
    then have "through (nth (st[p := x])) m = through (nth st) m"
      using tl(2) by (intro through_cong) (auto simp: nth_list_update image_iff)
    with y True p assms(3) show ?thesis by simp
  next
    case False
    with Cons.prems y have m: "map_of m k = Some p" by simp
    then have "p' \<noteq> p" using tl(2) map_of_SomeD by force
    with y False Cons.IH [OF tl(1) m] show ?thesis by simp
  qed
qed simp

lemma insert_through:
  assumes "\<forall>p \<in> snd ` set m. p < length st" "map_of m k = None"
  shows "through (nth (st @ [x])) (AList.update k (length st) m) = AList.update k x (through (nth st) m)"
  using assms by (induction m) (auto simp: nth_append)

lemma handles_filter: "handles_ok n m \<Longrightarrow> handles_ok n (filter P m)"
  by (auto simp: handles_ok_def distinct_map_filter)

lemma handles_insert:
  assumes "handles_ok n m" "map_of m k = None"
  shows "handles_ok (Suc n) (AList.update k n m)"
proof -
  have "AList.update k n m = m @ [(k, n)]" using assms(2) by (induction m) (auto split: if_splits)
  with assms show ?thesis by (auto simp: handles_ok_def map_of_eq_None_iff)
qed

lemma shared_ok_simps [simp]:
  "shared_ok (r\<lparr>at_clock := c\<rparr>) = shared_ok r" "shared_ok (r\<lparr>at_total := n\<rparr>) = shared_ok r" "shared_ok (r\<lparr>at_success := n\<rparr>) = shared_ok r"
  "shared_ok (r\<lparr>at_failed := n\<rparr>) = shared_ok r" "shared_ok (r\<lparr>at_cleanup := n\<rparr>) = shared_ok r"
  "shared_ok (on_method p f r) = shared_ok r" "shared_ok (on_node p g r) = shared_ok r"
  by (simp_all add: shared_ok_def on_method_def on_node_def)

lemma on_method_simps [simp]:
  "at_clock (on_method p f r) = at_clock r" "on_method p f (r\<lparr>at_clock := c\<rparr>) = (on_method p f r)\<lparr>at_clock := c\<rparr>"
  "p < length (method_store r) \<Longrightarrow> on_method p f (on_method p g r) = on_method p (\<lambda>s. f (g s)) r"
  "length (method_store (on_method p f r)) = length (method_store r)"
  "at_clock (on_node p h r) = at_clock r" "on_node p h (r\<lparr>at_clock := c\<rparr>) = (on_node p h r)\<lparr>at_clock := c\<rparr>"
  "p < length (node_store r) \<Longrightarrow> on_node p h (on_node p k r) = on_node p (\<lambda>s. h (k s)) r"
  "length (node_store (on_node p h r)) = length (node_store r)"
  by (simp_all add: on_method_def on_node_def)

lemma view_clock [simp]: "view (r\<lparr>at_clock := c\<rparr>) = view r"
  by (simp add: view_def view_methods_def view_nodes_def)

lemma view_on_method:
  assumes "shared_ok r" "map_of (at_methods r) m = Some p"
  shows "view (on_method p f r) = (view r)\<lparr>mr_methods := AList.update m (f (method_store r ! p)) (mr_methods (view r))\<rparr>"
proof -
  have h: "handles_ok (length (method_store r)) (at_methods r)" using assms(1) by (simp add: shared_ok_def)
  then have "p < length (method_store r)" using assms(2) map_of_SomeD by (force simp: handles_ok_def)
  from update_through [OF h assms(2) this] show ?thesis
    by (simp add: view_def view_maps on_method_def shared_ok_def)
qed

lemma view_on_node:
  assumes "shared_ok r" "map_of (at_nodes r) a = Some p"
  shows "view (on_node p f r) = (view r)\<lparr>mr_nodes := AList.update a (f (node_store r ! p)) (mr_nodes (view r))\<rparr>"
proof -
  have h: "handles_ok (length (node_store r)) (at_nodes r)" using assms(1) by (simp add: shared_ok_def)
  then have "p < length (node_store r)" using assms(2) map_of_SomeD by (force simp: handles_ok_def)
  from update_through [OF h assms(2) this] show ?thesis
    by (simp add: view_def view_maps on_node_def shared_ok_def)
qed

lemma tick_alone:
  assumes "shared_ok r"
  obtains n r' where "n \<le> 4" "advance_n n op (Tick, r) = (Entry, r')" "shared_ok r'"
    "(view r', at_clock r') = maybe_cleanup (view r) (at_clock r)"
proof (cases "at_cleanup r mod 1000 = 0")
  case True
  obtain now c where ts: "get_monotonic_timestamp (at_clock r) = (now, c)" by (rule prod.exhaust)
  let ?r = "snd (advance_n 4 op (Tick, r))"
  show thesis
  proof (rule that [of 4 ?r])
    show "advance_n 4 op (Tick, r) = (Entry, ?r)" using True ts by (simp add: numeral_eq_Suc Let_def)
    show "shared_ok ?r" using True ts assms
      by (simp add: numeral_eq_Suc Let_def shared_ok_def evict_lru_filter retain_fresh_def handles_filter)
    show "(view ?r, at_clock ?r) = maybe_cleanup (view r) (at_clock r)"
      using True ts by (simp add: numeral_eq_Suc Let_def maybe_cleanup_def cleanup_stale_entries_def view_def view_maps
          retain_through evict_through)
  qed simp
next
  case False
  then show thesis using assms
    by (intro that [of 1 "r\<lparr>at_cleanup := at_cleanup r + 1\<rparr>"]) (simp_all add: maybe_cleanup_def view_def view_maps)
qed

lemma entry_method:
  assumes "shared_ok r" "enter (MethodCall m l ok) r = (p, r')"
  shows "shared_ok r' \<and> map_of (at_methods r') m = Some p \<and> p < length (method_store r')
    \<and> (case map_of (mr_methods (view r)) m of Some s \<Rightarrow> (s, at_clock r) | None \<Rightarrow> method_stats_new (at_clock r))
        = (method_store r' ! p, at_clock r')
    \<and> view r' = (view r)\<lparr>mr_methods := mr_methods (view r')\<rparr>
    \<and> AList.update m s (mr_methods (view r')) = AList.update m s (mr_methods (view r))"
proof (cases "map_of (at_methods r) m")
  case None
  obtain st c where new: "method_stats_new (at_clock r) = (st, c)" by (rule prod.exhaust)
  have h: "handles_ok (length (method_store r)) (at_methods r)" "\<forall>p \<in> snd ` set (at_methods r). p < length (method_store r)"
    using assms(1) by (simp_all add: shared_ok_def handles_ok_def)
  have r: "p = length (method_store r)" "r' = r\<lparr>at_methods := AList.update m p (at_methods r),
      method_store := method_store r @ [st], at_clock := c\<rparr>" using assms(2) None new by auto
  from insert_through [OF h(2) None] handles_insert [OF h(1) None] None new assms(1) show ?thesis
    by (simp add: r view_def view_maps shared_ok_def map_of_through update_conv')
next
  case (Some q)
  then have "q < length (method_store r)" using assms(1) map_of_SomeD by (force simp: shared_ok_def handles_ok_def)
  with Some assms show ?thesis by (auto simp: view_def view_maps map_of_through)
qed

definition recorded :: "u64 \<Rightarrow> bool \<Rightarrow> method_stats \<times> ts_clock \<Rightarrow> method_stats \<times> ts_clock" where
  "recorded l ok x = (case x of (s, c) \<Rightarrow> (case stats_increment_call s c of (s, c) \<Rightarrow> (case record_latency l s c of (s, c) \<Rightarrow>
     if ok then stats_increment_success s c else stats_increment_failure s c)))"

lemma record_method_call_recorded:
  "record_method_call m l ok r c =
     (case maybe_cleanup (if ok then increment_success (increment_total r) else increment_failure (increment_total r)) c of (r, c) \<Rightarrow>
      case recorded l ok (case map_of (mr_methods r) m of Some s \<Rightarrow> (s, c) | None \<Rightarrow> method_stats_new c) of
        (s, c) \<Rightarrow> (r\<lparr>mr_methods := AList.update m s (mr_methods r)\<rparr>, c))"
  by (simp add: record_method_call_def recorded_def Let_def split: prod.split)

lemma method_alone:
  assumes "shared_ok r" "map_of (at_methods r) m = Some p" "p < length (method_store r)"
  shows "\<exists>r' s. advance_n 11 (MethodCall m l ok) (Count p, r) = (Finished p, r') \<and> shared_ok r'
    \<and> recorded l ok (method_store r ! p, at_clock r) = (s, at_clock r')
    \<and> view r' = (view r)\<lparr>mr_methods := AList.update m s (mr_methods (view r))\<rparr>"
proof -
  obtain t1 c1 t2 c2 t3 c3 where ts: "get_monotonic_timestamp (at_clock r) = (t1, c1)"
    "get_monotonic_timestamp c1 = (t2, c2)" "get_monotonic_timestamp c2 = (t3, c3)" by (meson prod.exhaust)
  let ?s = "method_store r ! p" and ?f = "\<lambda>s. counted l ok t3 s"
  have "recorded l ok (?s, at_clock r) = (?f ?s, c3)"
    by (cases ok; cases ?s) (simp_all add: recorded_def stats_steps counted_def ts)
  moreover have "advance_n 11 (MethodCall m l ok) (Count p, r) = (Finished p, (on_method p ?f r)\<lparr>at_clock := c3\<rparr>)"
    using assms(3) by (cases ok; cases ?s)
      (simp_all add: numeral_eq_Suc ts on_method_def counted_def hist_record_def Let_def)
  ultimately show ?thesis using assms(1) view_on_method [OF assms(1,2), of ?f]
    by (intro exI [of _ "(on_method p ?f r)\<lparr>at_clock := c3\<rparr>"] exI [of _ "?f ?s"]) simp
qed

lemma node_alone:
  assumes "shared_ok r" "map_of (at_nodes r) a = Some p" "p < length (node_store r)"
  obtains r' where "advance_n 3 (NodeRequest a) (Count p, r) = (Finished p, r')" "shared_ok r'"
    "view r' = (view r)\<lparr>mr_nodes := AList.update a (fst (record_request (node_store r ! p) (at_clock r))) (mr_nodes (view r))\<rparr>"
    "at_clock r' = snd (record_request (node_store r ! p) (at_clock r))"
proof -
  obtain t1 c1 where ts: "get_monotonic_timestamp (at_clock r) = (t1, c1)" by (rule prod.exhaust)
  let ?f = "\<lambda>s. s\<lparr>ns_request_count := ns_request_count s + 1, ns_last_request_ms := t1\<rparr>"
  have run: "advance_n 3 (NodeRequest a) (Count p, r) = (Finished p, (on_node p ?f r)\<lparr>at_clock := c1\<rparr>)"
    using assms(3) by (simp add: numeral_eq_Suc ts)
  show thesis
    by (rule that [OF run]) (use assms view_on_node [OF assms(1,2), of ?f] in \<open>simp_all add: record_request_def ts\<close>)
qed

lemma entry_node:
  assumes "shared_ok r" "enter (NodeRequest a) r = (p, r')"
  shows "shared_ok r' \<and> map_of (at_nodes r') a = Some p \<and> p < length (node_store r') \<and> at_clock r' = at_clock r
    \<and> (case map_of (mr_nodes (view r)) a of Some s \<Rightarrow> s | None \<Rightarrow> node_stats_new) = node_store r' ! p
    \<and> view r' = (view r)\<lparr>mr_nodes := mr_nodes (view r')\<rparr>
    \<and> AList.update a s (mr_nodes (view r')) = AList.update a s (mr_nodes (view r))"
proof (cases "map_of (at_nodes r) a")
  case None
  have h: "handles_ok (length (node_store r)) (at_nodes r)" "\<forall>p \<in> snd ` set (at_nodes r). p < length (node_store r)"
    using assms(1) by (simp_all add: shared_ok_def handles_ok_def)
  have r: "p = length (node_store r)" "r' = r\<lparr>at_nodes := AList.update a p (at_nodes r),
      node_store := node_store r @ [node_stats_new]\<rparr>" using assms(2) None by auto
  from insert_through [OF h(2) None] handles_insert [OF h(1) None] None assms(1) show ?thesis
    by (simp add: r view_def view_maps shared_ok_def map_of_through update_conv')
next
  case (Some q)
  then have "q < length (node_store r)" using assms(1) map_of_SomeD by (force simp: shared_ok_def handles_ok_def)
  with Some assms show ?thesis by (auto simp: view_def view_maps map_of_through)
qed

text \<open>A recording that nothing interrupts is the function of \<open>Registry\<close>.\<close>

lemma recording_alone:
  assumes "shared_ok r"
  shows "\<exists>n \<le> 18. \<exists>p r'. advance_n n op (first_phase op, r) = (Finished p, r') \<and> shared_ok r'
    \<and> (view r', at_clock r') = reg_exec op (view r, at_clock r)"
proof (cases op)
  case (MethodCall m l ok)
  let ?r0 = "snd (advance_n 2 op (Total, r))"
  have r0: "advance_n 2 op (Total, r) = (Tick, ?r0)" "shared_ok ?r0" "at_clock ?r0 = at_clock r"
    "view ?r0 = (if ok then increment_success (increment_total (view r)) else increment_failure (increment_total (view r)))"
    using assms MethodCall by (simp_all add: numeral_eq_Suc view_def view_maps increment_total_def increment_success_def increment_failure_def)
  obtain k r1 where k: "k \<le> 4" "advance_n k op (Tick, ?r0) = (Entry, r1)" "shared_ok r1"
    "(view r1, at_clock r1) = maybe_cleanup (view ?r0) (at_clock ?r0)" using tick_alone [OF r0(2)] .
  obtain p r2 where p: "enter op r1 = (p, r2)" by (rule prod.exhaust)
  note e = entry_method [OF k(3) p [unfolded MethodCall]]
  from method_alone [of r2 m p l ok] e obtain r3 s where r3: "advance_n 11 op (Count p, r2) = (Finished p, r3)" "shared_ok r3"
    "recorded l ok (method_store r2 ! p, at_clock r2) = (s, at_clock r3)"
    "view r3 = (view r2)\<lparr>mr_methods := AList.update m s (mr_methods (view r2))\<rparr>" unfolding MethodCall by blast
  have "advance_n (2 + (k + (1 + 11))) op (first_phase op, r) = (Finished p, r3)"
    using MethodCall r0(1) k(2) p r3(1) by (simp only: advance_n_add first_phase.simps) simp
  moreover have "(view r3, at_clock r3) = reg_exec op (view r, at_clock r)"
  proof -
    have c: "maybe_cleanup (if ok then increment_success (increment_total (view r)) else increment_failure (increment_total (view r)))
        (at_clock r) = (view r1, at_clock r1)" using k(4) r0(3,4) by simp
    obtain ms where ms: "view r2 = (view r1)\<lparr>mr_methods := ms\<rparr>" "ms = mr_methods (view r2)" using e by blast
    have u: "AList.update m x ms = AList.update m x (mr_methods (view r1))" for x using e ms(2) by blast
    have v: "view r3 = (view r1)\<lparr>mr_methods := AList.update m s (mr_methods (view r1))\<rparr>"
      using r3(4) unfolding ms(1) by (simp add: u)
    show ?thesis using e r3(3) by (simp add: MethodCall record_method_call_recorded c v)
  qed
  ultimately show ?thesis using k(1) r3(2) by (intro exI [of _ "2 + (k + (1 + 11))"]) auto
next
  case (NodeRequest a)
  obtain k r1 where k: "k \<le> 4" "advance_n k op (Tick, r) = (Entry, r1)" "shared_ok r1"
    "(view r1, at_clock r1) = maybe_cleanup (view r) (at_clock r)" using tick_alone [OF assms] .
  obtain p r2 where p: "enter op r1 = (p, r2)" by (rule prod.exhaust)
  note e = entry_node [OF k(3) p [unfolded NodeRequest]]
  obtain r3 where r3: "advance_n 3 op (Count p, r2) = (Finished p, r3)" "shared_ok r3"
    "view r3 = (view r2)\<lparr>mr_nodes := AList.update a (fst (record_request (node_store r2 ! p) (at_clock r2))) (mr_nodes (view r2))\<rparr>"
    "at_clock r3 = snd (record_request (node_store r2 ! p) (at_clock r2))"
    using node_alone [of r2 a p] e NodeRequest by metis
  have "advance_n (k + (1 + 3)) op (first_phase op, r) = (Finished p, r3)"
    using NodeRequest k(2) p r3(1) by (simp only: advance_n_add first_phase.simps) simp
  moreover have "(view r3, at_clock r3) = reg_exec op (view r, at_clock r)"
  proof -
    obtain ms where ms: "view r2 = (view r1)\<lparr>mr_nodes := ms\<rparr>" "ms = mr_nodes (view r2)" using e by blast
    have u: "AList.update a x ms = AList.update a x (mr_nodes (view r1))" for x using e ms(2) by blast
    have v: "view r3 = (view r1)\<lparr>mr_nodes := AList.update a (fst (record_request (node_store r2 ! p) (at_clock r2))) (mr_nodes (view r1))\<rparr>"
      using r3(3) unfolding ms(1) by (simp add: u)
    show ?thesis using e k(4) r3(4) by (simp add: NodeRequest record_node_request_def Let_def v split_beta flip: k(4))
  qed
  ultimately show ?thesis using k(1) r3(2) by (intro exI [of _ "k + (1 + 3)"]) auto
qed

section \<open>What the threads have done\<close>

fun rank :: "record_phase \<Rightarrow> nat" where
  "rank Total = 0" | "rank Outcome = 1" | "rank Tick = 2"
| "rank SweepStamp = 3" | "rank (SweepMethods now) = 4" | "rank (SweepNodes now) = 5" | "rank Entry = 6"
| "rank (Count p) = 7"
| "rank (Stamp p next) = (case next of ThenLatency \<Rightarrow> 8 | ThenResult \<Rightarrow> 13 | ThenEnd \<Rightarrow> 16)"
| "rank (Store p now next) = (case next of ThenLatency \<Rightarrow> 9 | ThenResult \<Rightarrow> 14 | ThenEnd \<Rightarrow> 17)"
| "rank (BinCount p) = 10" | "rank (LatencySum p) = 11" | "rank (SampleCount p) = 12" | "rank (Result p) = 15"
| "rank (Finished p) = 18"

fun handle :: "record_phase \<Rightarrow> nat option" where
  "handle (Count p) = Some p" | "handle (Stamp p next) = Some p" | "handle (Store p now next) = Some p"
| "handle (BinCount p) = Some p" | "handle (LatencySum p) = Some p" | "handle (SampleCount p) = Some p"
| "handle (Result p) = Some p" | "handle (Finished p) = Some p"
| "handle ph = None"

fun is_call :: "reg_op \<Rightarrow> bool" where
  "is_call (MethodCall m l ok) = True"
| "is_call (NodeRequest a) = False"

text \<open>A request to a node takes the steps without a latency only.\<close>

fun node_phase :: "record_phase \<Rightarrow> bool" where
  "node_phase (Stamp p next) = (next = ThenEnd)"
| "node_phase (Store p now next) = (next = ThenEnd)"
| "node_phase ph = (rank ph \<in> {2, 3, 4, 5, 6, 7, 18})"

definition valid :: "shared_registry \<Rightarrow> reg_op \<times> record_phase \<Rightarrow> bool" where
  "valid r th \<longleftrightarrow> (case handle (snd th) of None \<Rightarrow> True
     | Some p \<Rightarrow> p < (if is_call (fst th) then length (method_store r) else length (node_store r)))
     \<and> (is_call (fst th) \<or> node_phase (snd th))"

lemma after_simps [simp]:
  "handle (after p next) = Some p" "rank (after p next) = (case next of ThenLatency \<Rightarrow> 10 | ThenResult \<Rightarrow> 15 | ThenEnd \<Rightarrow> 18)"
  "next = ThenEnd \<Longrightarrow> node_phase (after p next)"
  by (cases "next", simp_all)+

lemma at_stores [simp]:
  "length (method_store (count_at op p r)) = length (method_store r)" "length (node_store (count_at op p r)) = length (node_store r)"
  "length (method_store (store_at op p now r)) = length (method_store r)" "length (node_store (store_at op p now r)) = length (node_store r)"
  "length (method_store (on_method p f r)) = length (method_store r)" "length (node_store (on_method p f r)) = length (node_store r)"
  "length (method_store (on_node p h r)) = length (method_store r)"
  by (cases op, simp_all add: on_method_def on_node_def)+

lemma enter_grows:
  "enter op r = (p, r') \<Longrightarrow> length (method_store r) \<le> length (method_store r') \<and> length (node_store r) \<le> length (node_store r')"
  by (cases op) (auto split: option.splits prod.splits)

lemma stores_grow:
  assumes "advance op ph r = (ph', r')"
  shows "length (method_store r) \<le> length (method_store r') \<and> length (node_store r) \<le> length (node_store r')"
proof (cases ph)
  case Entry
  obtain p r1 where "enter op r = (p, r1)" by (rule prod.exhaust)
  with assms Entry enter_grows [OF this] show ?thesis by simp
qed (use assms in \<open>auto simp: Let_def split: prod.splits if_splits\<close>)

lemma valid_mono:
  "valid r th \<Longrightarrow> length (method_store r) \<le> length (method_store r') \<Longrightarrow> length (node_store r) \<le> length (node_store r') \<Longrightarrow> valid r' th"
  by (auto simp: valid_def split: option.splits if_splits)

lemma first_valid: "valid r (op, first_phase op)"
  by (cases op) (simp_all add: valid_def)

lemma enter_ok:
  assumes "shared_ok r" "enter op r = (p, r')"
  shows "shared_ok r' \<and> p < (if is_call op then length (method_store r') else length (node_store r'))"
proof (cases op)
  case (MethodCall m l ok)
  with entry_method [OF assms(1), of m l ok p r'] assms(2) show ?thesis by simp
next
  case (NodeRequest a)
  with entry_node [OF assms(1), of a p r'] assms(2) show ?thesis by simp
qed

lemma advance_ok:
  assumes "shared_ok r" "advance op ph r = (ph', r')"
  shows "shared_ok r'"
proof (cases ph)
  case Entry
  with assms enter_ok [OF assms(1), of op] show ?thesis by (auto split: prod.splits)
next
  case (SweepMethods now)
  with assms show ?thesis by (auto simp: Let_def shared_ok_def evict_lru_filter retain_fresh_def handles_filter)
next
  case (SweepNodes now)
  with assms show ?thesis by (auto simp: Let_def shared_ok_def evict_lru_filter retain_fresh_def handles_filter)
qed (use assms in \<open>cases op; auto split: prod.splits if_splits\<close>)+

lemma advance_valid:
  assumes "shared_ok r" "valid r (op, ph)" "advance op ph r = (ph', r')"
  shows "valid r' (op, ph')"
proof (cases ph)
  case Entry
  with assms enter_ok [OF assms(1), of op] show ?thesis by (auto simp: valid_def split: prod.splits)
qed (use assms in \<open>cases op; auto simp: valid_def Let_def split: prod.splits if_splits\<close>)+

definition machine_ok :: "registry_machine \<Rightarrow> bool" where
  "machine_ok s \<longleftrightarrow> shared_ok (shared_reg s) \<and> (\<forall>th \<in> set (recorders s). valid (shared_reg s) th)"

lemma machine_okD: "machine_ok s \<Longrightarrow> i < length (recorders s) \<Longrightarrow> recorders s ! i = th \<Longrightarrow> valid (shared_reg s) th"
  using nth_mem by (fastforce simp: machine_ok_def)

lemma machine_ok_step: "machine_ok s \<Longrightarrow> record_step s l s' \<Longrightarrow> machine_ok s'"
proof (erule record_stepE)
  fix i op ph ph' r
  assume ok: "machine_ok s" and i: "i < length (recorders s)" "recorders s ! i = (op, ph)" and a: "advance op ph (shared_reg s) = (ph', r)"
    and s': "s' = \<lparr>shared_reg = r, recorders = (recorders s)[i := (op, ph')]\<rparr>"
  have "shared_ok (shared_reg s)" using ok by (simp add: machine_ok_def)
  moreover have "valid r th" if "th \<in> set (recorders s)" for th
    using ok that stores_grow [OF a] valid_mono [of "shared_reg s" th r] by (auto simp: machine_ok_def)
  ultimately show "machine_ok s'"
    using advance_ok [OF _ a] advance_valid [OF _ machine_okD [OF ok i] a] set_update_subset_insert
    by (fastforce simp: machine_ok_def s')
qed (auto simp: machine_ok_def first_valid)

interpretation machine: invariant_system record_step machine_ok
  by standard (rule machine_ok_step)

lemma machine_new_ok: "machine_ok (machine_new t cfg c)"
  by (simp add: machine_ok_def machine_new_def shared_new_def shared_ok_def handles_ok_def)

text \<open>
  A tally: a counter of the shared state, and what a thread has contributed to it so far. When every
  step moves the counter by as much as the contribution of its thread, the counter is the sum of the
  contributions, whatever the interleaving.
\<close>

locale tally =
  fixes reads :: "shared_registry \<Rightarrow> u64" and part :: "reg_op \<times> record_phase \<Rightarrow> u64"
  assumes fresh: "part (op, first_phase op) = 0"
    and counts: "shared_ok r \<Longrightarrow> valid r (op, ph) \<Longrightarrow> advance op ph r = (ph', r') \<Longrightarrow> reads r' + part (op, ph) = reads r + part (op, ph')"
begin

lemma sum_replaced:
  "i < length xs \<Longrightarrow> sum_list (map part (xs[i := y])) + part (xs ! i) = sum_list (map part xs) + part y"
  by (induction xs arbitrary: i) (auto simp: algebra_simps split: nat.split)

lemma sum_step:
  assumes "machine_ok s" "record_step s l s'" "reads (shared_reg s) = sum_list (map part (recorders s))"
  shows "reads (shared_reg s') = sum_list (map part (recorders s'))"
  using assms(2)
proof cases
  case (begins op)
  with assms(3) show ?thesis by (simp add: fresh)
next
  case (acts i op ph ph' r)
  have "shared_ok (shared_reg s)" using assms(1) by (simp add: machine_ok_def)
  from counts [OF this machine_okD [OF assms(1) acts(3,4)] acts(6)] sum_replaced [OF acts(3), of "(op, ph')"] acts(4) assms(3)
  have "reads r + part (op, ph) = sum_list (map part ((recorders s)[i := (op, ph')])) + part (op, ph)" by simp
  with acts(2) show ?thesis by simp
qed

lemma sum_run:
  "steps record_step s ls s' \<Longrightarrow> machine_ok s \<Longrightarrow> reads (shared_reg s) = sum_list (map part (recorders s))
   \<Longrightarrow> reads (shared_reg s') = sum_list (map part (recorders s'))"
  by (induction rule: steps.induct) (blast intro: sum_step machine_ok_step)+

end

section \<open>The tallies\<close>

text \<open>The counters of the whole registry.\<close>

fun total_part :: "reg_op \<times> record_phase \<Rightarrow> u64" where
  "total_part (op, ph) = of_bool (is_call op \<and> 0 < rank ph)"

fun outcome_part :: "bool \<Rightarrow> reg_op \<times> record_phase \<Rightarrow> u64" where
  "outcome_part ok (op, ph) = of_bool (is_call op \<and> succeeds op = ok \<and> 1 < rank ph)"

lemma globals_step:
  assumes "advance op ph r = (ph', r')" "is_call op \<or> node_phase ph"
  shows "at_total r' + total_part (op, ph) = at_total r + total_part (op, ph')
    \<and> at_success r' + outcome_part True (op, ph) = at_success r + outcome_part True (op, ph')
    \<and> at_failed r' + outcome_part False (op, ph) = at_failed r + outcome_part False (op, ph')"
proof (cases ph)
  case Entry
  have "at_total (snd (enter op r)) = at_total r \<and> at_success (snd (enter op r)) = at_success r \<and> at_failed (snd (enter op r)) = at_failed r"
    by (cases op) (auto split: option.split prod.split)
  with Entry assms show ?thesis by (auto split: prod.splits)
next
  case (Count p)
  with assms show ?thesis by (cases op) (auto simp: on_method_def on_node_def)
next
  case (Store p now next')
  with assms show ?thesis by (cases op; cases next') (auto simp: on_method_def on_node_def)
next
  case (Stamp p next')
  with assms show ?thesis by (cases next') (auto split: prod.splits)
qed (use assms in \<open>auto simp: Let_def on_method_def split: prod.splits if_splits\<close>)

interpretation total: tally at_total total_part
proof
  show "total_part (op, first_phase op) = 0" for op by (cases op) simp_all
qed (use globals_step in \<open>simp add: valid_def\<close>)

interpretation success: tally at_success "outcome_part True"
proof
  show "outcome_part True (op, first_phase op) = 0" for op by (cases op) simp_all
qed (use globals_step in \<open>simp add: valid_def\<close>)

interpretation failed: tally at_failed "outcome_part False"
proof
  show "outcome_part False (op, first_phase op) = 0" for op by (cases op) simp_all
qed (use globals_step in \<open>simp add: valid_def\<close>)

text \<open>
  The statistics behind a handle: how far a thread that has this handle is with them. \<open>behind\<close> is zero
  before the handle exists, as new statistics are.
\<close>

definition behind :: "('s \<Rightarrow> u64) \<Rightarrow> nat \<Rightarrow> 's list \<Rightarrow> u64" where
  "behind field p store = (if p < length store then field (store ! p) else 0)"

fun method_part :: "(reg_op \<Rightarrow> u64) \<Rightarrow> nat \<Rightarrow> nat \<Rightarrow> reg_op \<times> record_phase \<Rightarrow> u64" where
  "method_part amount k p (op, ph) = (if is_call op \<and> handle ph = Some p \<and> k < rank ph then amount op else 0)"

lemma own_handle:
  assumes "is_call op" "handle ph = Some q" "\<not> finished ph"
  shows "handle (fst (advance op ph r)) = Some q \<and> rank (fst (advance op ph r)) = Suc (rank ph)
    \<and> length (method_store (snd (advance op ph r))) = length (method_store r)
    \<and> (p \<noteq> q \<longrightarrow> method_store (snd (advance op ph r)) ! p = method_store r ! p)"
  using assms by (cases op; cases ph) (auto simp: on_method_def split: prod.split after_stamp.split)

lemma no_handle:
  assumes "handle ph = None" "advance op ph r = (ph', r')"
  shows "rank ph' \<le> 7 \<and> (method_store r' = method_store r \<or> (\<exists>c. method_store r' = method_store r @ [fst (method_stats_new c)]))"
proof (cases ph)
  case Entry
  have "method_store (snd (enter op r)) = method_store r \<or> (\<exists>c. method_store (snd (enter op r)) = method_store r @ [fst (method_stats_new c)])"
    by (cases op) (auto split: option.split prod.split, metis fst_conv)
  with Entry assms show ?thesis by (auto split: prod.splits)
qed (use assms in \<open>auto simp: Let_def split: prod.splits if_splits\<close>)

lemma node_leaves_methods:
  assumes "\<not> is_call op" "node_phase ph"
  shows "method_store (snd (advance op ph r)) = method_store r"
  using assms by (cases op; cases ph) (auto simp: on_node_def Let_def split: prod.split option.split)

text \<open>
  A field of the statistics that one step of a recording adds to, and the others leave alone: the step
  at rank \<open>k\<close> adds \<open>amount\<close>.
\<close>

locale method_field =
  fixes field :: "method_stats \<Rightarrow> u64" and k :: nat and amount :: "reg_op \<Rightarrow> u64"
  assumes field_new: "field (fst (method_stats_new c)) = 0"
    and field_step: "\<And>op ph p r. is_call op \<Longrightarrow> handle ph = Some p \<Longrightarrow> \<not> finished ph \<Longrightarrow> p < length (method_store r)
      \<Longrightarrow> field (method_store (snd (advance op ph r)) ! p) = field (method_store r ! p) + (if rank ph = k then amount op else 0)"
    and late: "7 \<le> k" "k < 18"
begin

lemma field_tally: "tally (\<lambda>r. behind field p (method_store r)) (method_part amount k p)"
proof
  fix op show "method_part amount k p (op, first_phase op) = 0" by (cases op) simp_all
next
  fix r op ph ph' r'
  assume ok: "shared_ok r" "valid r (op, ph)" "advance op ph r = (ph', r')"
  show "behind field p (method_store r') + method_part amount k p (op, ph) = behind field p (method_store r) + method_part amount k p (op, ph')"
  proof (cases "is_call op")
    case False
    with ok have "method_store r' = method_store r" using node_leaves_methods [OF False, of ph r] by (simp add: valid_def)
    with False show ?thesis by simp
  next
    case call: True
    show ?thesis
    proof (cases "handle ph")
      case None
      from no_handle [OF this ok(3)] late(1) field_new None show ?thesis
        by (auto simp: behind_def nth_append)
    next
      case (Some q)
      show ?thesis
      proof (cases "finished ph")
        case True
        with ok(3) show ?thesis by (cases ph) auto
      next
        case unfinished: False
        have q: "q < length (method_store r)" using ok(2) call Some by (simp add: valid_def)
        note own = own_handle [OF call Some unfinished, of r p]
        show ?thesis
          using own field_step [OF call Some unfinished q] q ok(3) call Some
          by (cases "p = q") (auto simp: behind_def)
      qed
    qed
  qed
qed

end

interpretation calls: method_field call_count 7 "\<lambda>_. 1"
proof
  fix op ph p and r :: shared_registry
  assume "is_call op" "handle ph = Some p" "\<not> finished ph" "p < length (method_store r)"
  then show "call_count (method_store (snd (advance op ph r)) ! p) = call_count (method_store r ! p) + (if rank ph = 7 then 1 else 0)"
    by (cases op; cases ph) (auto simp: on_method_def Let_def split: prod.split after_stamp.split)
qed (simp_all add: method_stats_new_def split_beta)

interpretation successes: method_field success_count 15 "\<lambda>op. of_bool (succeeds op)"
proof
  fix op ph p and r :: shared_registry
  assume "is_call op" "handle ph = Some p" "\<not> finished ph" "p < length (method_store r)"
  then show "success_count (method_store (snd (advance op ph r)) ! p)
      = success_count (method_store r ! p) + (if rank ph = 15 then of_bool (succeeds op) else 0)"
    by (cases op; cases ph) (auto simp: on_method_def Let_def split: prod.split after_stamp.split)
qed (simp_all add: method_stats_new_def split_beta)

interpretation failures: method_field failure_count 15 "\<lambda>op. of_bool (\<not> succeeds op)"
proof
  fix op ph p and r :: shared_registry
  assume "is_call op" "handle ph = Some p" "\<not> finished ph" "p < length (method_store r)"
  then show "failure_count (method_store (snd (advance op ph r)) ! p)
      = failure_count (method_store r ! p) + (if rank ph = 15 then of_bool (\<not> succeeds op) else 0)"
    by (cases op; cases ph) (auto simp: on_method_def Let_def split: prod.split after_stamp.split)
qed (simp_all add: method_stats_new_def split_beta)

interpretation latency_sums: method_field "\<lambda>s. total_latency (latencies s)" 11 latency_of
proof
  fix op ph p and r :: shared_registry
  assume "is_call op" "handle ph = Some p" "\<not> finished ph" "p < length (method_store r)"
  then show "total_latency (latencies (method_store (snd (advance op ph r)) ! p))
      = total_latency (latencies (method_store r ! p)) + (if rank ph = 11 then latency_of op else 0)"
    by (cases op; cases ph) (auto simp: on_method_def Let_def split: prod.split after_stamp.split)
qed (simp_all add: method_stats_new_def hist_new_def split_beta)

interpretation samples: method_field "\<lambda>s. sample_count (latencies s)" 12 "\<lambda>_. 1"
proof
  fix op ph p and r :: shared_registry
  assume "is_call op" "handle ph = Some p" "\<not> finished ph" "p < length (method_store r)"
  then show "sample_count (latencies (method_store (snd (advance op ph r)) ! p))
      = sample_count (latencies (method_store r ! p)) + (if rank ph = 12 then 1 else 0)"
    by (cases op; cases ph) (auto simp: on_method_def Let_def split: prod.split after_stamp.split)
qed (simp_all add: method_stats_new_def hist_new_def split_beta)

section \<open>Whose statistics a thread has\<close>

text \<open>\<open>own\<close> and \<open>nown\<close> tell for which method or node the statistics behind a handle were created.\<close>

fun named :: "(nat \<Rightarrow> string) \<Rightarrow> (nat \<Rightarrow> string) \<Rightarrow> reg_op \<Rightarrow> nat \<Rightarrow> bool" where
  "named own nown (MethodCall m l ok) p = (own p = m)"
| "named own nown (NodeRequest a) p = (nown p = a)"

definition names_ok :: "(nat \<Rightarrow> string) \<Rightarrow> (nat \<Rightarrow> string) \<Rightarrow> registry_machine \<Rightarrow> bool" where
  "names_ok own nown s \<longleftrightarrow> (\<forall>(m, p) \<in> set (at_methods (shared_reg s)). own p = m) \<and> (\<forall>(a, p) \<in> set (at_nodes (shared_reg s)). nown p = a)
     \<and> (\<forall>th \<in> set (recorders s). \<forall>p. handle (snd th) = Some p \<longrightarrow> named own nown (fst th) p)"

lemma maps_shrink:
  assumes "ph \<noteq> Entry" "advance op ph r = (ph', r')"
  shows "set (at_methods r') \<subseteq> set (at_methods r) \<and> set (at_nodes r') \<subseteq> set (at_nodes r) \<and> (handle ph' = None \<or> handle ph' = handle ph)"
proof (cases ph)
  case (Count p)
  with assms show ?thesis by (cases op) (auto simp: on_method_def on_node_def)
next
  case (Store p now next')
  with assms show ?thesis by (cases op) (auto simp: on_method_def on_node_def)
qed (use assms in \<open>auto simp: Let_def on_method_def evict_lru_filter retain_fresh_def split: prod.splits if_splits\<close>)

lemma names_enter:
  assumes "shared_ok r" "enter op r = (p, r')" "\<forall>(m, p) \<in> set (at_methods r). own p = m" "\<forall>(a, p) \<in> set (at_nodes r). nown p = a"
  obtains own' nown' where "\<forall>(m, p) \<in> set (at_methods r'). own' p = m" "\<forall>(a, p) \<in> set (at_nodes r'). nown' p = a"
    "named own' nown' op p"
    "\<And>q. q < length (method_store r) \<Longrightarrow> own' q = own q" "\<And>q. q < length (node_store r) \<Longrightarrow> nown' q = nown q"
proof (cases op)
  case (MethodCall m l ok)
  have bounded: "\<forall>p \<in> snd ` set (at_methods r). p < length (method_store r)"
    using assms(1) by (simp add: shared_ok_def handles_ok_def)
  show thesis
  proof (cases "map_of (at_methods r) m")
    case None
    have "AList.update m n xs = xs @ [(m, n)]" if "map_of xs m = None" for n :: nat and xs
      using that by (induction xs) (auto split: if_splits)
    with None MethodCall assms bounded show thesis
      by (intro that [of "own(p := m)" nown]) (force split: prod.splits)+
  next
    case (Some q)
    with MethodCall assms show thesis by (intro that [of own nown]) (auto dest: map_of_SomeD)
  qed
next
  case (NodeRequest a)
  have bounded: "\<forall>p \<in> snd ` set (at_nodes r). p < length (node_store r)"
    using assms(1) by (simp add: shared_ok_def handles_ok_def)
  show thesis
  proof (cases "map_of (at_nodes r) a")
    case None
    have "AList.update a n xs = xs @ [(a, n)]" if "map_of xs a = None" for n :: nat and xs
      using that by (induction xs) (auto split: if_splits)
    with None NodeRequest assms bounded show thesis
      by (intro that [of own "nown(p := a)"]) (force split: prod.splits)+
  next
    case (Some q)
    with NodeRequest assms show thesis by (intro that [of own nown]) (auto dest: map_of_SomeD)
  qed
qed

lemma names_step:
  assumes ok: "machine_ok s" and names: "names_ok own nown s" and step: "record_step s l s'"
  shows "\<exists>own' nown'. names_ok own' nown' s'"
  using step
proof cases
  case (begins op)
  with names have "names_ok own nown s'" by (cases op) (auto simp: names_ok_def)
  then show ?thesis by blast
next
  case (acts i op ph ph' r)
  have th: "(op, ph) \<in> set (recorders s)" using acts nth_mem by metis
  have sub: "th' = (op, ph') \<or> th' \<in> set (recorders s)" if "th' \<in> set (recorders s')" for th'
    using that acts(2) set_update_subset_insert by fastforce
  have shared: "shared_ok (shared_reg s)" using ok by (simp add: machine_ok_def)
  show ?thesis
  proof (cases "ph = Entry")
    case False
    note m = maps_shrink [OF False acts(6)]
    have "named own nown (fst th') q" if "th' \<in> set (recorders s')" "handle (snd th') = Some q" for th' q
      using sub [OF that(1)] that(2) m th names by (auto simp: names_ok_def)
    with m names acts(2) have "names_ok own nown s'" by (auto simp: names_ok_def)
    then show ?thesis by blast
  next
    case True
    with acts(6) obtain p where p: "enter op (shared_reg s) = (p, r)" "ph' = Count p" by (auto split: prod.splits)
    obtain own' nown' where n: "\<forall>(m, p) \<in> set (at_methods r). own' p = m" "\<forall>(a, p) \<in> set (at_nodes r). nown' p = a"
      "named own' nown' op p"
      "\<And>q. q < length (method_store (shared_reg s)) \<Longrightarrow> own' q = own q" "\<And>q. q < length (node_store (shared_reg s)) \<Longrightarrow> nown' q = nown q"
      using names names_enter [OF shared p(1), of own nown] by (auto simp: names_ok_def)
    have "named own' nown' (fst th') q" if "th' \<in> set (recorders s')" "handle (snd th') = Some q" for th' q
    proof (cases "th' = (op, ph')")
      case True
      with n(3) p(2) that(2) show ?thesis by simp
    next
      case False
      with sub that(1) have old: "th' \<in> set (recorders s)" by blast
      then have "valid (shared_reg s) th'" "named own nown (fst th') q" using ok names that(2) by (auto simp: machine_ok_def names_ok_def)
      with that(2) n(4,5) show ?thesis by (cases "fst th'") (auto simp: valid_def)
    qed
    with n(1,2) acts(2) have "names_ok own' nown' s'" by (auto simp: names_ok_def)
    then show ?thesis by blast
  qed
qed

lemma names_run:
  "steps record_step s ls s' \<Longrightarrow> machine_ok s \<Longrightarrow> names_ok own nown s \<Longrightarrow> \<exists>own' nown'. names_ok own' nown' s'"
proof (induction arbitrary: own nown rule: steps.induct)
  case (then_ s l s1 ls s')
  from names_step [OF then_.prems then_.hyps(1)] then_.IH machine_ok_step [OF then_.prems(1) then_.hyps(1)]
  show ?case by blast
qed blast

text \<open>The requests to nodes.\<close>

fun node_part :: "nat \<Rightarrow> reg_op \<times> record_phase \<Rightarrow> u64" where
  "node_part p (op, ph) = of_bool (\<not> is_call op \<and> handle ph = Some p \<and> 7 < rank ph)"

lemma call_leaves_nodes:
  assumes "is_call op"
  shows "node_store (snd (advance op ph r)) = node_store r"
  using assms by (cases op; cases ph) (auto simp: on_method_def Let_def split: prod.split option.split)

lemma own_node:
  assumes "\<not> is_call op" "node_phase ph" "handle ph = Some q" "\<not> finished ph" "q < length (node_store r)"
  shows "handle (fst (advance op ph r)) = Some q \<and> length (node_store (snd (advance op ph r))) = length (node_store r)
    \<and> 7 < rank (fst (advance op ph r))
    \<and> (p \<noteq> q \<longrightarrow> node_store (snd (advance op ph r)) ! p = node_store r ! p)
    \<and> ns_request_count (node_store (snd (advance op ph r)) ! q) = ns_request_count (node_store r ! q) + of_bool (rank ph = 7)"
  using assms by (cases op; cases ph) (auto simp: on_node_def split: prod.split)

lemma no_node_handle:
  assumes "\<not> is_call op" "handle ph = None" "advance op ph r = (ph', r')"
  shows "rank ph' \<le> 7 \<and> (node_store r' = node_store r \<or> node_store r' = node_store r @ [node_stats_new])"
proof (cases ph)
  case Entry
  with assms show ?thesis by (cases op) (auto split: option.splits)
qed (use assms in \<open>auto simp: Let_def split: prod.splits if_splits\<close>)

lemma node_request_step:
  assumes "\<not> is_call op" "valid r (op, ph)" "advance op ph r = (ph', r')"
  shows "behind ns_request_count p (node_store r') + node_part p (op, ph) = behind ns_request_count p (node_store r) + node_part p (op, ph')"
proof (cases "handle ph")
  case None
  from no_node_handle [OF assms(1) this assms(3)] None show ?thesis
    by (auto simp: behind_def nth_append node_stats_new_def)
next
  case (Some q)
  show ?thesis
  proof (cases "finished ph")
    case True
    with assms(3) show ?thesis by (cases ph) auto
  next
    case False
    have q: "q < length (node_store r)" "node_phase ph" using assms(1,2) Some by (simp_all add: valid_def)
    have "7 \<le> rank ph" using Some False by (cases ph) (auto split: after_stamp.split)
    with own_node [OF assms(1) q(2) Some False q(1), of p] q(1) assms(1,3) Some show ?thesis
      by (cases "p = q") (auto simp: behind_def)
  qed
qed

interpretation requests: tally "\<lambda>r. behind ns_request_count p (node_store r)" "node_part p" for p
proof
  fix op show "node_part p (op, first_phase op) = 0" by (cases op) simp_all
next
  fix r op ph ph' r'
  assume ok: "shared_ok r" "valid r (op, ph)" "advance op ph r = (ph', r')"
  show "behind ns_request_count p (node_store r') + node_part p (op, ph) = behind ns_request_count p (node_store r) + node_part p (op, ph')"
  proof (cases "is_call op")
    case True
    with ok(3) call_leaves_nodes [OF True, of ph r] show ?thesis by simp
  next
    case False
    then show ?thesis using node_request_step ok(2,3) by blast
  qed
qed

section \<open>Histories\<close>

fun begun :: "record_label list \<Rightarrow> reg_op list" where
  "begun [] = []"
| "begun (Begin op # ls) = op # begun ls"
| "begun (Act i # ls) = begun ls"

lemma recorders_begun:
  "steps record_step s ls s' \<Longrightarrow> map fst (recorders s') = map fst (recorders s) @ begun ls"
proof (induction rule: steps.induct)
  case (then_ s l s1 ls s')
  from then_.hyps(1) show ?case
  proof cases
    case (acts i op ph ph' r)
    then have "map fst (recorders s1) = map fst (recorders s)" by (metis map_update fst_conv list_update_id nth_map registry_machine.select_convs(2))
    with then_.IH acts(1) show ?thesis by simp
  qed (use then_.IH in simp)
qed simp

definition quiescent :: "registry_machine \<Rightarrow> bool" where
  "quiescent s \<longleftrightarrow> list_all (\<lambda>th. finished (snd th)) (recorders s)"

text \<open>The recordings that ended with the statistics behind a handle.\<close>

definition ended_at :: "nat \<Rightarrow> registry_machine \<Rightarrow> reg_op list" where
  "ended_at p s = map fst (filter (\<lambda>th. snd th = Finished p) (recorders s))"

lemma sum_quiescent:
  "list_all (\<lambda>th. finished (snd th)) ths \<Longrightarrow> (\<And>op p. f (op, Finished p) = g op) \<Longrightarrow> sum_list (map f ths) = sum_list (map g (map fst ths))"
proof (induction ths)
  case (Cons th ths)
  then show ?case by (cases th; cases "snd th") auto
qed simp

lemma sum_ended:
  assumes "quiescent s" "\<And>op q. f (op, Finished q) = (if q = p then g op else 0)"
  shows "sum_list (map f (recorders s)) = sum_list (map g (ended_at p s))"
proof -
  have "list_all (\<lambda>th. finished (snd th)) ths \<Longrightarrow>
      sum_list (map f ths) = sum_list (map g (map fst (filter (\<lambda>th. snd th = Finished p) ths)))" for ths
  proof (induction ths)
    case (Cons th ths)
    then show ?case using assms(2) by (cases th; cases "snd th") auto
  qed simp
  then show ?thesis using assms(1) by (simp add: quiescent_def ended_at_def)
qed

lemma sum_of_bool: "sum_list (map (\<lambda>x. of_bool (P x)) xs) = of_nat (length (filter P xs))"
  by (induction xs) simp_all

definition calls_ended :: "nat \<Rightarrow> registry_machine \<Rightarrow> reg_op list" where
  "calls_ended p s = filter is_call (ended_at p s)"

definition requests_ended :: "nat \<Rightarrow> registry_machine \<Rightarrow> reg_op list" where
  "requests_ended p s = filter (\<lambda>op. \<not> is_call op) (ended_at p s)"

lemma sum_filtered: "sum_list (map (\<lambda>x. if P x then f x else 0) xs) = sum_list (map f (filter P xs))"
  by (induction xs) simp_all

lemma new_reads [simp]:
  "recorders (machine_new t cfg c) = []" "at_total (shared_reg (machine_new t cfg c)) = 0"
  "at_success (shared_reg (machine_new t cfg c)) = 0" "at_failed (shared_reg (machine_new t cfg c)) = 0"
  "method_store (shared_reg (machine_new t cfg c)) = []" "node_store (shared_reg (machine_new t cfg c)) = []"
  "behind f p [] = 0"
  by (simp_all add: machine_new_def shared_new_def behind_def)

lemma method_total:
  assumes "tally (\<lambda>r. behind field p (method_store r)) (method_part amount k p)" "k < 18"
    and "steps record_step (machine_new t cfg c) ls s" "quiescent s" "p < length (method_store (shared_reg s))"
  shows "field (method_store (shared_reg s) ! p) = sum_list (map amount (calls_ended p s))"
proof -
  have "behind field p (method_store (shared_reg s)) = sum_list (map (method_part amount k p) (recorders s))"
    using tally.sum_run [OF assms(1,3) machine_new_ok] by simp
  also have "\<dots> = sum_list (map (\<lambda>op. if is_call op then amount op else 0) (ended_at p s))"
    using assms(2) by (intro sum_ended [OF assms(4)]) simp
  finally show ?thesis using assms(5) by (simp add: behind_def sum_filtered calls_ended_def)
qed

section \<open>Running a schedule\<close>

fun record_exec :: "record_label \<Rightarrow> registry_machine \<Rightarrow> registry_machine option" where
  "record_exec (Begin op) s = Some (s\<lparr>recorders := recorders s @ [(op, first_phase op)]\<rparr>)"
| "record_exec (Act i) s = (if i < length (recorders s) then (case recorders s ! i of (op, ph) \<Rightarrow>
     if finished ph then None else (case advance op ph (shared_reg s) of (ph', r) \<Rightarrow>
       Some \<lparr>shared_reg = r, recorders = (recorders s)[i := (op, ph')]\<rparr>)) else None)"

primrec record_run :: "record_label list \<Rightarrow> registry_machine \<Rightarrow> registry_machine option" where
  "record_run [] s = Some s"
| "record_run (l # ls) s = (case record_exec l s of None \<Rightarrow> None | Some s' \<Rightarrow> record_run ls s')"

lemma record_exec_step: "record_exec l s = Some s' \<Longrightarrow> record_step s l s'"
  by (cases l) (auto split: if_splits prod.splits intro: record_step.intros)

lemma record_run_steps: "record_run ls s = Some s' \<Longrightarrow> steps record_step s ls s'"
  by (induction ls arbitrary: s) (auto split: option.splits intro: steps.intros record_exec_step)

text \<open>
  Two requests to two nodes at once: while the first one sweeps, the second one has just made its
  entry, whose timestamp is still zero.
\<close>

definition first_requests :: "record_label list" where
  "first_requests = [Begin (NodeRequest ''a''), Begin (NodeRequest ''b''), Act 0, Act 1, Act 0, Act 0, Act 1, Act 0,
     Act 1, Act 1, Act 1, Act 0, Act 0, Act 0, Act 0]"

definition fresh_machine :: registry_machine where
  "fresh_machine = machine_new 0 default_metrics_config (clock_start (\<lambda>_. 1700000000000000000))"

lemma first_requests_run:
  "case record_run first_requests fresh_machine of None \<Rightarrow> False
    | Some s \<Rightarrow> quiescent s \<and> map fst (at_nodes (shared_reg s)) = [''a''] \<and> requests_ended 0 s = [NodeRequest ''b'']"
  by code_simp

text \<open>Two calls whose steps alternate.\<close>

definition two_recordings :: "record_label list" where
  "two_recordings = [Begin (MethodCall ''f'' 5 True), Begin (MethodCall ''f'' 7 False)] @ replicate 4 (Act 0)
     @ concat (replicate 14 [Act 0, Act 1]) @ [Act 1]"

lemma two_recordings_run:
  "case record_run two_recordings fresh_machine of None \<Rightarrow> False
    | Some s \<Rightarrow> quiescent s \<and> map fst (at_methods (shared_reg s)) = [''f'']"
  by code_simp

section \<open>Properties\<close>

text \<open>
  C31. A recording that nothing interrupts is the function the sequential model gives: within 18 steps it
  ends, and the registry behind the handles is what \<open>record_method_call\<close> or \<open>record_node_request\<close> makes
  of it, with the same timestamps, cleanup included.
\<close>

theorem recording_refines:
  assumes "shared_ok r"
  shows "\<exists>n \<le> 18. \<exists>p r'. advance_n n op (first_phase op, r) = (Finished p, r') \<and> shared_ok r'
    \<and> (view r', at_clock r') = reg_exec op (view r, at_clock r)"
  using assms by (rule recording_alone)

theorem recording_refines_witness:
  "\<exists>n \<le> 18. \<exists>p r'. advance_n n (MethodCall ''f'' 9 True) (Total, shared_new 0 default_metrics_config (clock_start (\<lambda>_. 7000000)))
      = (Finished p, r')
    \<and> (view r', at_clock r') = record_method_call ''f'' 9 True (registry_new 0) (clock_start (\<lambda>_. 7000000))"
proof -
  let ?r = "shared_new 0 default_metrics_config (clock_start (\<lambda>_. 7000000))"
  have "shared_ok ?r" by (simp add: shared_new_def shared_ok_def handles_ok_def)
  moreover have "view ?r = registry_new 0" "at_clock ?r = clock_start (\<lambda>_. 7000000)"
    by (simp_all add: shared_new_def view_def view_methods_def view_nodes_def registry_new_def registry_with_config_def)
  ultimately show ?thesis using recording_refines [of ?r "MethodCall ''f'' 9 True"] by auto
qed

text \<open>
  C18. No count is lost: in every interleaving of any number of recordings, with the cleanups they start,
  once all have returned the global counters are the numbers of calls, of successes and of failures
  that were recorded.
\<close>

theorem no_count_lost:
  assumes "steps record_step (machine_new t cfg c) ls s" "quiescent s"
  shows "at_total (shared_reg s) = of_nat (length (filter is_call (begun ls)))
    \<and> at_success (shared_reg s) = of_nat (length (filter (\<lambda>op. is_call op \<and> succeeds op) (begun ls)))
    \<and> at_failed (shared_reg s) = of_nat (length (filter (\<lambda>op. is_call op \<and> \<not> succeeds op) (begun ls)))"
proof -
  have ops: "map fst (recorders s) = begun ls" using recorders_begun [OF assms(1)] by simp
  have q: "list_all (\<lambda>th. finished (snd th)) (recorders s)" using assms(2) by (simp add: quiescent_def)
  have "sum_list (map total_part (recorders s)) = sum_list (map (\<lambda>op. of_bool (is_call op)) (begun ls))"
    unfolding ops [symmetric] by (rule sum_quiescent [OF q]) simp
  moreover have "sum_list (map (outcome_part ok) (recorders s)) = sum_list (map (\<lambda>op. of_bool (is_call op \<and> succeeds op = ok)) (begun ls))" for ok
    unfolding ops [symmetric] by (rule sum_quiescent [OF q]) simp
  ultimately show ?thesis
    using total.sum_run [OF assms(1) machine_new_ok] success.sum_run [OF assms(1) machine_new_ok] failed.sum_run [OF assms(1) machine_new_ok]
    by (simp add: sum_of_bool)
qed

text \<open>
  C39. What an entry of the tables shows: once all recordings have returned, the statistics of a method count exactly
  the calls of this method that got hold of them, with their outcomes, their number of samples and the sum of
  their latencies, and those of a node exactly the requests to it that did. What a cleanup has removed meanwhile counts
  for nothing.
\<close>

theorem entries_exact:
  assumes "steps record_step (machine_new t cfg c) ls s" "quiescent s"
  shows "(\<forall>(m, p) \<in> set (at_methods (shared_reg s)). let st = method_store (shared_reg s) ! p; cs = calls_ended p s in
      (\<forall>op \<in> set cs. \<exists>l ok. op = MethodCall m l ok) \<and> call_count st = of_nat (length cs)
      \<and> success_count st = of_nat (length (filter succeeds cs)) \<and> failure_count st = of_nat (length (filter (\<lambda>op. \<not> succeeds op) cs))
      \<and> sample_count (latencies st) = of_nat (length cs) \<and> total_latency (latencies st) = sum_list (map latency_of cs))
    \<and> (\<forall>(a, p) \<in> set (at_nodes (shared_reg s)).
      (\<forall>op \<in> set (requests_ended p s). op = NodeRequest a) \<and> ns_request_count (node_store (shared_reg s) ! p) = of_nat (length (requests_ended p s)))"
proof -
  have ok: "machine_ok s" using machine.steps_inv [OF assms(1) machine_new_ok] .
  have "names_ok own nown (machine_new t cfg c)" for own nown by (simp add: names_ok_def machine_new_def shared_new_def)
  with names_run [OF assms(1) machine_new_ok] obtain own nown where names: "names_ok own nown s" by blast
  have owner: "named own nown op p" if "op \<in> set (ended_at p s)" for op p
    using that names by (force simp: ended_at_def names_ok_def)
  have handles: "p < length (method_store (shared_reg s))" if "(m, p) \<in> set (at_methods (shared_reg s))" for m p
    using ok that by (force simp: machine_ok_def shared_ok_def handles_ok_def)
  have nhandles: "p < length (node_store (shared_reg s))" if "(a, p) \<in> set (at_nodes (shared_reg s))" for a p
    using ok that by (force simp: machine_ok_def shared_ok_def handles_ok_def)
  note sums = method_total [OF calls.field_tally _ assms] method_total [OF successes.field_tally _ assms]
    method_total [OF failures.field_tally _ assms] method_total [OF samples.field_tally _ assms]
    method_total [OF latency_sums.field_tally _ assms]
  have nsum: "ns_request_count (node_store (shared_reg s) ! p) = of_nat (length (requests_ended p s))"
    if "p < length (node_store (shared_reg s))" for p
  proof -
    have "behind ns_request_count p (node_store (shared_reg s)) = sum_list (map (node_part p) (recorders s))"
      using requests.sum_run [OF assms(1) machine_new_ok] by simp
    also have "\<dots> = sum_list (map (\<lambda>op. of_bool (\<not> is_call op)) (ended_at p s))" by (intro sum_ended [OF assms(2)]) simp
    finally show ?thesis using that by (simp add: behind_def sum_of_bool requests_ended_def)
  qed
  show ?thesis
  proof (intro conjI ballI, goal_cases)
    case (1 x)
    obtain m p where x: "x = (m, p)" by (rule prod.exhaust)
    with 1 have e: "(m, p) \<in> set (at_methods (shared_reg s))" by simp
    have "own p = m" using names e by (auto simp: names_ok_def)
    then have "\<exists>l ok. op = MethodCall m l ok" if "op \<in> set (calls_ended p s)" for op
      using that owner [of op p] by (cases op) (auto simp: calls_ended_def)
    then show ?case using sums [OF _ handles [OF e]] by (auto simp: x Let_def sum_of_bool sum_list_triv)
  next
    case (2 x)
    obtain a p where x: "x = (a, p)" by (rule prod.exhaust)
    with 2 have e: "(a, p) \<in> set (at_nodes (shared_reg s))" by simp
    have "nown p = a" using names e by (auto simp: names_ok_def)
    then have "op = NodeRequest a" if "op \<in> set (requests_ended p s)" for op
      using that owner [of op p] by (cases op) (auto simp: requests_ended_def)
    then show ?case using nsum [OF nhandles [OF e]] by (auto simp: x)
  qed
qed

lemma fresh_steps:
  obtains s where "steps record_step (machine_new 0 default_metrics_config (clock_start (\<lambda>_. 1700000000000000000))) two_recordings s" "quiescent s"
    "map fst (at_methods (shared_reg s)) = [''f'']"
proof -
  obtain s where s: "record_run two_recordings fresh_machine = Some s" "quiescent s" "map fst (at_methods (shared_reg s)) = [''f'']"
    using two_recordings_run by (auto split: option.splits)
  from record_run_steps [OF s(1)] s(2,3) show thesis unfolding fresh_machine_def by (rule that)
qed

theorem no_count_lost_witness:
  "\<exists>s. steps record_step (machine_new 0 default_metrics_config (clock_start (\<lambda>_. 1700000000000000000))) two_recordings s
     \<and> at_total (shared_reg s) = 2 \<and> at_success (shared_reg s) = 1 \<and> at_failed (shared_reg s) = 1"
proof (rule fresh_steps)
  fix s assume run: "steps record_step (machine_new 0 default_metrics_config (clock_start (\<lambda>_. 1700000000000000000))) two_recordings s"
    and "quiescent s"
  from no_count_lost [OF this] run show ?thesis by (intro exI [of _ s]) (simp add: two_recordings_def numeral_eq_Suc)
qed

theorem entries_exact_witness:
  "\<exists>s p. steps record_step (machine_new 0 default_metrics_config (clock_start (\<lambda>_. 1700000000000000000))) two_recordings s
     \<and> at_methods (shared_reg s) = [(''f'', p)] \<and> call_count (method_store (shared_reg s) ! p) = of_nat (length (calls_ended p s))"
proof (rule fresh_steps)
  fix s assume run: "steps record_step (machine_new 0 default_metrics_config (clock_start (\<lambda>_. 1700000000000000000))) two_recordings s"
    and "quiescent s" and f: "map fst (at_methods (shared_reg s)) = [''f'']"
  note e = entries_exact [OF this(1,2)]
  from f obtain p where p: "at_methods (shared_reg s) = [(''f'', p)]" by (auto simp: map_eq_Cons_conv)
  with e run show ?thesis by (intro exI [of _ s] exI [of _ p]) (simp add: Let_def)
qed

text \<open>
  Timestamps are never given out twice: in every interleaving of threads that ask for one, each
  timestamp that is returned is greater than all before it, as long as they do not reach the last word.
\<close>

theorem timestamps_unique:
  assumes "steps stamp_step s ls s'" "LAST_TIMESTAMP (sm_clock s) \<noteq> - 1" "\<forall>ts \<in> set (timestamps_of ls). ts \<noteq> - 1"
  shows "sorted_wrt (<) (LAST_TIMESTAMP (sm_clock s) # timestamps_of ls)"
  using assms by (rule stamps_increase)

theorem timestamps_unique_witness:
  "\<exists>s'. steps stamp_step \<lparr>sm_clock = clock_start (\<lambda>_. 7000000), sm_threads = (\<lambda>_. Asking)\<rparr>
       [StampRead 0, StampRead 1, StampLoad 0, StampLoad 1, StampSwap 0 7, StampRetry 1, StampLoad 1, StampSwap 1 8] s'
     \<and> sorted_wrt (<) [0, 7, 8 :: u64]"
proof -
  let ?s = "\<lparr>sm_clock = clock_start (\<lambda>_. 7000000), sm_threads = (\<lambda>_. Asking)\<rparr>"
  let ?ls = "[StampRead 0, StampRead 1, StampLoad 0, StampLoad 1, StampSwap 0 7, StampRetry 1, StampLoad 1, StampSwap 1 8]"
  have "\<exists>s'. steps stamp_step ?s ?ls s'"
    by (rule exI, rule steps.then_, rule stamp_step.read [OF _ prod.collapse [symmetric]], simp add: set_stamp_def clock_start_def read_millis_def,
        rule steps.then_, rule stamp_step.read [OF _ prod.collapse [symmetric]], simp add: set_stamp_def clock_start_def read_millis_def,
        rule steps.then_, rule stamp_step.load [where system_time = 7], simp add: set_stamp_def clock_start_def read_millis_def,
        rule steps.then_, rule stamp_step.load [where system_time = 7], simp add: set_stamp_def clock_start_def read_millis_def,
        rule steps.then_, rule stamp_step.swap [where system_time = 7 and last' = 0], simp add: set_stamp_def clock_start_def read_millis_def, simp add: set_stamp_def clock_start_def read_millis_def, simp,
        rule steps.then_, rule stamp_step.retry [where system_time = 7 and last' = 0], simp add: set_stamp_def clock_start_def read_millis_def,
        rule steps.then_, rule stamp_step.load [where system_time = 7], simp add: set_stamp_def clock_start_def read_millis_def,
        rule steps.then_, rule stamp_step.swap [where system_time = 7 and last' = 7], simp add: set_stamp_def clock_start_def read_millis_def, simp add: set_stamp_def clock_start_def read_millis_def, simp, rule steps.stop)
  then obtain s' where run: "steps stamp_step ?s ?ls s'" by blast
  from timestamps_unique [OF run] run show ?thesis by (intro exI [of _ s']) (simp add: clock_start_def)
qed

text \<open>
  New statistics of a node start with the timestamp zero, so a sweep of another thread that falls between the
  entry and its first stamp takes them for stale: the entry is gone, and the request is counted where
  nobody looks, as in \<open>first_requests\<close>.
\<close>

theorem fresh_node_swept:
  assumes "record_step s (Act i) s'" "recorders s ! i = (op, SweepNodes now)"
    and "map_of (at_nodes (shared_reg s)) a = Some p" "ns_last_request_ms (node_store (shared_reg s) ! p) = 0"
    and "node_ttl_secs (at_config (shared_reg s)) * 1000 \<le> now" "machine_ok s"
  shows "map_of (at_nodes (shared_reg s')) a = None"
  using assms(1)
proof cases
  case (acts op' ph ph' r)
  with assms(2) have r: "r = snd (advance op (SweepNodes now) (shared_reg s))" by simp
  have "wf_map (at_nodes (shared_reg s))" using assms(6) by (simp add: machine_ok_def shared_ok_def handles_ok_def)
  then have "q = p" if "(a, q) \<in> set (at_nodes (shared_reg s))" for q
    using assms(3) that by (metis map_of_eq_Some_iff option.inject)
  with assms(4,5) have "(a, q) \<notin> set (at_nodes r)" for q
    by (auto simp: r Let_def evict_lru_filter retain_fresh_def saturating_sub_def)
  then show ?thesis using acts(1) by (auto simp: map_of_eq_None_iff)
qed

end
