(* ===== verification/LimiterTasks.thy ===== *)
theory LimiterTasks
  imports Transition RateLimit
begin

text \<open>
  The rate limiter under concurrent requests (\<open>madrpc-common/src/rate_limit.rs\<close>). \<open>RateLimit\<close> gives a check as
  one function; the code reads the clock first, then waits for the lock of the last cleanup, and then for
  that of the buckets, so other requests act between these steps, and readings of the clock
  reach the buckets in another order than they were made. The first section, the periodic cleanup, holds the lock of
  the last cleanup while it waits for that of the buckets; only sections of other requests on the buckets fall
  between, and nothing but the holder reads the last cleanup, so the section takes effect where it has both.
  The bound is proved in a locale, for every system whose steps contain such sections, and holds here for the
  checks alone and in \<open>Listener\<close> for the connections of a node.
\<close>

section \<open>The sections of a check\<close>

text \<open>The second critical section, under the lock of the buckets.\<close>

definition bucket_section :: "instant \<Rightarrow> instant \<Rightarrow> ip_addr \<Rightarrow> rate_limiter \<Rightarrow> rate_limit_result option \<times> rate_limiter" where
  "bucket_section now created ip l =
     (let bucket = (case map_of (buckets l) ip of
             Some b \<Rightarrow> b | None \<Rightarrow> bucket_new (burst_size (rl_config l)) created);
          (res, bucket) = serve_bucket (rl_config l) now bucket
      in (res, l\<lparr>buckets := AList.update ip bucket (buckets l)\<rparr>))"

text \<open>
  Where a request stands: it has read the clock and waits for the first lock or for the second, it has its
  answer (\<open>None\<close> is a panic), or it was dropped at one of the locks because its client went away.
\<close>

datatype check_phase =
    Unasked
  | AtCleanup instant ip_addr
  | AtBucket instant ip_addr
  | Answered_with "rate_limit_result option"
  | Gone

record limiter_machine =
  lm_limiter :: rate_limiter
  lm_checks :: "nat \<Rightarrow> check_phase"

definition set_check :: "nat \<Rightarrow> check_phase \<Rightarrow> limiter_machine \<Rightarrow> limiter_machine" where
  "set_check c p s = s\<lparr>lm_checks := (lm_checks s)(c := p)\<rparr>"

datatype check_label =
    Skips nat ip_addr
  | Asks nat instant ip_addr
  | Cleans nat instant
  | Consumes nat instant ip_addr "rate_limit_result option"
  | Leaves nat

inductive check_step :: "limiter_machine \<Rightarrow> check_label \<Rightarrow> limiter_machine \<Rightarrow> bool" where
  skips: "lm_checks s c = Unasked \<Longrightarrow> f_le (Fin 1000000) (requests_per_second (rl_config (lm_limiter s)))
    \<Longrightarrow> check_step s (Skips c ip) (set_check c (Answered_with (Some Allowed)) s)"
| asks: "lm_checks s c = Unasked \<Longrightarrow> \<not> f_le (Fin 1000000) (requests_per_second (rl_config (lm_limiter s)))
    \<Longrightarrow> check_step s (Asks c now ip) (set_check c (AtCleanup now ip) s)"
| cleans: "lm_checks s c = AtCleanup now ip
    \<Longrightarrow> check_step s (Cleans c now) (set_check c (AtBucket now ip) (s\<lparr>lm_limiter := periodic_cleanup now (lm_limiter s)\<rparr>))"
| consumes: "lm_checks s c = AtBucket now ip \<Longrightarrow> bucket_section now created ip (lm_limiter s) = (res, l)
    \<Longrightarrow> check_step s (Consumes c now ip res) (set_check c (Answered_with res) (s\<lparr>lm_limiter := l\<rparr>))"
| leaves: "lm_checks s c = AtCleanup now ip \<or> lm_checks s c = AtBucket now ip
    \<Longrightarrow> check_step s (Leaves c) (set_check c Gone s)"

inductive_cases check_stepE: "check_step s l s'"

definition limiter_start :: "rate_limit_config \<Rightarrow> instant \<Rightarrow> limiter_machine" where
  "limiter_start cfg t = \<lparr>lm_limiter = rl_new cfg t, lm_checks = (\<lambda>_. Unasked)\<rparr>"

text \<open>A check that nothing interrupts is the function of \<open>RateLimit\<close>.\<close>

lemma check_sections:
  "check_rate_limit now created ip l =
     (if f_le (Fin 1000000) (requests_per_second (rl_config l)) then (Some Allowed, l)
      else bucket_section now created ip (periodic_cleanup now l))"
  by (simp add: check_rate_limit_def bucket_section_def periodic_cleanup_def cleanup_stale_entries_def Let_def)

section \<open>Clocks that step back\<close>

text \<open>The times of the sections in the order of the locks; how far they advance in all, and how far they step back.\<close>

fun section_time :: "check_label \<Rightarrow> instant list" where
  "section_time (Cleans c now) = [now]"
| "section_time (Consumes c now ip res) = [now]"
| "section_time l = []"

definition section_times :: "check_label list \<Rightarrow> instant list" where
  "section_times ls = concat (map section_time ls)"

lemma section_times_simps [simp]:
  "section_times [] = []" "section_times (l # ls) = section_time l @ section_times ls"
  by (simp_all add: section_times_def)

primrec advanced :: "instant \<Rightarrow> instant list \<Rightarrow> nat" where
  "advanced t [] = 0"
| "advanced t (x # xs) = (x - t) + advanced x xs"

primrec set_back :: "instant \<Rightarrow> instant list \<Rightarrow> nat" where
  "set_back t [] = 0"
| "set_back t (x # xs) = (t - x) + set_back x xs"

lemma advanced_set_back: "t \<le> T \<Longrightarrow> \<forall>x \<in> set xs. x \<le> T \<Longrightarrow> t + advanced t xs \<le> T + set_back t xs"
proof (induction xs arbitrary: t)
  case (Cons x xs)
  then have "x + advanced x xs \<le> T + set_back x xs" by simp
  then show ?case by simp
qed simp

lemma set_back_sorted: "sorted (t # xs) \<Longrightarrow> set_back t xs = 0"
  by (induction xs arbitrary: t) auto

fun lets :: "ip_addr \<Rightarrow> check_label \<Rightarrow> bool" where
  "lets ip (Consumes c now ip' res) = (ip' = ip \<and> res = Some Allowed)"
| "lets ip (Skips c ip') = (ip' = ip)"
| "lets ip l = False"

text \<open>The sections by themselves: what each does to the limiter, its time, and the address it gives a token.\<close>

datatype limiter_section = CleanupSection instant | BucketSection instant ip_addr "rate_limit_result option"

fun section_moves :: "limiter_section \<Rightarrow> rate_limiter \<Rightarrow> rate_limiter \<Rightarrow> bool" where
  "section_moves (CleanupSection now) l l' = (l' = periodic_cleanup now l)"
| "section_moves (BucketSection now ip res) l l' = (\<exists>created. bucket_section now created ip l = (res, l'))"

fun section_clock :: "limiter_section \<Rightarrow> instant" where
  "section_clock (CleanupSection now) = now"
| "section_clock (BucketSection now ip res) = now"

fun grants :: "ip_addr \<Rightarrow> limiter_section \<Rightarrow> bool" where
  "grants ip (CleanupSection now) = False"
| "grants ip (BucketSection now ip' res) = (ip' = ip \<and> res = Some Allowed)"

definition clocks :: "('l \<Rightarrow> limiter_section option) \<Rightarrow> 'l list \<Rightarrow> instant list" where
  "clocks section_of ls = map section_clock (List.map_filter section_of ls)"

lemma clocks_simps [simp]:
  "clocks f [] = []"
  "clocks f (l # ls) = (case f l of None \<Rightarrow> clocks f ls | Some x \<Rightarrow> section_clock x # clocks f ls)"
  by (simp_all add: clocks_def map_filter_simps split: option.split)

section \<open>The allowance of an address\<close>

text \<open>
  The potential argument. \<open>g\<close> requests of the address were let through in sections that advanced the clock by \<open>f\<close>
  in all, the last one at \<open>t\<close>. While the address has a bucket, what was let through and the tokens it holds
  are covered by the burst and the rate up to some advance \<open>fl\<close>, since which the clock has gone on at
  least as far as it is now ahead of the bucket.
\<close>

definition covered :: "rate_limit_config \<Rightarrow> rat \<Rightarrow> rat \<Rightarrow> nat \<Rightarrow> instant \<Rightarrow> rat \<Rightarrow> token_bucket option \<Rightarrow> bool" where
  "covered cfg r g f t k bucket \<longleftrightarrow> (case bucket of
     None \<Rightarrow> g \<le> r * secs_of f + k
   | Some b \<Rightarrow> (\<exists>x fl. tokens b = Fin x \<and> bucket_ok cfg b \<and> g + x \<le> burst_of cfg + r * secs_of fl + k
        \<and> (t - last_update b) + fl \<le> f))"

lemma secs_of_mono: "m \<le> n \<Longrightarrow> secs_of m \<le> secs_of n"
  by (intro divide_right_mono of_nat_mono) simp_all

lemma secs_of_add: "secs_of (m + n) = secs_of m + secs_of n"
  by (simp add: field_simps)

lemma covered_bound:
  assumes "0 \<le> r" "covered cfg r g f t k bucket"
  shows "g \<le> burst_of cfg + r * secs_of f + k"
proof (cases bucket)
  case None
  with assms burst_of_bounds(1) [of cfg] show ?thesis by (simp add: covered_def)
next
  case (Some b)
  with assms(2) obtain x fl where b: "tokens b = Fin x" "bucket_ok cfg b" "g + x \<le> burst_of cfg + r * secs_of fl + k" "fl \<le> f"
    by (auto simp: covered_def)
  then have "0 \<le> x" by (simp add: bucket_ok_def)
  moreover have "r * secs_of fl \<le> r * secs_of f" using assms(1) b(4) by (intro mult_left_mono secs_of_mono)
  ultimately show ?thesis using b(3) by linarith
qed

lemma covered_later:
  assumes "0 \<le> r" "covered cfg r g f t k bucket" "k \<le> k'"
  shows "covered cfg r g (f + (now - t)) now k' bucket"
proof (cases bucket)
  case None
  have "r * secs_of f \<le> r * secs_of (f + (now - t))" using assms(1) by (intro mult_left_mono secs_of_mono) simp
  moreover have "g \<le> r * secs_of f + k" using None assms(2) by (simp only: covered_def option.case)
  ultimately have "g \<le> r * secs_of (f + (now - t)) + k'" using assms(3) by linarith
  then show ?thesis by (simp only: None covered_def option.case)
next
  case (Some b)
  with assms(2) obtain x fl where b: "tokens b = Fin x" "bucket_ok cfg b" "g + x \<le> burst_of cfg + r * secs_of fl + k"
    "(t - last_update b) + fl \<le> f" by (auto simp: covered_def)
  then have "(now - last_update b) + fl \<le> f + (now - t)" by linarith
  moreover have "g + x \<le> burst_of cfg + r * secs_of fl + k'" using b(3) assms(3) by linarith
  ultimately show ?thesis using Some b(1,2) by (auto simp: covered_def)
qed

lemma covered_removed:
  assumes rate: "requests_per_second cfg = Fin r" "0 \<le> r" "refills_in_ttl cfg" "0 < entry_ttl cfg" "now < 2 ^ 53 * 1000000000"
    and c: "covered cfg r g f t k (Some b)" and old: "entry_ttl cfg \<le> duration_since now (last_update b)"
  shows "covered cfg r g (f + (now - t)) now (k + 1 / 131072) None"
proof -
  obtain x fl where b: "tokens b = Fin x" "bucket_ok cfg b" "g + x \<le> burst_of cfg + r * secs_of fl + k"
    "(t - last_update b) + fl \<le> f" using c by (auto simp: covered_def)
  have x: "0 \<le> x" "x \<le> burst_of cfg" using b(1,2) by (simp_all add: bucket_ok_def)
  have "rate_ok cfg" using rate(1,2) by (simp add: rate_ok_def)
  moreover have "last_update b + entry_ttl cfg \<le> now" using old rate(4) by (simp add: duration_since_def)
  ultimately have "refilled cfg now b = Fin (burst_of cfg)" using refilled_full b(2) rate(3) by blast
  moreover have "duration_since now (last_update b) < 2 ^ 53 * 1000000000" using rate(5) by (simp add: duration_since_def)
  ultimately have y: "burst_of cfg \<le> x + r * secs_of (duration_since now (last_update b)) + 1 / 262144"
    using refill_error [OF rate(1,2) b(1) x] by simp
  have "duration_since now (last_update b) + fl \<le> f + (now - t)" using b(4) by (simp add: duration_since_def)
  then have "r * secs_of (duration_since now (last_update b) + fl) \<le> r * secs_of (f + (now - t))"
    using rate(2) by (intro mult_left_mono secs_of_mono)
  then have "r * secs_of (duration_since now (last_update b)) + r * secs_of fl \<le> r * secs_of (f + (now - t))"
    by (simp only: secs_of_add distrib_left)
  with y b(3) have "g \<le> r * secs_of (f + (now - t)) + (k + 1 / 131072)" by linarith
  then show ?thesis by (simp only: covered_def option.case)
qed

lemma covered_served:
  assumes rate: "requests_per_second cfg = Fin r" "0 \<le> r" and now: "now < 2 ^ 53 * 1000000000"
    and c: "covered cfg r g f t k bucket"
    and s: "serve_bucket cfg now (case bucket of Some b \<Rightarrow> b | None \<Rightarrow> bucket_new (burst_size cfg) created) = (res, b')"
  shows "covered cfg r (g + of_bool (res = Some Allowed)) (f + (now - t)) now (k + 1 / 131072) (Some b')"
proof -
  define b where "b = (case bucket of Some b \<Rightarrow> b | None \<Rightarrow> bucket_new (burst_size cfg) created)"
  have ok: "bucket_ok cfg b" using c by (auto simp: b_def covered_def split: option.splits)
  obtain y x' where y: "refilled cfg now b = Fin y" "0 \<le> y" "y \<le> burst_of cfg" "bucket_ok cfg b'"
    "tokens b' = Fin x'" "last_update b' = now" "(if res = Some Allowed then 1 else 0) + x' \<le> y + 1 / 2097152"
    using rate ok s [folded b_def] by (rule serve_consumes)
  have "g + y \<le> burst_of cfg + r * secs_of (f + (now - t)) + k + 1 / 262144"
  proof (cases bucket)
    case None
    have "r * secs_of f \<le> r * secs_of (f + (now - t))" using rate(2) by (intro mult_left_mono secs_of_mono) simp
    moreover have "g \<le> r * secs_of f + k" using None c by (simp only: covered_def option.case)
    ultimately show ?thesis using y(3) by linarith
  next
    case (Some b0)
    then have b0: "b0 = b" by (simp add: b_def)
    with Some c obtain x fl where x: "tokens b = Fin x" "g + x \<le> burst_of cfg + r * secs_of fl + k" "(t - last_update b) + fl \<le> f"
      by (auto simp: covered_def)
    have xb: "0 \<le> x" "x \<le> burst_of cfg" using x(1) ok by (simp_all add: bucket_ok_def)
    have "duration_since now (last_update b) < 2 ^ 53 * 1000000000" using now by (simp add: duration_since_def)
    from refill_error [OF rate x(1) xb this y(1,3)]
    have e: "y \<le> x + r * secs_of (duration_since now (last_update b)) + 1 / 262144" .
    have "duration_since now (last_update b) + fl \<le> f + (now - t)" using x(3) by (simp add: duration_since_def)
    then have "r * secs_of (duration_since now (last_update b) + fl) \<le> r * secs_of (f + (now - t))"
      using rate(2) by (intro mult_left_mono secs_of_mono)
    then have "r * secs_of (duration_since now (last_update b)) + r * secs_of fl \<le> r * secs_of (f + (now - t))"
      by (simp only: secs_of_add distrib_left)
    with e x(2) show ?thesis by linarith
  qed
  with y(7) have "g + of_bool (res = Some Allowed) + x' \<le> burst_of cfg + r * secs_of (f + (now - t)) + (k + 1 / 131072)"
    by (cases "res = Some Allowed") simp_all
  with y(4-6) show ?thesis unfolding covered_def option.case
    by (intro exI [of _ x'] exI [of _ "f + (now - t)"]) simp
qed

section \<open>Runs\<close>

definition allowance :: "rate_limit_config \<Rightarrow> rat \<Rightarrow> ip_addr \<Rightarrow> rat \<Rightarrow> nat \<Rightarrow> instant \<Rightarrow> rat \<Rightarrow> rate_limiter \<Rightarrow> bool" where
  "allowance cfg r ip g f t k l \<longleftrightarrow> rl_config l = cfg \<and> wf_map (buckets l) \<and> covered cfg r g f t k (map_of (buckets l) ip)"

lemma allowance_cleans:
  assumes rate: "requests_per_second cfg = Fin r" "0 \<le> r" "refills_in_ttl cfg" "0 < entry_ttl cfg" "now < 2 ^ 53 * 1000000000"
    and a: "allowance cfg r ip g f t k l" and l: "l' = periodic_cleanup now l"
  shows "allowance cfg r ip g (f + (now - t)) now (k + 1 / 131072) l'"
proof -
  let ?m = "buckets l"
  have c: "covered cfg r g f t k (map_of ?m ip)" "rl_config l = cfg" "wf_map ?m"
    using a by (simp_all add: allowance_def)
  have kept: "covered cfg r g (f + (now - t)) now (k + 1 / 131072) (map_of ?m ip)"
    using rate(2) c(1) by (rule covered_later) simp
  have "covered cfg r g (f + (now - t)) now (k + 1 / 131072) (map_of (buckets l') ip)"
  proof (cases "map_of (buckets l') ip = map_of ?m ip")
    case True
    then show ?thesis using kept by simp
  next
    case False
    then obtain b where b: "map_of ?m ip = Some b" "entry_ttl cfg \<le> duration_since now (last_update b)"
      "map_of (buckets l') ip = None"
      using c(2,3) by (auto simp: l periodic_cleanup_def cleanup_stale_entries_def map_of_filter split: if_splits option.splits)
    from covered_removed [OF rate c(1) [unfolded b(1)] b(2)] show ?thesis by (simp only: b(3))
  qed
  then show ?thesis using c(2,3) by (simp add: allowance_def l periodic_cleanup_def cleanup_stale_entries_def)
qed

lemma allowance_consumes:
  assumes rate: "requests_per_second cfg = Fin r" "0 \<le> r" "now < 2 ^ 53 * 1000000000"
    and a: "allowance cfg r ip g f t k l" and l: "bucket_section now created ip' l = (res, l')"
  shows "allowance cfg r ip (g + of_bool (ip' = ip \<and> res = Some Allowed)) (f + (now - t)) now (k + 1 / 131072) l'"
proof -
  let ?m = "buckets l"
  have c: "covered cfg r g f t k (map_of ?m ip)" "rl_config l = cfg" "wf_map ?m"
    using a by (simp_all add: allowance_def)
  obtain b' where sb: "serve_bucket cfg now (case map_of ?m ip' of Some b \<Rightarrow> b | None \<Rightarrow> bucket_new (burst_size cfg) created) = (res, b')"
    and l': "l' = l\<lparr>buckets := AList.update ip' b' ?m\<rparr>"
    using l c(2) by (auto simp: bucket_section_def Let_def split: prod.splits)
  have "covered cfg r (g + of_bool (ip' = ip \<and> res = Some Allowed)) (f + (now - t)) now (k + 1 / 131072)
      (map_of (buckets l') ip)"
  proof (cases "ip' = ip")
    case True
    with covered_served [OF rate c(1) sb [unfolded True]] show ?thesis by (simp add: l' update_conv')
  next
    case False
    have "covered cfg r g (f + (now - t)) now (k + 1 / 131072) (map_of ?m ip)"
      using rate(2) c(1) by (rule covered_later) simp
    with False show ?thesis by (simp add: l' update_conv')
  qed
  then show ?thesis using c(2,3) by (simp add: allowance_def l')
qed

lemma allowance_section:
  assumes rate: "requests_per_second cfg = Fin r" "0 \<le> r" "refills_in_ttl cfg" "0 < entry_ttl cfg"
    and step: "section_moves x l l'" and a: "allowance cfg r ip g f t k l" and time: "section_clock x < 2 ^ 53 * 1000000000"
  shows "allowance cfg r ip (g + of_bool (grants ip x)) (f + (section_clock x - t)) (section_clock x) (k + 1 / 131072) l'"
proof (cases x)
  case (CleanupSection now)
  with time have "now < 2 ^ 53 * 1000000000" by simp
  from allowance_cleans [OF rate this a] CleanupSection step show ?thesis by simp
next
  case (BucketSection now ip' res)
  with time have now: "now < 2 ^ 53 * 1000000000" by simp
  obtain created where "bucket_section now created ip' l = (res, l')" using step BucketSection by auto
  from allowance_consumes [OF rate(1,2) now a this] show ?thesis by (simp add: BucketSection)
qed

lemma allowance_start: "0 \<le> r \<Longrightarrow> allowance cfg r ip 0 0 t 0 (rl_new cfg t0)"
  by (simp add: allowance_def rl_new_def covered_def)

text \<open>
  A system whose tasks share a limiter: some of its steps are sections of a check, the others leave the limiter
  alone, and what is let through at a rate that is enabled had its token from a section on the buckets.
\<close>

locale limited_tasks =
  fixes step :: "'s \<Rightarrow> 'l \<Rightarrow> 's \<Rightarrow> bool" and limiter_of :: "'s \<Rightarrow> rate_limiter"
    and section_of :: "'l \<Rightarrow> limiter_section option" and passes :: "ip_addr \<Rightarrow> 'l \<Rightarrow> bool"
  assumes step_section: "step s l s' \<Longrightarrow> (case section_of l of
      None \<Rightarrow> limiter_of s' = limiter_of s | Some x \<Rightarrow> section_moves x (limiter_of s) (limiter_of s'))"
    and passes_granted: "step s l s' \<Longrightarrow> enabled_rate (rl_config (limiter_of s)) \<Longrightarrow> passes ip l
      \<Longrightarrow> (\<exists>x. section_of l = Some x \<and> grants ip x)"
begin

lemma allowance_run:
  assumes rate: "requests_per_second cfg = Fin r" "0 \<le> r" "refills_in_ttl cfg" "enabled_rate cfg" "0 < entry_ttl cfg"
  shows "steps step s ls s' \<Longrightarrow> allowance cfg r ip g f t k (limiter_of s)
    \<Longrightarrow> \<forall>x \<in> set (clocks section_of ls). x < 2 ^ 53 * 1000000000
    \<Longrightarrow> \<exists>h t'. of_nat (count_labels (passes ip) ls) \<le> h \<and> allowance cfg r ip (g + h)
      (f + advanced t (clocks section_of ls)) t' (k + of_nat (length (clocks section_of ls)) / 131072) (limiter_of s')"
proof (induction arbitrary: g f t k rule: steps.induct)
  case (stop s)
  then show ?case by (intro exI [of _ 0] exI [of _ t]) simp
next
  case (then_ s l s' ls s'')
  have enabled: "enabled_rate (rl_config (limiter_of s))" using then_.prems(1) rate(4) by (simp add: allowance_def)
  note moved = step_section [OF then_.hyps(1)] and granted = passes_granted [OF then_.hyps(1) enabled, of ip]
  show ?case
  proof (cases "section_of l")
    case None
    with granted have "\<not> passes ip l" by auto
    with then_.IH [of g f t k] then_.prems moved None show ?thesis by simp
  next
    case (Some x)
    with moved have m: "section_moves x (limiter_of s) (limiter_of s')" by simp
    have time: "section_clock x < 2 ^ 53 * 1000000000" using then_.prems(2) Some by simp
    from then_.IH [OF allowance_section [OF rate(1-3,5) m then_.prems(1) time]] then_.prems(2) Some obtain h t' where
      h: "of_nat (count_labels (passes ip) ls) \<le> h" "allowance cfg r ip (g + of_bool (grants ip x) + h)
        (f + (section_clock x - t) + advanced (section_clock x) (clocks section_of ls)) t'
        (k + 1 / 131072 + of_nat (length (clocks section_of ls)) / 131072) (limiter_of s'')" by auto
    have "passes ip l \<Longrightarrow> grants ip x" using granted Some by auto
    with h Some show ?thesis
      by (intro exI [of _ "of_bool (grants ip x) + h"] exI [of _ t']) (auto simp: add.assoc add_divide_distrib)
  qed
qed

lemma limiter_bound:
  assumes "requests_per_second cfg = Fin r" "0 \<le> r" "refills_in_ttl cfg" "enabled_rate cfg" "0 < entry_ttl cfg"
    and "steps step s ls s'" "limiter_of s = rl_new cfg t0"
    and "t \<le> T" "\<forall>x \<in> set (clocks section_of ls). x \<le> T" "T < 2 ^ 53 * 1000000000"
  shows "of_nat (count_labels (passes ip) ls)
     \<le> burst_of cfg + r * secs_of (T - t + set_back t (clocks section_of ls)) + of_nat (length (clocks section_of ls)) / 131072"
proof -
  have times: "\<forall>x \<in> set (clocks section_of ls). x < 2 ^ 53 * 1000000000" using assms(9,10) by auto
  have "allowance cfg r ip 0 0 t 0 (limiter_of s)" using allowance_start [OF assms(2)] by (simp only: assms(7))
  from allowance_run [OF assms(1-6) this times] obtain h t' where
    h: "of_nat (count_labels (passes ip) ls) \<le> h" "allowance cfg r ip (0 + h) (0 + advanced t (clocks section_of ls)) t'
      (0 + of_nat (length (clocks section_of ls)) / 131072) (limiter_of s')" by blast
  then have "h \<le> burst_of cfg + r * secs_of (advanced t (clocks section_of ls)) + of_nat (length (clocks section_of ls)) / 131072"
    using covered_bound [OF assms(2)] by (auto simp: allowance_def)
  moreover have "advanced t (clocks section_of ls) \<le> T - t + set_back t (clocks section_of ls)"
    using advanced_set_back [OF assms(8,9)] assms(8) by linarith
  then have "r * secs_of (advanced t (clocks section_of ls)) \<le> r * secs_of (T - t + set_back t (clocks section_of ls))"
    using assms(2) by (intro mult_left_mono secs_of_mono)
  ultimately show ?thesis using h(1) by linarith
qed

end

section \<open>The checks alone\<close>

fun check_section :: "check_label \<Rightarrow> limiter_section option" where
  "check_section (Cleans c now) = Some (CleanupSection now)"
| "check_section (Consumes c now ip res) = Some (BucketSection now ip res)"
| "check_section l = None"

lemma set_check_limiter [simp]: "lm_limiter (set_check c p s) = lm_limiter s"
  by (simp add: set_check_def)

lemma check_moves: "check_step s l s' \<Longrightarrow> (case check_section l of
    None \<Rightarrow> lm_limiter s' = lm_limiter s | Some x \<Rightarrow> section_moves x (lm_limiter s) (lm_limiter s'))"
  by (erule check_stepE) auto

lemma check_grants: "check_step s l s' \<Longrightarrow> enabled_rate (rl_config (lm_limiter s)) \<Longrightarrow> lets ip l
    \<Longrightarrow> (\<exists>x. check_section l = Some x \<and> grants ip x)"
  by (erule check_stepE) (auto simp: enabled_rate_def)

interpretation checks: limited_tasks check_step lm_limiter check_section lets
  by standard (rule check_moves, assumption, rule check_grants)

lemma check_clocks: "clocks check_section ls = section_times ls"
proof (induction ls)
  case (Cons l ls)
  then show ?case by (cases l) simp_all
qed simp

section \<open>A late reading\<close>

text \<open>
  Two checks that queue together: the one that read the clock at 9 seconds gets the locks after the one that read it at
  10 seconds. It is refused, and its reading moves the bucket back by a second, so a third check that acts at 10 seconds
  again is let through although the burst is one and no time has passed.
\<close>

definition slow_config :: rate_limit_config where
  "slow_config = rate_config_new (Fin 1) 1"

text \<open>The limiter of \<open>late_schedule\<close>: one request in a second, with a burst of one.\<close>

definition slow_limiter :: "instant \<Rightarrow> rat \<Rightarrow> ip_addr \<Rightarrow> rate_limiter" where
  "slow_limiter t x ip = \<lparr>rl_config = slow_config, buckets = [(ip, \<lparr>tokens = Fin x, last_update = t\<rparr>)], last_cleanup = 0\<rparr>"

lemma slow:
  "requests_per_second slow_config = Fin 1" "burst_size slow_config = 1" "cleanup_interval slow_config = from_secs 60"
  "entry_ttl slow_config = from_secs 300"
  by (simp_all add: slow_config_def rate_config_new_def)

lemma slow_clock: "as_secs_f64 0 = Fin 0" "as_secs_f64 1000000000 = Fin 1" "f_of_nat (Suc 0) = Fin 1"
  using as_secs_whole [of 0] as_secs_whole [of 1] by (simp_all add: f_of_nat_def)

lemmas slow_eval = bucket_section_def rl_new_def serve_bucket_def try_consume_def bucket_new_def slow slow_limiter_def
  time_until_next_token_def Let_def slow_clock periodic_cleanup_def duration_since_def f_min_def f_sub_def

lemma slow_first: "bucket_section (from_secs 10) (from_secs 10) ip (periodic_cleanup (from_secs 10) (rl_new slow_config 0))
   = (Some Allowed, slow_limiter (from_secs 10) 0 ip)"
  by (simp add: slow_eval)

lemma slow_second: "bucket_section (from_secs 9) 0 ip (periodic_cleanup (from_secs 9) (slow_limiter (from_secs 10) 0 ip))
   = (Some (RateLimited (from_secs 1)), slow_limiter (from_secs 9) 0 ip)"
  by (simp add: slow_eval)

lemma slow_third: "bucket_section (from_secs 10) 0 ip (periodic_cleanup (from_secs 10) (slow_limiter (from_secs 9) 0 ip))
   = (Some Allowed, slow_limiter (from_secs 10) 0 ip)"
  by (simp add: slow_eval)

definition late_schedule :: "ip_addr \<Rightarrow> check_label list" where
  "late_schedule ip =
     [Asks 1 (from_secs 9) ip, Asks 0 (from_secs 10) ip, Asks 2 (from_secs 10) ip,
      Cleans 0 (from_secs 10), Consumes 0 (from_secs 10) ip (Some Allowed),
      Cleans 1 (from_secs 9), Consumes 1 (from_secs 9) ip (Some (RateLimited (from_secs 1))),
      Cleans 2 (from_secs 10), Consumes 2 (from_secs 10) ip (Some Allowed)]"

lemma steps_section:
  assumes "lm_checks s c = AtCleanup now ip" "bucket_section now created ip (periodic_cleanup now (lm_limiter s)) = (res, l)"
    and "steps check_step (set_check c (Answered_with res) (s\<lparr>lm_limiter := l\<rparr>)) ls s'"
  shows "steps check_step s (Cleans c now # Consumes c now ip res # ls) s'"
proof (rule steps.then_, rule check_step.cleans [OF assms(1)], rule steps.then_, rule check_step.consumes)
  let ?s = "set_check c (AtBucket now ip) (s\<lparr>lm_limiter := periodic_cleanup now (lm_limiter s)\<rparr>)"
  show "lm_checks ?s c = AtBucket now ip" by (simp add: set_check_def)
  show "bucket_section now created ip (lm_limiter ?s) = (res, l)" using assms(2) by simp
  show "steps check_step (set_check c (Answered_with res) (?s\<lparr>lm_limiter := l\<rparr>)) ls s'"
    using assms(3) by (simp add: set_check_def)
qed

lemma steps_asks:
  assumes "lm_checks s c = Unasked" "enabled_rate (rl_config (lm_limiter s))"
    and "steps check_step (set_check c (AtCleanup now ip) s) ls s'"
  shows "steps check_step s (Asks c now ip # ls) s'"
  using assms by (auto simp: enabled_rate_def intro!: steps.then_ check_step.asks)

lemma late_run:
  "\<exists>s. steps check_step (limiter_start slow_config 0) (late_schedule ip) s
     \<and> lm_checks s 0 = Answered_with (Some Allowed) \<and> lm_checks s 2 = Answered_with (Some Allowed)"
proof -
  have e: "enabled_rate slow_config" by (simp add: enabled_rate_def slow)
  show ?thesis
    unfolding late_schedule_def limiter_start_def
    by (rule exI, rule conjI, rule steps_asks, simp, simp add: e rl_new_def,
      rule steps_asks, simp add: set_check_def, simp add: e rl_new_def,
      rule steps_asks, simp add: set_check_def, simp add: e rl_new_def,
      rule steps_section, simp add: set_check_def, simp only: set_check_def limiter_machine.simps, rule slow_first,
      rule steps_section, simp add: set_check_def, simp only: set_check_def limiter_machine.simps, rule slow_second,
      rule steps_section, simp add: set_check_def, simp only: set_check_def limiter_machine.simps, rule slow_third,
      rule steps.stop, simp add: set_check_def)
qed

section \<open>The rate of concurrent requests\<close>

text \<open>
  C16. The rate under concurrency: whatever the interleaving of the checks and of their two critical sections, and
  however late a request acts on the reading of the clock it made before it queued for the locks, an address is let
  through at most the burst, the rate times the length of the window, the rate times all the time by which readings
  stepped back from one section to the next, and \<open>2 ^ -17\<close> of a request for each section. The third term is what the
  order of \<open>Instant::now()\<close> and the locks costs: an older reading moves \<open>last_update\<close> back, and the time it moves over
  earns tokens a second time.
\<close>

theorem concurrent_rate:
  assumes "requests_per_second cfg = Fin r" "0 \<le> r" "refills_in_ttl cfg" "enabled_rate cfg" "0 < entry_ttl cfg"
    and "steps check_step (limiter_start cfg t0) ls s"
    and "t \<le> T" "\<forall>x \<in> set (section_times ls). x \<le> T" "T < 2 ^ 53 * 1000000000"
  shows "of_nat (count_labels (lets ip) ls)
     \<le> burst_of cfg + r * secs_of (T - t + set_back t (section_times ls)) + of_nat (length (section_times ls)) / 131072"
  using checks.limiter_bound [OF assms(1-6), of t0 t T ip] assms(7-9) by (simp add: check_clocks limiter_start_def)

lemma slow_rate:
  "requests_per_second slow_config = Fin 1" "0 \<le> (1::rat)" "refills_in_ttl slow_config"
  "enabled_rate slow_config" "0 < entry_ttl slow_config"
  using as_secs_whole [of 300] by (simp_all add: slow refills_in_ttl_def enabled_rate_def burst_of_def)

theorem concurrent_rate_witness:
  "\<exists>s. steps check_step (limiter_start slow_config 0) (late_schedule (V4 7)) s
     \<and> count_labels (lets (V4 7)) (late_schedule (V4 7)) = 2
     \<and> set_back (from_secs 10) (section_times (late_schedule (V4 7))) = from_secs 1
     \<and> of_nat (count_labels (lets (V4 7)) (late_schedule (V4 7)))
       \<le> burst_of slow_config + 1 * secs_of (from_secs 10 - from_secs 10
           + set_back (from_secs 10) (section_times (late_schedule (V4 7))))
         + of_nat (length (section_times (late_schedule (V4 7)))) / 131072"
proof -
  obtain s where s: "steps check_step (limiter_start slow_config 0) (late_schedule (V4 7)) s"
    using late_run by blast
  from concurrent_rate [OF slow_rate s, of "from_secs 10" "from_secs 10" "V4 7"] s show ?thesis
    by (auto simp: late_schedule_def)
qed

end
