(* ===== verification/Listener.thy ===== *)
theory Listener
  imports LimiterTasks NodeServer
begin

text \<open>
  The node's listener (\<open>madrpc-server/src/http_server.rs\<close>, \<open>HttpServer::run\<close>): binding, the
  loop that accepts connections and waits for a permit, and the tasks that serve them. The loop
  and the connections are participants of one step relation over the node and its limiter, in which
  the sections of a request's check of the limiter (\<open>LimiterTasks\<close>) are steps of their own; which
  client connects, what it sends and when it goes away are up to the environment.
\<close>

section \<open>State\<close>

definition MAX_CONCURRENT_CONNECTIONS :: nat where
  "MAX_CONCURRENT_CONNECTIONS = 1000"

text \<open>
  The loop awaits a connection, or has one and awaits a permit for it, or has returned an error.
  Nothing closes the semaphore, so acquiring a permit does not fail.
\<close>

datatype listener_phase = Accepting | Waiting nat ip_addr | Returned madrpc_error

text \<open>
  \<open>li_open\<close> are the connections that are served, each with its number and the address it comes
  from; each holds a permit. \<open>li_next\<close> numbers the connections. \<open>li_requests\<close> is where the request of a
  connection stands: HTTP/1 serves one at a time, and there is none while it is \<open>Unasked\<close>.
\<close>

record listener =
  li_phase :: listener_phase
  li_permits :: nat
  li_open :: "(nat \<times> ip_addr) list"
  li_next :: nat
  li_requests :: "nat \<Rightarrow> check_phase"
  li_server :: node_server

text \<open>
  Up to the loop: the result of \<open>bind\<close>, then that of \<open>local_addr\<close>, which is only read for the
  log, but whose failure ends the server as well.
\<close>

definition listener_start :: "string \<Rightarrow> string option \<Rightarrow> string option \<Rightarrow> node_server \<Rightarrow> listener" where
  "listener_start addr bind_error local_error s =
     \<lparr>li_phase = (case bind_error of
        Some e \<Rightarrow> Returned (Transport (''Failed to bind to '' @ addr @ '': '' @ e))
      | None \<Rightarrow> (case local_error of
          Some e \<Rightarrow> Returned (Transport (''Failed to get local address: '' @ e))
        | None \<Rightarrow> Accepting)),
      li_permits = MAX_CONCURRENT_CONNECTIONS, li_open = [], li_next = 0, li_requests = (\<lambda>_. Unasked), li_server = s\<rparr>"

section \<open>Steps\<close>

text \<open>A connection's task ends: its client or the transport closes it, or its handler panics. The permit is dropped with it.\<close>

definition close_connection :: "nat \<Rightarrow> listener \<Rightarrow> listener" where
  "close_connection c l = l\<lparr>li_open := filter (\<lambda>x. fst x \<noteq> c) (li_open l), li_permits := li_permits l + 1\<rparr>"

text \<open>The accept loop's \<open>spawn\<close>: the permit moves into the task.\<close>

definition spawn_connection :: "nat \<Rightarrow> ip_addr \<Rightarrow> listener \<Rightarrow> listener" where
  "spawn_connection c ip l = l\<lparr>li_phase := Accepting, li_permits := li_permits l - 1, li_open := li_open l @ [(c, ip)],
     li_requests := (li_requests l)(c := Unasked)\<rparr>"

text \<open>
  The checks of the connections are checks of one limiter: what they see of the listener, and the
  listener after one of their steps.
\<close>

definition limiter_view :: "listener \<Rightarrow> limiter_machine" where
  "limiter_view l = \<lparr>lm_limiter = sv_limiter (li_server l), lm_checks = li_requests l\<rparr>"

definition with_limiter :: "limiter_machine \<Rightarrow> listener \<Rightarrow> listener" where
  "with_limiter m l = l\<lparr>li_requests := lm_checks m, li_server := (li_server l)\<lparr>sv_limiter := lm_limiter m\<rparr>\<rparr>"

text \<open>
  The connection and the address that a step of a check is for, unless it panics; a client that goes away
  closes the connection.
\<close>

fun check_by :: "nat \<Rightarrow> ip_addr \<Rightarrow> check_label \<Rightarrow> bool" where
  "check_by c ip (Skips c' ip') = (c' = c \<and> ip' = ip)"
| "check_by c ip (Asks c' now ip') = (c' = c \<and> ip' = ip)"
| "check_by c ip (Cleans c' now) = (c' = c)"
| "check_by c ip (Consumes c' now ip' res) = (c' = c \<and> ip' = ip \<and> res \<noteq> None)"
| "check_by c ip (Leaves c') = False"

text \<open>
  A request is first the steps of its check; then the rest of its handler is one step, which touches the
  node's counters once, under their lock. A handler that exhausts the bounds of the model takes no step.
\<close>

datatype listen_label =
    Accepted ip_addr
  | AcceptFailed string
  | Spawned nat
  | Checked check_label
  | Served nat ip_addr http_reply
  | CheckPanicked nat instant ip_addr
  | Closed nat

inductive listen_step :: "serde \<Rightarrow> (json_rpc_error \<Rightarrow> string) \<Rightarrow> ('j, 'c, 'v, 'k) exec_env \<Rightarrow> string
    \<Rightarrow> listener \<Rightarrow> listen_label \<Rightarrow> listener \<Rightarrow> bool" for sd debug xe version where
  accepted: "li_phase l = Accepting
    \<Longrightarrow> listen_step sd debug xe version l (Accepted ip) (l\<lparr>li_phase := Waiting (li_next l) ip, li_next := li_next l + 1\<rparr>)"
| accept_failed: "li_phase l = Accepting
    \<Longrightarrow> listen_step sd debug xe version l (AcceptFailed e)
      (l\<lparr>li_phase := Returned (Transport (''Failed to accept connection: '' @ e))\<rparr>)"
| spawned: "li_phase l = Waiting c ip \<Longrightarrow> 0 < li_permits l
    \<Longrightarrow> listen_step sd debug xe version l (Spawned c) (spawn_connection c ip l)"
| checked: "(c, ip) \<in> set (li_open l) \<Longrightarrow> check_by c ip a \<Longrightarrow> check_step (limiter_view l) a m
    \<Longrightarrow> listen_step sd debug xe version l (Checked a) (with_limiter m l)"
| served: "(c, ip) \<in> set (li_open l) \<Longrightarrow> li_requests l c = Answered_with (Some result)
    \<Longrightarrow> server_judged sd debug xe version result is_post hs body (li_server l) = Finished (reply, s)
    \<Longrightarrow> listen_step sd debug xe version l (Served c ip reply) (l\<lparr>li_server := s, li_requests := (li_requests l)(c := Unasked)\<rparr>)"
| check_panicked: "(c, ip) \<in> set (li_open l) \<Longrightarrow> check_step (limiter_view l) (Consumes c now ip None) m
    \<Longrightarrow> listen_step sd debug xe version l (CheckPanicked c now ip) (close_connection c (with_limiter m l))"
| closed: "(c, ip) \<in> set (li_open l)
    \<Longrightarrow> listen_step sd debug xe version l (Closed c) (close_connection c l)"

inductive_cases listen_stepE [elim]: "listen_step sd debug xe version l a l'"

section \<open>Invariant\<close>

definition waiting :: "listener \<Rightarrow> nat" where
  "waiting l = (case li_phase l of Waiting c ip \<Rightarrow> 1 | _ \<Rightarrow> 0)"

text \<open>
  Every permit is free or held by a connection; the numbers of the connections are distinct and
  were given out; the connection that waits is not served yet.
\<close>

definition listener_ok :: "listener \<Rightarrow> bool" where
  "listener_ok l \<longleftrightarrow> li_permits l + length (li_open l) = MAX_CONCURRENT_CONNECTIONS \<and> wf_map (li_open l)
     \<and> (\<forall>c \<in> set (keys (li_open l)). c < li_next l)
     \<and> (\<forall>c ip. li_phase l = Waiting c ip \<longrightarrow> c < li_next l \<and> c \<notin> set (keys (li_open l)))"

lemma length_close:
  "wf_map m \<Longrightarrow> (c, v) \<in> set m \<Longrightarrow> Suc (length (filter (\<lambda>x. fst x \<noteq> c) m)) = length m"
proof (induction m)
  case (Cons x m)
  show ?case
  proof (cases "fst x = c")
    case True
    with Cons.prems(1) have "c \<notin> fst ` set m" by auto
    then have "filter (\<lambda>x. fst x \<noteq> c) m = m" by (intro filter_True) (metis image_eqI)
    with True show ?thesis by simp
  next
    case False
    with Cons show ?thesis by auto
  qed
qed simp

lemma listener_ok_close:
  assumes "listener_ok l" "(c, ip) \<in> set (li_open l)"
  shows "listener_ok (close_connection c l)"
  using assms length_close [of "li_open l" c ip] by (auto simp: listener_ok_def close_connection_def)

lemma listener_ok_served [simp]: "listener_ok (l\<lparr>li_server := s, li_requests := q\<rparr>) = listener_ok l"
  by (simp add: listener_ok_def)

lemma with_limiter_simps [simp]:
  "listener_ok (with_limiter m l) = listener_ok l" "li_open (with_limiter m l) = li_open l"
  "li_phase (with_limiter m l) = li_phase l" "li_permits (with_limiter m l) = li_permits l" "li_next (with_limiter m l) = li_next l"
  "li_requests (with_limiter m l) = lm_checks m" "sv_limiter (li_server (with_limiter m l)) = lm_limiter m"
  by (simp_all add: with_limiter_def listener_ok_def)

lemma listener_ok_step:
  assumes "listener_ok l" "listen_step sd debug xe version l a l'"
  shows "listener_ok l'"
  using assms(2)
proof cases
  case (accepted ip)
  with assms(1) show ?thesis by (auto simp: listener_ok_def)
next
  case (accept_failed e)
  with assms(1) show ?thesis by (auto simp: listener_ok_def)
next
  case (spawned c ip)
  with assms(1) show ?thesis by (auto simp: listener_ok_def spawn_connection_def)
next
  case (check_panicked c ip now m)
  with assms(1) listener_ok_close [of "with_limiter m l" c ip] show ?thesis by simp
next
  case (closed c ip)
  with assms(1) listener_ok_close show ?thesis by blast
qed (use assms(1) in simp_all)

interpretation listener: invariant_system "listen_step sd debug xe version" listener_ok
  for sd debug xe version
  by standard (rule listener_ok_step)

lemma listener_start_ok: "listener_ok (listener_start addr be le s)"
  by (simp add: listener_start_def listener_ok_def split: option.split)

text \<open>What a label does to the connections; the server behind them does not matter.\<close>

fun ends_connection :: "listen_label \<Rightarrow> bool" where
  "ends_connection (CheckPanicked c now ip) = True"
| "ends_connection (Closed c) = True"
| "ends_connection a = False"

fun starts_connection :: "listen_label \<Rightarrow> bool" where
  "starts_connection (Accepted ip) = True"
| "starts_connection a = False"

lemma conserved_step:
  assumes "listener_ok l" "listen_step sd debug xe version l a l'"
  shows "length (li_open l') + waiting l' + of_bool (ends_connection a)
    = length (li_open l) + waiting l + of_bool (starts_connection a)"
  using assms(2)
proof cases
  case (check_panicked c ip now m)
  with assms(1) length_close [of "li_open l" c ip] show ?thesis
    by (simp add: close_connection_def waiting_def listener_ok_def)
next
  case (closed c ip)
  with assms(1) length_close [of "li_open l" c ip] show ?thesis
    by (simp add: close_connection_def waiting_def listener_ok_def)
qed (simp_all add: waiting_def spawn_connection_def)

lemma conserved_run:
  "steps (listen_step sd debug xe version) l ls l' \<Longrightarrow> listener_ok l \<Longrightarrow>
   length (li_open l') + waiting l' + count_labels ends_connection ls
    = length (li_open l) + waiting l + count_labels starts_connection ls"
proof (induction rule: steps.induct)
  case (then_ l a l1 ls l')
  from conserved_step [OF then_.prems then_.hyps(1)] then_.IH listener_ok_step [OF then_.prems then_.hyps(1)]
  show ?case by simp
qed simp

lemma full_step:
  assumes "listen_step sd debug xe version l a l'" "li_permits l = 0" "\<not> ends_connection a"
  shows "li_permits l' = 0 \<and> li_open l' = li_open l \<and> waiting l + of_bool (starts_connection a) \<le> waiting l'
    \<or> (\<exists>e. li_phase l' = Returned e)"
  using assms by cases (auto simp: waiting_def)

lemma returned_step:
  assumes "listen_step sd debug xe version l a l'" "li_phase l = Returned e"
  shows "li_phase l' = Returned e \<and> set (li_open l') \<subseteq> set (li_open l) \<and> \<not> starts_connection a"
  using assms by cases (auto simp: close_connection_def)

lemma returned_run:
  "steps (listen_step sd debug xe version) l ls l' \<Longrightarrow> li_phase l = Returned e
   \<Longrightarrow> li_phase l' = Returned e \<and> set (li_open l') \<subseteq> set (li_open l) \<and> count_labels starts_connection ls = 0"
  by (induction rule: steps.induct) (auto dest: returned_step)

lemma full_run:
  "steps (listen_step sd debug xe version) l ls l' \<Longrightarrow> li_permits l = 0 \<Longrightarrow> count_labels ends_connection ls = 0
   \<Longrightarrow> li_open l' = li_open l \<and> count_labels starts_connection ls + waiting l \<le> 1"
proof (induction rule: steps.induct)
  case (stop l)
  then show ?case by (simp add: waiting_def split: listener_phase.split)
next
  case (then_ l a l1 ls l')
  then have e: "\<not> ends_connection a" "count_labels ends_connection ls = 0" by auto
  from then_.hyps(1) show ?case
  proof cases
    case (accept_failed e)
    with returned_run [OF then_.hyps(2)] then_.IH then_.prems e show ?thesis by (auto simp: waiting_def)
  qed (use then_.IH then_.prems e in \<open>auto simp: waiting_def\<close>)
qed

text \<open>The steps of the accept loop: there are none once it has returned.\<close>

fun of_loop :: "listen_label \<Rightarrow> bool" where
  "of_loop (Accepted ip) = True"
| "of_loop (AcceptFailed e) = True"
| "of_loop (Spawned c) = True"
| "of_loop a = False"

lemma returned_loop:
  "steps (listen_step sd debug xe version) l ls l' \<Longrightarrow> li_phase l = Returned e
   \<Longrightarrow> li_phase l' = Returned e \<and> (\<forall>a \<in> set ls. \<not> of_loop a)"
proof (induction rule: steps.induct)
  case (then_ l a l1 ls l')
  from then_.hyps(1) then_.prems have "li_phase l1 = Returned e \<and> \<not> of_loop a"
    by cases (auto simp: close_connection_def)
  with then_.IH show ?case by simp
qed simp

text \<open>The first failed accept ends the loop; without one it goes on.\<close>

lemma running_step:
  assumes "listen_step sd debug xe version l a l'" "\<forall>e. li_phase l \<noteq> Returned e"
  shows "(\<exists>msg. a = AcceptFailed msg \<and> li_phase l' = Returned (Transport (''Failed to accept connection: '' @ msg)))
    \<or> (\<forall>msg. a \<noteq> AcceptFailed msg) \<and> (\<forall>e. li_phase l' \<noteq> Returned e)"
  using assms by cases (auto simp: close_connection_def spawn_connection_def)

lemma running_run:
  "steps (listen_step sd debug xe version) l ls l' \<Longrightarrow> \<forall>e. li_phase l \<noteq> Returned e
   \<Longrightarrow> (\<forall>msg. AcceptFailed msg \<notin> set ls) \<and> (\<forall>e. li_phase l' \<noteq> Returned e)
     \<or> (\<exists>ls1 msg ls2. ls = ls1 @ AcceptFailed msg # ls2 \<and> (\<forall>msg. AcceptFailed msg \<notin> set ls1)
         \<and> li_phase l' = Returned (Transport (''Failed to accept connection: '' @ msg)) \<and> (\<forall>a \<in> set ls2. \<not> of_loop a))"
proof (induction rule: steps.induct)
  case (then_ l a l1 ls l')
  from running_step [OF then_.hyps(1) then_.prems] show ?case
  proof (elim disjE exE conjE)
    fix msg assume a: "a = AcceptFailed msg" "li_phase l1 = Returned (Transport (''Failed to accept connection: '' @ msg))"
    with returned_loop [OF then_.hyps(2) a(2)] show ?thesis
      by (intro disjI2 exI [of _ "[]"] exI [of _ msg] exI [of _ ls]) simp
  next
    assume a: "\<forall>msg. a \<noteq> AcceptFailed msg" "\<forall>e. li_phase l1 \<noteq> Returned e"
    from then_.IH [OF a(2)] show ?thesis
    proof (elim disjE exE conjE)
      fix ls1 msg ls2 assume "ls = ls1 @ AcceptFailed msg # ls2" "\<forall>msg. AcceptFailed msg \<notin> set ls1"
        "li_phase l' = Returned (Transport (''Failed to accept connection: '' @ msg))" "\<forall>a \<in> set ls2. \<not> of_loop a"
      with a(1) show ?thesis by (intro disjI2 exI [of _ "a # ls1"] exI [of _ msg] exI [of _ ls2]) auto
    qed (use a(1) in auto)
  qed
qed simp

section \<open>The limiter behind the connections\<close>

text \<open>The section of the limiter that a label is, and the answers to an address other than the limiter's refusal.\<close>

fun listen_section :: "listen_label \<Rightarrow> limiter_section option" where
  "listen_section (Checked a) = check_section a"
| "listen_section (CheckPanicked c now ip) = Some (BucketSection now ip None)"
| "listen_section a = None"

fun listen_lets :: "ip_addr \<Rightarrow> listen_label \<Rightarrow> bool" where
  "listen_lets ip (Checked a) = lets ip a"
| "listen_lets ip a = False"

fun let_through :: "ip_addr \<Rightarrow> listen_label \<Rightarrow> bool" where
  "let_through ip (Served c ip' reply) = (ip' = ip \<and> reply_status reply \<noteq> 429)"
| "let_through ip a = False"

lemma listen_moves:
  assumes "listen_step sd debug xe version l a l'"
  shows "case listen_section a of None \<Rightarrow> sv_limiter (li_server l') = sv_limiter (li_server l)
    | Some x \<Rightarrow> section_moves x (sv_limiter (li_server l)) (sv_limiter (li_server l'))"
  using assms
proof cases
  case (checked c ip b m)
  with check_moves [OF checked(5)] show ?thesis by (simp add: limiter_view_def split: option.splits)
next
  case (served c ip result is_post hs body reply s)
  with judged_reply [OF served(5)] show ?thesis by simp
next
  case (check_panicked c ip now m)
  with check_moves [OF check_panicked(4)] show ?thesis by (simp add: limiter_view_def close_connection_def)
qed (simp_all add: spawn_connection_def close_connection_def)

lemma listen_grants:
  assumes "listen_step sd debug xe version l a l'" "enabled_rate (rl_config (sv_limiter (li_server l)))" "listen_lets ip a"
  shows "\<exists>x. listen_section a = Some x \<and> grants ip x"
  using assms(1)
proof cases
  case (checked c ip' b m)
  with check_grants [OF checked(5)] assms(2,3) show ?thesis by (simp add: limiter_view_def)
qed (use assms(3) in simp_all)

interpretation limited: limited_tasks "listen_step sd debug xe version" "\<lambda>l. sv_limiter (li_server l)" listen_section listen_lets
  for sd debug xe version
  by standard (rule listen_moves, assumption, rule listen_grants)

text \<open>The connections of an address whose request was let through and is not answered yet.\<close>

definition owed :: "ip_addr \<Rightarrow> listener \<Rightarrow> nat set" where
  "owed ip l = {c. (c, ip) \<in> set (li_open l) \<and> li_requests l c = Answered_with (Some Allowed)}"

lemma finite_owed [simp]: "finite (owed ip l)"
proof -
  have "owed ip l \<subseteq> fst ` set (li_open l)" by (force simp: owed_def)
  then show ?thesis by (rule finite_subset) simp
qed

lemma card_owed: "owed ip l \<subseteq> owed ip l' \<Longrightarrow> card (owed ip l) \<le> card (owed ip l')"
  by (rule card_mono [OF finite_owed])

lemma same_address: "listener_ok l \<Longrightarrow> (c, ip) \<in> set (li_open l) \<Longrightarrow> (c, ip') \<in> set (li_open l) \<Longrightarrow> ip' = ip"
  by (auto simp: listener_ok_def intro: eq_key_imp_eq_value)

lemma owed_checked:
  assumes "listener_ok l" "(c, ip') \<in> set (li_open l)" "check_by c ip' a" "check_step (limiter_view l) a m"
  shows "card (owed ip (with_limiter m l)) \<le> card (owed ip l) + of_bool (lets ip a)"
proof -
  have "owed ip (with_limiter m l) \<subseteq> (if lets ip a then insert c (owed ip l) else owed ip l)"
    using assms(4,3) same_address [OF assms(1,2)]
    by cases (auto simp: owed_def limiter_view_def set_check_def split: if_splits)
  then have "card (owed ip (with_limiter m l)) \<le> card (if lets ip a then insert c (owed ip l) else owed ip l)"
    by (intro card_mono) simp_all
  also have "\<dots> \<le> card (owed ip l) + of_bool (lets ip a)" by (simp add: card_insert_if)
  finally show ?thesis .
qed

lemma owed_step:
  assumes "listener_ok l" "listen_step sd debug xe version l a l'"
  shows "of_bool (let_through ip a) + card (owed ip l') \<le> card (owed ip l) + of_bool (listen_lets ip a)"
  using assms(2)
proof cases
  case (checked c ip' b m)
  with owed_checked [OF assms(1)] show ?thesis by simp
next
  case (served c ip' result is_post hs body reply s)
  show ?thesis
  proof (cases "ip' = ip \<and> result = Allowed")
    case True
    then have c: "c \<in> owed ip l" using served(3,4) by (simp add: owed_def)
    have "owed ip l' \<subseteq> owed ip l - {c}" by (auto simp: owed_def served(2) split: if_splits)
    then have "card (owed ip l') \<le> card (owed ip l - {c})" by (intro card_mono) simp_all
    moreover have "Suc (card (owed ip l - {c})) = card (owed ip l)" using c by (intro card_Suc_Diff1) simp_all
    ultimately show ?thesis using served by (auto simp: of_bool_def)
  next
    case False
    then have "\<not> let_through ip a" using judged_reply [OF served(5)] served(1) by auto
    moreover have "card (owed ip l') \<le> card (owed ip l)"
      by (rule card_owed) (auto simp: owed_def served(2) split: if_splits)
    ultimately show ?thesis by simp
  qed
next
  case (check_panicked c ip' now m)
  have "owed ip l' \<subseteq> owed ip l" using check_panicked(4)
    by cases (auto simp: owed_def check_panicked(2) close_connection_def limiter_view_def set_check_def with_limiter_def split: if_splits)
  then have "card (owed ip l') \<le> card (owed ip l)" by (rule card_owed)
  then show ?thesis by (simp add: check_panicked(1))
next
  case (spawned c ip')
  have "card (owed ip l') \<le> card (owed ip l)"
    by (rule card_owed) (auto simp: owed_def spawned(2) spawn_connection_def split: if_splits)
  then show ?thesis by (simp add: spawned(1))
next
  case (closed c ip')
  have "card (owed ip l') \<le> card (owed ip l)"
    by (rule card_owed) (auto simp: owed_def closed(2) close_connection_def)
  then show ?thesis by (simp add: closed(1))
qed (simp_all add: owed_def)

lemma answers_let:
  "steps (listen_step sd debug xe version) l ls l' \<Longrightarrow> listener_ok l
   \<Longrightarrow> count_labels (let_through ip) ls + card (owed ip l') \<le> card (owed ip l) + count_labels (listen_lets ip) ls"
proof (induction rule: steps.induct)
  case (then_ l a l1 ls l')
  from owed_step [OF then_.prems then_.hyps(1), of ip] then_.IH [OF listener_ok_step [OF then_.prems then_.hyps(1)]]
  show ?case by simp
qed simp

section \<open>Properties\<close>

text \<open>
  C19. The number of connections is bounded: in every reachable state of the listener at most 1000
  connections are served, each with a number and a permit of its own, and at most one more has been accepted
  and waits; and no connection is lost, since those accepted are the ones served, waiting
  and ended.
\<close>

theorem connections_bounded:
  assumes "steps (listen_step sd debug xe version) (listener_start addr bind_error local_error s) ls l"
  shows "length (li_open l) \<le> 1000 \<and> li_permits l + length (li_open l) = 1000 \<and> distinct (keys (li_open l)) \<and> waiting l \<le> 1
    \<and> count_labels starts_connection ls = length (li_open l) + waiting l + count_labels ends_connection ls"
proof -
  have "listener_ok l" using listener.steps_inv [OF assms listener_start_ok] .
  moreover have "waiting l \<le> 1" by (simp add: waiting_def split: listener_phase.split)
  moreover have "length (li_open (listener_start addr bind_error local_error s)) = 0"
    "waiting (listener_start addr bind_error local_error s) = 0"
    by (simp_all add: listener_start_def waiting_def split: option.split)
  ultimately show ?thesis using conserved_run [OF assms listener_start_ok]
    by (simp add: listener_ok_def MAX_CONCURRENT_CONNECTIONS_def)
qed

theorem connections_bounded_witness:
  "\<exists>l. steps (listen_step mute_serde err_message (bare_env None) ''1'') (listener_start ''h:1'' None None (server_new 0 bare_node))
       [Accepted (V4 1), Spawned 0, Accepted (V4 2), Closed 0] l
     \<and> length (li_open l) + waiting l = 1"
proof -
  let ?l = "listener_start ''h:1'' None None (server_new 0 bare_node)"
  have "\<exists>l. steps (listen_step mute_serde err_message (bare_env None) ''1'') ?l
      [Accepted (V4 1), Spawned 0, Accepted (V4 2), Closed 0] l"
    by (rule exI, rule steps.then_, rule listen_step.accepted, simp add: listener_start_def,
        rule steps.then_, rule listen_step.spawned [where ip = "V4 1"],
        simp add: listener_start_def, simp add: listener_start_def MAX_CONCURRENT_CONNECTIONS_def,
        rule steps.then_, rule listen_step.accepted, simp add: spawn_connection_def,
        rule steps.then_, rule listen_step.closed [where ip = "V4 1"],
        simp add: listener_start_def spawn_connection_def, rule steps.stop)
  then obtain l where run: "steps (listen_step mute_serde err_message (bare_env None) ''1'') ?l
      [Accepted (V4 1), Spawned 0, Accepted (V4 2), Closed 0] l" by blast
  from connections_bounded [OF run] run show ?thesis by (intro exI [of _ l]) simp
qed

text \<open>
  A full listener serves nobody else: with no permit left, and until a connection ends, the
  connections served stay the same ones, at most one more is accepted and it is not served,
  whatever clients do; connections that are held open without a request keep everybody out.
\<close>

theorem full_listener_waits:
  assumes "steps (listen_step sd debug xe version) l ls l'" "li_permits l = 0" "count_labels ends_connection ls = 0"
  shows "li_open l' = li_open l \<and> count_labels starts_connection ls + waiting l \<le> 1"
  using assms by (rule full_run)

definition full_listener :: listener where
  "full_listener = (listener_start ''h:1'' None None (server_new 0 bare_node))
     \<lparr>li_permits := 0, li_open := map (\<lambda>c. (c, V4 1)) [0..<1000], li_next := 1000\<rparr>"

theorem full_listener_waits_witness:
  "\<exists>l. steps (listen_step mute_serde err_message (bare_env None) ''1'') full_listener [Accepted (V4 2)] l
     \<and> li_open l = li_open full_listener"
proof -
  have "listen_step mute_serde err_message (bare_env None) ''1'' full_listener (Accepted (V4 2))
      (full_listener\<lparr>li_phase := Waiting (li_next full_listener) (V4 2), li_next := li_next full_listener + 1\<rparr>)"
    by (rule listen_step.accepted) (simp add: full_listener_def listener_start_def)
  then obtain l where run: "steps (listen_step mute_serde err_message (bare_env None) ''1'') full_listener [Accepted (V4 2)] l"
    by (auto simp: steps_Cons)
  from full_listener_waits [OF run] run show ?thesis by (intro exI [of _ l]) (simp add: full_listener_def)
qed

text \<open>
  C38. One failed accept ends the server. When binding or reading the local address fails, \<open>run\<close> returns at once
  with an error that tells which. Otherwise it returns at the first failed \<open>accept\<close>, with its error, and not
  before; from then on the loop takes no step, so nobody is accepted any more, while connections that are
  served go on.
\<close>

theorem accept_error_final:
  assumes "steps (listen_step sd debug xe version) (listener_start addr bind_error local_error s) ls l"
  shows "case (bind_error, local_error) of
      (Some msg, _) \<Rightarrow> li_phase l = Returned (Transport (''Failed to bind to '' @ addr @ '': '' @ msg)) \<and> ls = []
    | (None, Some msg) \<Rightarrow> li_phase l = Returned (Transport (''Failed to get local address: '' @ msg)) \<and> ls = []
    | (None, None) \<Rightarrow> (\<forall>msg. AcceptFailed msg \<notin> set ls) \<and> (\<forall>e. li_phase l \<noteq> Returned e)
        \<or> (\<exists>ls1 msg ls2. ls = ls1 @ AcceptFailed msg # ls2 \<and> (\<forall>msg. AcceptFailed msg \<notin> set ls1)
            \<and> li_phase l = Returned (Transport (''Failed to accept connection: '' @ msg)) \<and> (\<forall>a \<in> set ls2. \<not> of_loop a))"
proof (cases "bind_error = None \<and> local_error = None")
  case True
  with running_run [OF assms] show ?thesis by (simp add: listener_start_def)
next
  case False
  have stuck: "\<not> listen_step sd debug xe version (listener_start addr bind_error local_error s) a l'" for a l'
    using False by (auto simp: listener_start_def split: option.splits)
  from assms have "ls = []" "l = listener_start addr bind_error local_error s"
    by (cases rule: steps.cases, simp_all add: stuck)+
  with False show ?thesis by (auto simp: listener_start_def split: option.splits)
qed

theorem accept_error_final_witness:
  "\<exists>l. steps (listen_step mute_serde err_message (bare_env None) ''1'') (listener_start ''h:1'' None None (server_new 0 bare_node))
       [Accepted (V4 1), Spawned 0, AcceptFailed ''aborted'', Closed 0] l
     \<and> li_phase l = Returned (Transport ''Failed to accept connection: aborted'')"
proof -
  let ?ls = "[Accepted (V4 1), Spawned 0, AcceptFailed ''aborted'', Closed 0]"
  let ?l = "listener_start ''h:1'' None None (server_new 0 bare_node)"
  have "\<exists>l. steps (listen_step mute_serde err_message (bare_env None) ''1'') ?l ?ls l"
    by (rule exI, rule steps.then_, rule listen_step.accepted, simp add: listener_start_def,
        rule steps.then_, rule listen_step.spawned [where ip = "V4 1"],
        simp add: listener_start_def, simp add: listener_start_def MAX_CONCURRENT_CONNECTIONS_def,
        rule steps.then_, rule listen_step.accept_failed, simp add: spawn_connection_def,
        rule steps.then_, rule listen_step.closed [where ip = "V4 1"],
        simp add: listener_start_def spawn_connection_def, rule steps.stop)
  then obtain l where run: "steps (listen_step mute_serde err_message (bare_env None) ''1'') ?l ?ls l" by blast
  from accept_error_final [OF run] obtain ls1 msg ls2 where
    a: "?ls = ls1 @ AcceptFailed msg # ls2" "li_phase l = Returned (Transport (''Failed to accept connection: '' @ msg))"
    by auto
  have "AcceptFailed msg \<in> set ?ls" unfolding a(1) by simp
  with a(2) run show ?thesis by (intro exI [of _ l]) simp
qed

text \<open>
  C17. Connections buy nobody a higher rate. With a rate limit set, and whatever the interleaving of the connections,
  the answers other than 429 that an address gets on all its connections together are at most: the burst
  size, the rate times the length of the window, the rate times all the time by which the readings of the
  clock step back from one section of the limiter to the next, and \<open>2 ^ -17\<close> for each section. (A request
  reads the clock before it queues for the locks, so on concurrent connections older readings may come
  later; readings in order step back by nothing.)
\<close>

theorem connections_share_budget:
  assumes "steps (listen_step sd debug xe version) (listener_start addr bind_error local_error s) ls l"
    and "sv_limiter s = rl_new cfg t0"
    and "requests_per_second cfg = Fin r" "0 \<le> r" "refills_in_ttl cfg" "enabled_rate cfg" "0 < entry_ttl cfg"
    and "t \<le> T" "\<forall>x \<in> set (clocks listen_section ls). x \<le> T" "T < 2 ^ 53 * 1000000000"
  shows "of_nat (count_labels (let_through ip) ls)
     \<le> burst_of cfg + r * secs_of (T - t + set_back t (clocks listen_section ls)) + of_nat (length (clocks listen_section ls)) / 131072"
proof -
  have start: "sv_limiter (li_server (listener_start addr bind_error local_error s)) = rl_new cfg t0"
    using assms(2) by (simp add: listener_start_def)
  have "owed ip (listener_start addr bind_error local_error s) = {}" by (simp add: owed_def listener_start_def)
  with answers_let [OF assms(1) listener_start_ok, of ip] have "count_labels (let_through ip) ls \<le> count_labels (listen_lets ip) ls" by simp
  then have "(of_nat (count_labels (let_through ip) ls) :: rat) \<le> of_nat (count_labels (listen_lets ip) ls)" by (rule of_nat_mono)
  with limited.limiter_bound [OF assms(3-7,1) start assms(8-10), of ip] show ?thesis by linarith
qed

text \<open>
  Three connections of one address on the schedule of \<open>late_schedule\<close>: two are answered although the burst is
  one and no time has passed, since a reading of the third steps back by a second.
\<close>

lemma lift_checks:
  "steps check_step (limiter_view l) as m \<Longrightarrow> \<forall>a \<in> set as. \<exists>c ip. (c, ip) \<in> set (li_open l) \<and> check_by c ip a
   \<Longrightarrow> steps (listen_step sd debug xe version) l (map Checked as) (with_limiter m l)"
proof (induction as arbitrary: l)
  case Nil
  then show ?case by (simp add: with_limiter_def limiter_view_def)
next
  case (Cons a as)
  from Cons.prems(1) obtain m1 where m1: "check_step (limiter_view l) a m1" "steps check_step m1 as m" by (auto simp: steps_Cons)
  from Cons.prems(2) obtain c ip where c: "(c, ip) \<in> set (li_open l)" "check_by c ip a" by auto
  have v: "limiter_view (with_limiter m1 l) = m1" "with_limiter m (with_limiter m1 l) = with_limiter m l"
    by (simp_all add: limiter_view_def with_limiter_def)
  from Cons.IH [of "with_limiter m1 l"] m1(2) Cons.prems(2)
  have "steps (listen_step sd debug xe version) (with_limiter m1 l) (map Checked as) (with_limiter m l)" by (simp add: v)
  from steps.then_ [OF listen_step.checked [OF c m1(1)] this] show ?case by simp
qed

definition three_labels :: "listen_label list" where
  "three_labels = [Accepted (V4 7), Spawned 0, Accepted (V4 7), Spawned 1, Accepted (V4 7), Spawned 2]"

definition three_connections :: listener where
  "three_connections = (listener_start ''h:1'' None None (server_with_rate_limit 0 slow_config (server_new 0 bare_node)))
     \<lparr>li_permits := 997, li_open := [(0, V4 7), (1, V4 7), (2, V4 7)], li_next := 3\<rparr>"

lemma three_open:
  "steps (listen_step sd debug xe version) (listener_start ''h:1'' None None (server_with_rate_limit 0 slow_config (server_new 0 bare_node)))
     three_labels three_connections"
proof -
  let ?l = "listener_start ''h:1'' None None (server_with_rate_limit 0 slow_config (server_new 0 bare_node))"
  have "\<exists>l. steps (listen_step sd debug xe version) ?l three_labels l \<and> l = three_connections"
    unfolding three_labels_def
    by (rule exI, rule conjI,
        rule steps.then_, rule listen_step.accepted, simp add: listener_start_def,
        rule steps.then_, rule listen_step.spawned [where ip = "V4 7"],
        simp add: listener_start_def, simp add: listener_start_def MAX_CONCURRENT_CONNECTIONS_def,
        rule steps.then_, rule listen_step.accepted, simp add: spawn_connection_def,
        rule steps.then_, rule listen_step.spawned [where ip = "V4 7"],
        simp add: listener_start_def spawn_connection_def, simp add: listener_start_def spawn_connection_def MAX_CONCURRENT_CONNECTIONS_def,
        rule steps.then_, rule listen_step.accepted, simp add: spawn_connection_def,
        rule steps.then_, rule listen_step.spawned [where ip = "V4 7"],
        simp add: listener_start_def spawn_connection_def, simp add: listener_start_def spawn_connection_def MAX_CONCURRENT_CONNECTIONS_def,
        rule steps.stop,
        simp add: listener_start_def spawn_connection_def three_connections_def MAX_CONCURRENT_CONNECTIONS_def fun_upd_idem)
  then show ?thesis by simp
qed

theorem connections_share_budget_witness:
  "\<exists>l reply. let ls = three_labels @ map Checked (late_schedule (V4 7)) @ [Served 0 (V4 7) reply, Served 2 (V4 7) reply] in
     steps (listen_step mute_serde err_message (bare_env None) ''1'')
       (listener_start ''h:1'' None None (server_with_rate_limit 0 slow_config (server_new 0 bare_node))) ls l
     \<and> count_labels (let_through (V4 7)) ls = 2 \<and> set_back (from_secs 10) (clocks listen_section ls) = from_secs 1
     \<and> of_nat (count_labels (let_through (V4 7)) ls) \<le> burst_of slow_config
         + 1 * secs_of (from_secs 10 - from_secs 10 + set_back (from_secs 10) (clocks listen_section ls))
         + of_nat (length (clocks listen_section ls)) / 131072"
proof -
  let ?step = "listen_step mute_serde err_message (bare_env None) ''1''"
  let ?reply = "to_http_error mute_serde JNull invalid_request"
  let ?served = "[Served 0 (V4 7) ?reply, Served 2 (V4 7) ?reply]"
  let ?ls = "three_labels @ map Checked (late_schedule (V4 7)) @ ?served"
  obtain m where m: "steps check_step (limiter_start slow_config 0) (late_schedule (V4 7)) m"
    "lm_checks m 0 = Answered_with (Some Allowed)" "lm_checks m 2 = Answered_with (Some Allowed)" using late_run by blast
  have view: "limiter_view three_connections = limiter_start slow_config 0"
    by (simp add: limiter_view_def three_connections_def limiter_start_def listener_start_def server_with_rate_limit_def)
  have checks: "steps ?step three_connections (map Checked (late_schedule (V4 7))) (with_limiter m three_connections)"
    by (rule lift_checks) (use m(1) view in \<open>auto simp: late_schedule_def three_connections_def\<close>)
  let ?s = "li_server (with_limiter m three_connections)"
  have judged: "server_judged mute_serde err_message (bare_env None) ''1'' Allowed False [] (Inr ''x'') ?s = Finished (?reply, ?s)"
    by (simp add: server_judged_def allowed_iff with_limiter_def three_connections_def listener_start_def server_with_rate_limit_def
        server_new_def default_auth_def auth_disabled_def requires_auth_def)
  have "\<exists>l. steps ?step (with_limiter m three_connections) ?served l"
    by (rule exI, rule steps.then_, rule listen_step.served [where result = Allowed], simp add: three_connections_def, simp add: m(2),
        rule judged, rule steps.then_, rule listen_step.served [where result = Allowed], simp add: three_connections_def, simp add: m(3),
        simp, rule judged, rule steps.stop)
  then obtain l where served: "steps ?step (with_limiter m three_connections) ?served l" by blast
  have run: "steps ?step (listener_start ''h:1'' None None (server_with_rate_limit 0 slow_config (server_new 0 bare_node))) ?ls l"
    unfolding steps_append by (intro exI conjI, rule three_open, rule checks, rule served)
  have limiter: "sv_limiter (server_with_rate_limit 0 slow_config (server_new 0 bare_node)) = rl_new slow_config 0"
    by (simp add: server_with_rate_limit_def)
  have ls: "clocks listen_section ?ls = [from_secs 10, from_secs 10, from_secs 9, from_secs 9, from_secs 10, from_secs 10]"
    "count_labels (let_through (V4 7)) ?ls = 2"
    by (simp_all add: three_labels_def late_schedule_def to_http_error_def to_http_response_def)
  from connections_share_budget [OF run limiter slow_rate, of "from_secs 10" "from_secs 10" "V4 7"] run show ?thesis
    unfolding Let_def by (intro exI [of _ l] exI [of _ ?reply]) (simp add: ls)
qed

end
