(* ===== verification/Conversions.thy ===== *)
theory Conversions
  imports Runtime
begin

text \<open>
  What a value keeps on its way into a script and back (\<open>madrpc-server/src/runtime/conversions.rs\<close>, whose
  two functions are in \<open>Runtime\<close>). The engine's part is a set of laws, those of ECMAScript for fresh arrays and
  objects with data properties only; they are about a view of the engine's state that shows the contents
  of its arrays and objects.
\<close>

section \<open>The order of keys\<close>

lemma bytes_less_irrefl [simp]: "\<not> bytes_less xs xs"
  by (induction xs) auto

lemma bytes_less_trans: "bytes_less xs ys \<Longrightarrow> bytes_less ys zs \<Longrightarrow> bytes_less xs zs"
proof (induction xs ys arbitrary: zs rule: bytes_less.induct)
  case (2 y ys)
  then show ?case by (cases zs) auto
next
  case (3 x xs y ys)
  then show ?case by (cases zs) auto
qed simp

lemma bytes_less_total: "xs \<noteq> ys \<Longrightarrow> \<not> bytes_less xs ys \<Longrightarrow> bytes_less ys xs"
proof (induction xs ys rule: bytes_less.induct)
  case (1 xs)
  then show ?case by (cases xs) auto
next
  case (3 x xs y ys)
  show ?case
  proof (cases "x = y")
    case False
    then have "(of_char x :: nat) < of_char y \<or> (of_char y :: nat) < of_char x"
      by (metis linorder_neqE_nat of_char_eq_iff)
    with 3(3) show ?thesis by auto
  qed (use 3 in auto)
qed simp

abbreviation key_sorted :: "(string \<times> 'a) list \<Rightarrow> bool" where
  "key_sorted fs \<equiv> sorted_wrt bytes_less (map fst fs)"

lemma map_of_json_insert [simp]: "map_of (json_insert k v fs) = (map_of fs)(k \<mapsto> v)"
  by (induction k v fs rule: json_insert.induct) (auto simp: fun_eq_iff)

lemma keys_json_insert [simp]: "set (map fst (json_insert k v fs)) = insert k (set (map fst fs))"
  by (induction k v fs rule: json_insert.induct) auto

lemma key_sorted_insert: "key_sorted fs \<Longrightarrow> key_sorted (json_insert k v fs)"
proof (induction k v fs rule: json_insert.induct)
  case (2 k v k' v' fs)
  consider "k = k'" | "k \<noteq> k'" "bytes_less k k'" | "k \<noteq> k'" "\<not> bytes_less k k'" "bytes_less k' k"
    using bytes_less_total by blast
  then show ?case
  proof cases
    case 2
    with "2.prems" show ?thesis using bytes_less_trans by fastforce
  next
    case 3
    with 2 have s: "key_sorted (json_insert k v fs)" by simp
    have "\<forall>x \<in> set (map fst (json_insert k v fs)). bytes_less k' x"
      using 3 "2.prems" by (simp only: keys_json_insert) simp
    with 3 s show ?thesis by simp
  qed (use "2.prems" in simp)
qed simp

lemma key_sorted_distinct: "key_sorted fs \<Longrightarrow> distinct (map fst fs)"
  by (induction fs) force+

lemma key_sorted_unique:
  assumes "key_sorted fs" "key_sorted gs" "map_of fs = map_of gs"
  shows "fs = gs"
  using assms
proof (induction fs arbitrary: gs)
  case Nil
  then show ?case by (metis map_of.simps(1) map_of_eq_empty_iff)
next
  case (Cons p fs)
  have head: "bytes_less (fst p) (fst q)" if "q \<in> set gs'" "key_sorted (p # gs')" for p q :: "string \<times> 'a" and gs'
    using that by simp
  have "gs \<noteq> []" using Cons.prems(3) by (cases p) (metis fun_upd_same map_of.simps option.distinct(1))
  then obtain q gs' where gs: "gs = q # gs'" by (cases gs) auto
  have mem: "q \<in> set (p # fs)" "p \<in> set (q # gs')"
    using Cons.prems key_sorted_distinct [OF Cons.prems(1)] key_sorted_distinct [OF Cons.prems(2)]
    by (metis gs list.set_intros(1) map_of_eq_Some_iff prod.collapse)+
  have "p = q"
  proof (rule ccontr)
    assume "p \<noteq> q"
    then have "bytes_less (fst p) (fst q)" "bytes_less (fst q) (fst p)"
      using mem head Cons.prems(1,2) by (auto simp: gs)
    then show False using bytes_less_trans bytes_less_irrefl by blast
  qed
  moreover have "map_of fs = map_of gs'"
  proof
    fix k
    show "map_of fs k = map_of gs' k"
    proof (cases "k = fst p")
      case True
      have "fst p \<notin> set (map fst fs)" "fst p \<notin> set (map fst gs')"
        using key_sorted_distinct [OF Cons.prems(1)] key_sorted_distinct [OF Cons.prems(2)] \<open>p = q\<close> by (simp_all add: gs)
      then show ?thesis using True by (simp add: map_of_eq_None_iff [THEN iffD2])
    next
      case False
      then show ?thesis using fun_cong [OF Cons.prems(3), of k] \<open>p = q\<close> by (cases q) (auto simp: gs)
    qed
  qed
  ultimately show ?case using Cons.IH [of gs'] Cons.prems(1,2) by (simp add: gs)
qed

section \<open>The engine's laws\<close>

datatype 'v js_object = Elements "'v list" | Members "string \<Rightarrow> 'v option"

text \<open>
  Values that are not objects. A number made from a float is read as that number, and as an integer only if
  it is one; a text is read back if it is one a Rust string can hold (\<open>valid\<close>).
\<close>

definition scalar_laws :: "('s, 'v, 'k) boa \<Rightarrow> (string \<Rightarrow> bool) \<Rightarrow> bool" where
  "scalar_laws b valid \<longleftrightarrow> (boa_is_undefined b (boa_null b) \<or> boa_is_null b (boa_null b))
     \<and> (\<forall>x. let v = boa_bool b x in \<not> boa_is_undefined b v \<and> \<not> boa_is_null b v \<and> boa_as_boolean b v = Some x)
     \<and> (\<forall>x. let v = boa_f64 b x in \<not> boa_is_undefined b v \<and> \<not> boa_is_null b v \<and> boa_as_boolean b v = None
          \<and> boa_as_number b v = Some x \<and> (\<forall>i. boa_as_i32 b v = Some i \<longrightarrow> x = Fin (of_int (sint i))))
     \<and> (\<forall>t. valid t \<longrightarrow> (let v = boa_string b (boa_js b t) in \<not> boa_is_undefined b v \<and> \<not> boa_is_null b v
          \<and> boa_as_boolean b v = None \<and> boa_as_i32 b v = None \<and> boa_as_number b v = None
          \<and> boa_as_string b v = Some (boa_js b t) \<and> boa_to_std b (boa_js b t) = Inr t))"

text \<open>Creating and filling arrays and objects changes the contents of that one object.\<close>

definition update_laws :: "('s, 'v, 'k) boa \<Rightarrow> (string \<Rightarrow> bool) \<Rightarrow> ('s \<Rightarrow> 'v \<Rightarrow> 'v js_object option) \<Rightarrow> bool" where
  "update_laws b valid obj \<longleftrightarrow>
     (\<forall>s a s'. boa_new_array b s = (a, s') \<longrightarrow> obj s a = None \<and> obj s' = (obj s)(a \<mapsto> Elements []))
     \<and> (\<forall>s a s'. boa_new_object b s = (a, s') \<longrightarrow> obj s a = None \<and> obj s' = (obj s)(a \<mapsto> Members Map.empty))
     \<and> (\<forall>s a vs v. obj s a = Some (Elements vs)
          \<longrightarrow> (\<exists>s'. boa_push b a v s = (Inr (), s') \<and> obj s' = (obj s)(a \<mapsto> Elements (vs @ [v]))))
     \<and> (\<forall>s a m k v. obj s a = Some (Members m) \<longrightarrow> valid k
          \<longrightarrow> (\<exists>s'. boa_define b a (boa_js b k) v s = (Inr (), s') \<and> obj s' = (obj s)(a \<mapsto> Members (m(k \<mapsto> v)))))"

text \<open>
  Reading them gives the contents. The keys of an object come in an order of the engine's choice, integer keys first as
  numbers; whatever the kind of a key, its text is the one the property was defined with.
\<close>

definition reads_elements :: "('s, 'v, 'k) boa \<Rightarrow> 's \<Rightarrow> 'v \<Rightarrow> 'v list \<Rightarrow> bool" where
  "reads_elements b s a vs \<longleftrightarrow> boa_is_array b a \<and> boa_array_from b a = Inr () \<and> boa_array_length b a s = (Inr (length vs), s)
     \<and> (\<forall>i < length vs. boa_array_get b a i s = (Inr (vs ! i), s))"

definition reads_members :: "('s, 'v, 'k) boa \<Rightarrow> 's \<Rightarrow> 'v \<Rightarrow> (string \<Rightarrow> 'v option) \<Rightarrow> bool" where
  "reads_members b s a m \<longleftrightarrow> \<not> boa_is_array b a \<and> (\<exists>ks ts. boa_own_keys b a s = (Inr ks, s) \<and> distinct ts \<and> set ts = dom m
     \<and> list_all2 (\<lambda>k t. key_text b k = Some (Inr t) \<and> boa_get b a k s = (Inr (the (m t)), s)) ks ts)"

definition read_laws :: "('s, 'v, 'k) boa \<Rightarrow> ('s \<Rightarrow> 'v \<Rightarrow> 'v js_object option) \<Rightarrow> bool" where
  "read_laws b obj \<longleftrightarrow> (\<forall>s a content. obj s a = Some content \<longrightarrow>
     \<not> boa_is_undefined b a \<and> \<not> boa_is_null b a \<and> boa_as_boolean b a = None \<and> boa_as_i32 b a = None
     \<and> boa_as_number b a = None \<and> boa_as_string b a = None \<and> boa_is_object b a
     \<and> (case content of Elements vs \<Rightarrow> reads_elements b s a vs | Members m \<Rightarrow> reads_members b s a m))"

definition engine_laws :: "('s, 'v, 'k) boa \<Rightarrow> (string \<Rightarrow> bool) \<Rightarrow> ('s \<Rightarrow> 'v \<Rightarrow> 'v js_object option) \<Rightarrow> bool" where
  "engine_laws b valid obj \<longleftrightarrow> scalar_laws b valid \<and> update_laws b valid obj \<and> read_laws b obj"

section \<open>Values of \<open>serde_json\<close>\<close>

text \<open>
  What the type of the code guarantees and \<open>json\<close> does not: numbers in the ranges of their variants and finite, texts
  that are UTF-8, and the members of an object under distinct keys in their order.
\<close>

fun number_ok :: "number \<Rightarrow> bool" where
  "number_ok (PosInt n) = True"
| "number_ok (NegInt i) = (- (2 ^ 63) \<le> i \<and> i < 0)"
| "number_ok (Float x) = (\<exists>q. x = Fin q)"

fun json_ok :: "(string \<Rightarrow> bool) \<Rightarrow> json \<Rightarrow> bool" where
  "json_ok valid (JNumber n) = number_ok n"
| "json_ok valid (JString t) = valid t"
| "json_ok valid (JArray js) = (\<forall>j \<in> set js. json_ok valid j)"
| "json_ok valid (JObject fs) = (key_sorted fs \<and> (\<forall>(k, j) \<in> set fs. valid k \<and> json_ok valid j))"
| "json_ok valid j = True"

text \<open>The value with every number as the binary64 number nearest to it.\<close>

definition as_double :: "number \<Rightarrow> number" where
  "as_double n = (case number_as_f64 n of Some x \<Rightarrow> Float x | None \<Rightarrow> n)"

fun as_doubles :: "json \<Rightarrow> json" where
  "as_doubles (JNumber n) = JNumber (as_double n)"
| "as_doubles (JArray js) = JArray (map as_doubles js)"
| "as_doubles (JObject fs) = JObject (map (\<lambda>(k, j). (k, as_doubles j)) fs)"
| "as_doubles j = j"

section \<open>Values that represent JSON\<close>

text \<open>
  A value of the engine that represents a JSON value in a state, built of objects outside \<open>A\<close>.
\<close>

inductive represents :: "('s, 'v, 'k) boa \<Rightarrow> ('s \<Rightarrow> 'v \<Rightarrow> 'v js_object option) \<Rightarrow> 'v set \<Rightarrow> 's \<Rightarrow> json \<Rightarrow> 'v \<Rightarrow> bool"
  for b obj A s where
  nothing: "represents b obj A s JNull (boa_null b)"
| bool: "represents b obj A s (JBool x) (boa_bool b x)"
| number: "number_as_f64 n = Some x \<Longrightarrow> represents b obj A s (JNumber n) (boa_f64 b x)"
| chars: "represents b obj A s (JString t) (boa_string b (boa_js b t))"
| elements: "obj s a = Some (Elements vs) \<Longrightarrow> a \<notin> A \<Longrightarrow> list_all2 (represents b obj A s) js vs
    \<Longrightarrow> represents b obj A s (JArray js) a"
| members: "obj s a = Some (Members m) \<Longrightarrow> a \<notin> A \<Longrightarrow> dom m = set (map fst fs)
    \<Longrightarrow> \<forall>(k, j) \<in> set fs. represents b obj A s j (the (m k)) \<Longrightarrow> represents b obj A s (JObject fs) a"

inductive_cases representsE: "represents b obj A s j v"

text \<open>A state that agrees on the objects outside \<open>A\<close> still shows the value; so the value is not changed from elsewhere.\<close>

definition agrees :: "('s \<Rightarrow> 'v \<Rightarrow> 'v js_object option) \<Rightarrow> 'v set \<Rightarrow> 's \<Rightarrow> 's \<Rightarrow> bool" where
  "agrees obj A s s' \<longleftrightarrow> (obj s |` (- A)) \<subseteq>\<^sub>m obj s'"

lemma agreesD: "agrees obj A s s' \<Longrightarrow> a \<notin> A \<Longrightarrow> obj s a = Some c \<Longrightarrow> obj s' a = Some c"
  by (auto simp: agrees_def map_le_def restrict_map_def dom_def)

lemma agreesI: "(\<And>a c. a \<notin> A \<Longrightarrow> obj s a = Some c \<Longrightarrow> obj s' a = Some c) \<Longrightarrow> agrees obj A s s'"
  by (auto simp: agrees_def map_le_def restrict_map_def dom_def)

lemma agrees_trans: "agrees obj A s s' \<Longrightarrow> agrees obj A s' s'' \<Longrightarrow> agrees obj A s s''"
  by (rule agreesI) (meson agreesD)

lemma agrees_more: "agrees obj A s s' \<Longrightarrow> A \<subseteq> A' \<Longrightarrow> agrees obj A' s s'"
  by (rule agreesI) (meson agreesD subsetD)

lemma agrees_fresh:
  assumes "agrees obj {a} s1 s'" "obj s a = None" "obj s1 = (obj s)(a \<mapsto> c)"
  shows "agrees obj {} s s'"
proof (rule agreesI)
  fix v c' assume "obj s v = Some c'"
  with assms(2,3) have "v \<noteq> a" "obj s1 v = Some c'" by auto
  then show "obj s' v = Some c'" using agreesD [OF assms(1)] by simp
qed

lemma represents_agrees:
  assumes "represents b obj A s j v" "A' \<subseteq> A" "agrees obj A s s'"
  shows "represents b obj A' s' j v"
  using assms(1)
proof induction
  case (elements a vs js)
  then show ?case using assms(2,3) by (intro represents.elements) (auto dest: agreesD elim: list_all2_mono)
next
  case (members a m fs)
  then show ?case using assms(2,3) by (intro represents.members) (auto dest: agreesD)
qed (auto intro: represents.intros)

lemma elements_agree:
  "list_all2 (represents b obj A s) js vs \<Longrightarrow> A' \<subseteq> A \<Longrightarrow> agrees obj A s s' \<Longrightarrow> list_all2 (represents b obj A' s') js vs"
  by (erule list_all2_mono) (rule represents_agrees)

section \<open>Into the engine\<close>

text \<open>
  A conversion succeeds, leaves the objects that were there as they are, and its value represents the JSON value with
  fresh objects.
\<close>

definition enters :: "('s, 'v, 'k) boa \<Rightarrow> ('s \<Rightarrow> 'v \<Rightarrow> 'v js_object option) \<Rightarrow> json \<Rightarrow> 's \<Rightarrow> bool" where
  "enters b obj j s \<longleftrightarrow> (\<exists>v s'. json_to_js_value b j s = (Inr v, s') \<and> agrees obj {} s s'
     \<and> represents b obj (dom (obj s)) s' j v)"

lemma update_lawsD:
  assumes "update_laws b valid obj"
  shows "boa_new_array b s = (a, s') \<Longrightarrow> obj s a = None \<and> obj s' = (obj s)(a \<mapsto> Elements [])"
    and "boa_new_object b s = (a, s') \<Longrightarrow> obj s a = None \<and> obj s' = (obj s)(a \<mapsto> Members Map.empty)"
    and "obj s a = Some (Elements vs) \<Longrightarrow> \<exists>s'. boa_push b a v s = (Inr (), s') \<and> obj s' = (obj s)(a \<mapsto> Elements (vs @ [v]))"
    and "obj s a = Some (Members m) \<Longrightarrow> valid k
      \<Longrightarrow> \<exists>s'. boa_define b a (boa_js b k) v s = (Inr (), s') \<and> obj s' = (obj s)(a \<mapsto> Members (m(k \<mapsto> v)))"
  using assms unfolding update_laws_def by blast+

lemma push_enters:
  assumes laws: "update_laws b valid obj" and each: "\<And>j s. j \<in> set js \<Longrightarrow> enters b obj j s"
  shows "obj s a = Some (Elements vs) \<Longrightarrow> a \<in> A \<Longrightarrow> A \<subseteq> dom (obj s) \<Longrightarrow> list_all2 (represents b obj A s) js0 vs
    \<Longrightarrow> \<exists>s' vs'. push_elements b a i js s = (Inr a, s') \<and> obj s' a = Some (Elements vs')
       \<and> list_all2 (represents b obj A s') (js0 @ js) vs' \<and> agrees obj {a} s s'"
  using each
proof (induction js arbitrary: i s vs js0)
  case Nil
  then show ?case by (auto intro: agreesI)
next
  case (Cons j js)
  from Cons.prems(5) [of j s] obtain v s1 where c: "json_to_js_value b j s = (Inr v, s1)" "agrees obj {} s s1"
    "represents b obj (dom (obj s)) s1 j v" by (auto simp: enters_def)
  have a1: "obj s1 a = Some (Elements vs)" using agreesD [OF c(2)] Cons.prems(1) by simp
  obtain s2 where p: "boa_push b a v s1 = (Inr (), s2)" "obj s2 = (obj s1)(a \<mapsto> Elements (vs @ [v]))"
    using update_lawsD(3) [OF laws a1] by blast
  have k: "agrees obj {a} s1 s2" by (rule agreesI) (simp add: p(2))
  then have kA: "agrees obj A s1 s2" using Cons.prems(2) by (auto intro: agrees_more)
  have "represents b obj A s1 j v" using c(3) Cons.prems(3) by (rule represents_agrees) (auto intro: agreesI)
  moreover have "list_all2 (represents b obj A s1) js0 vs"
    using Cons.prems(4) c(2) by (auto intro: elements_agree agrees_more)
  ultimately have "list_all2 (represents b obj A s1) (js0 @ [j]) (vs @ [v])" by (simp add: list_all2_appendI)
  then have r: "list_all2 (represents b obj A s2) (js0 @ [j]) (vs @ [v])" using kA by (auto intro: elements_agree)
  have "A \<subseteq> dom (obj s2)" using Cons.prems(3) agreesD [OF c(2)] p(2) by fastforce
  have "obj s2 a = Some (Elements (vs @ [v]))" by (simp add: p(2))
  from Cons.IH [OF this Cons.prems(2) \<open>A \<subseteq> dom (obj s2)\<close> r Cons.prems(5), of "i + 1"] obtain s' vs' where
    "push_elements b a (i + 1) js s2 = (Inr a, s')" "obj s' a = Some (Elements vs')"
    "list_all2 (represents b obj A s') (js0 @ j # js) vs'" "agrees obj {a} s2 s'" by auto
  moreover have "agrees obj {a} s s2" using c(2) k by (auto intro: agrees_trans agrees_more)
  ultimately show ?case using c(1) p(1) by (auto intro: agrees_trans)
qed

lemma define_enters:
  assumes laws: "update_laws b valid obj" and each: "\<And>k j s. (k, j) \<in> set fs \<Longrightarrow> valid k \<and> enters b obj j s"
  shows "obj s a = Some (Members m) \<Longrightarrow> a \<in> A \<Longrightarrow> A \<subseteq> dom (obj s) \<Longrightarrow> dom m = set (map fst fs0)
    \<Longrightarrow> \<forall>(k, j) \<in> set fs0. represents b obj A s j (the (m k)) \<Longrightarrow> distinct (map fst (fs0 @ fs))
    \<Longrightarrow> \<exists>s' m'. define_members b a fs s = (Inr a, s') \<and> obj s' a = Some (Members m') \<and> dom m' = set (map fst (fs0 @ fs))
       \<and> (\<forall>(k, j) \<in> set (fs0 @ fs). represents b obj A s' j (the (m' k))) \<and> agrees obj {a} s s'"
  using each
proof (induction fs arbitrary: s m fs0)
  case Nil
  then show ?case by (auto intro: agreesI)
next
  case (Cons p fs)
  obtain k j where p: "p = (k, j)" by (cases p)
  from Cons.prems(7) [of k j s] obtain v s1 where c: "json_to_js_value b j s = (Inr v, s1)" "agrees obj {} s s1"
    "represents b obj (dom (obj s)) s1 j v" "valid k" by (auto simp: enters_def p)
  have a1: "obj s1 a = Some (Members m)" using agreesD [OF c(2)] Cons.prems(1) by simp
  obtain s2 where d: "boa_define b a (boa_js b k) v s1 = (Inr (), s2)" "obj s2 = (obj s1)(a \<mapsto> Members (m(k \<mapsto> v)))"
    using update_lawsD(4) [where valid = valid, OF laws a1 c(4)] by blast
  have k: "agrees obj {a} s1 s2" by (rule agreesI) (simp add: d(2))
  then have kA: "agrees obj A s1 s2" using Cons.prems(2) by (auto intro: agrees_more)
  have "agrees obj A s s2" using agrees_trans [OF agrees_more [OF c(2)] kA] by simp
  then have old: "\<forall>(k, j) \<in> set fs0. represents b obj A s2 j (the (m k))"
    using Cons.prems(5) by (auto intro: represents_agrees)
  have "agrees obj (dom (obj s)) s1 s2" using agrees_more [OF kA Cons.prems(3)] .
  then have "represents b obj A s2 j v" using c(3) Cons.prems(3) by (auto intro: represents_agrees)
  have r: "\<forall>(k', j) \<in> set (fs0 @ [(k, j)]). represents b obj A s2 j (the ((m(k \<mapsto> v)) k'))"
  proof -
    have "represents b obj A s2 j' (the ((m(k \<mapsto> v)) k'))" if "(k', j') \<in> set fs0" for k' j'
      using old that Cons.prems(6) by (force simp: p)
    with \<open>represents b obj A s2 j v\<close> show ?thesis by auto
  qed
  have a2: "obj s2 a = Some (Members (m(k \<mapsto> v)))" by (simp add: d(2))
  have "A \<subseteq> dom (obj s2)" using Cons.prems(3) agreesD [OF c(2)] d(2) by fastforce
  have dm: "dom (m(k \<mapsto> v)) = set (map fst (fs0 @ [(k, j)]))" using Cons.prems(4) by simp
  have dist: "distinct (map fst ((fs0 @ [(k, j)]) @ fs))" using Cons.prems(6) by (simp add: p)
  have rest: "valid k \<and> enters b obj j s" if "(k, j) \<in> set fs" for k j s using Cons.prems(7) [of k j s] that by simp
  from Cons.IH [OF a2 Cons.prems(2) \<open>A \<subseteq> dom (obj s2)\<close> dm r dist rest] obtain s' m' where
    "define_members b a fs s2 = (Inr a, s')" "obj s' a = Some (Members m')" "dom m' = set (map fst (fs0 @ p # fs))"
    "\<forall>(k, j) \<in> set (fs0 @ p # fs). represents b obj A s' j (the (m' k))" "agrees obj {a} s2 s'" by (auto simp: p)
  moreover have "agrees obj {a} s s2" using c(2) k by (auto intro: agrees_trans agrees_more)
  ultimately show ?case using c(1) d(1) by (auto simp: p intro: agrees_trans)
qed

lemma json_enters:
  assumes laws: "update_laws b valid obj"
  shows "json_ok valid j \<Longrightarrow> enters b obj j s"
proof (induction j arbitrary: s)
  case (JNumber n s)
  then show ?case by (cases n) (auto simp: enters_def intro!: agreesI intro: represents.intros)
next
  case (JArray js s)
  obtain a s1 where n: "boa_new_array b s = (a, s1)" by (cases "boa_new_array b s")
  then have o: "obj s a = None" "obj s1 = (obj s)(a \<mapsto> Elements [])" using update_lawsD(1) [OF laws] by blast+
  then have a: "obj s1 a = Some (Elements [])" "a \<in> dom (obj s1)" by auto
  have each: "enters b obj j s" if "j \<in> set js" for j s using JArray that by simp
  from push_enters [OF laws each a(1,2) subset_refl, of js "[]" 0] obtain s' vs where
    r: "push_elements b a 0 js s1 = (Inr a, s')" "obj s' a = Some (Elements vs)"
    "list_all2 (represents b obj (dom (obj s1)) s') js vs" "agrees obj {a} s1 s'" by auto
  have "agrees obj {} s s'" using r(4) o by (rule agrees_fresh)
  moreover have "list_all2 (represents b obj (dom (obj s)) s') js vs"
    using r(3) o(2) by (auto intro: elements_agree agreesI)
  then have "represents b obj (dom (obj s)) s' (JArray js) a"
    using r(2) o(1) by (intro represents.elements) auto
  ultimately show ?case using n r(1) by (simp add: enters_def)
next
  case (JObject fs s)
  obtain a s1 where n: "boa_new_object b s = (a, s1)" by (cases "boa_new_object b s")
  then have o: "obj s a = None" "obj s1 = (obj s)(a \<mapsto> Members Map.empty)" using update_lawsD(2) [OF laws] by blast+
  then have a: "obj s1 a = Some (Members Map.empty)" "a \<in> dom (obj s1)" by auto
  have each: "valid k \<and> enters b obj j s" if "(k, j) \<in> set fs" for k j s
    using JObject that by (fastforce simp: snds.simps)
  have "distinct (map fst fs)" using JObject.prems key_sorted_distinct [of fs] by simp
  with define_enters [OF laws each a(1,2) subset_refl, of fs "[]"] obtain s' m where
    r: "define_members b a fs s1 = (Inr a, s')" "obj s' a = Some (Members m)" "dom m = set (map fst fs)"
    "\<forall>(k, j) \<in> set fs. represents b obj (dom (obj s1)) s' j (the (m k))" "agrees obj {a} s1 s'" by auto
  have "agrees obj {} s s'" using r(5) o by (rule agrees_fresh)
  moreover have "\<forall>(k, j) \<in> set fs. represents b obj (dom (obj s)) s' j (the (m k))"
    using r(4) o(2) by (auto intro: represents_agrees agreesI)
  then have "represents b obj (dom (obj s)) s' (JObject fs) a"
    using r(2,3) o(1) by (intro represents.members) auto
  ultimately show ?case using n r(1) by (simp add: enters_def)
qed (auto simp: enters_def intro!: agreesI intro: represents.intros)

section \<open>Back to JSON\<close>

lemma size_element: "j \<in> set js \<Longrightarrow> size j < size (JArray js)"
  by (induction js) auto

lemma size_member: "(k, j) \<in> set fs \<Longrightarrow> size j < size (JObject fs)"
  by (induction fs) auto

lemma rnd_finite:
  assumes "\<bar>x\<bar> \<le> 2 ^ 64"
  shows "\<exists>q. rnd x = Fin q"
proof -
  have "rr (2 ^ 64) = 2 ^ 64" "rr (- (2 ^ 64)) = - (2 ^ 64)" using rr_powi [of 64] by (simp_all add: rr_minus)
  moreover have "rr (- (2 ^ 64)) \<le> rr x" "rr x \<le> rr (2 ^ 64)" using assms by (simp_all add: rr_mono abs_le_iff)
  moreover have "(2::rat) ^ 64 < f_big" by (simp add: f_big_def)
  ultimately show ?thesis by (cases x rule: rnd_cases) auto
qed

lemma number_f64:
  assumes "number_ok n"
  obtains q where "number_as_f64 n = Some (Fin q)" "as_double n = Float (Fin q)"
proof (cases n)
  case (PosInt w)
  have "unat w \<le> 2 ^ 64" using unsigned_less [of w, where ?'a = nat] by simp
  then have "\<bar>of_nat (unat w) :: rat\<bar> \<le> of_nat (2 ^ 64)" by (simp only: abs_of_nat of_nat_le_iff)
  then show thesis using that rnd_finite PosInt by (fastforce simp: as_double_def f_of_nat_def)
next
  case (NegInt i)
  with assms have "\<bar>i\<bar> \<le> 2 ^ 64" by simp
  then have "(of_int \<bar>i\<bar> :: rat) \<le> of_int (2 ^ 64)" by (simp only: of_int_le_iff)
  then have "\<bar>of_int i :: rat\<bar> \<le> 2 ^ 64" by simp
  then show thesis using that rnd_finite NegInt by (fastforce simp: as_double_def)
qed (use assms that in \<open>auto simp: as_double_def\<close>)

lemma as_doubles_ser_int:
  assumes "- (2 ^ 31) \<le> i" "i < 2 ^ 31"
  shows "as_doubles (ser_int i) = JNumber (Float (Fin (of_int i)))"
proof -
  from assms have r: "rnd (of_int i) = Fin (of_int i)" by (intro rnd_of_int) (simp add: abs_le_iff)
  show ?thesis
  proof (cases "0 \<le> i")
    case True
    with assms(2) have "uint (of_int i :: u64) = i" by (simp add: unsigned_of_int take_bit_int_eq_self)
    then have "(of_nat (unat (of_int i :: u64)) :: rat) = of_int i" by (metis of_int_of_nat_eq uint_nat)
    with True r show ?thesis by (simp add: ser_int_def as_double_def f_of_nat_def)
  next
    case False
    with r show ?thesis by (simp add: ser_int_def as_double_def)
  qed
qed

lemma sint_i32: "- (2 ^ 31) \<le> sint (i :: 32 word)" "sint (i :: 32 word) < 2 ^ 31"
  using sint_greater_eq [of i] sint_less [of i] by simp_all

lemma number_leaves:
  assumes "scalar_laws b valid" "number_ok n" "number_as_f64 n = Some x"
  shows "\<exists>j'. js_value_to_json b (Suc depth) (boa_f64 b x) s = Some (Inr j', s) \<and> as_doubles j' = JNumber (as_double n)"
proof -
  obtain q where q: "x = Fin q" "as_double n = Float (Fin q)" using number_f64 [OF assms(2)] assms(3) by auto
  have v: "\<not> boa_is_undefined b (boa_f64 b x)" "\<not> boa_is_null b (boa_f64 b x)" "boa_as_boolean b (boa_f64 b x) = None"
    "boa_as_number b (boa_f64 b x) = Some x" "boa_as_i32 b (boa_f64 b x) = Some i \<Longrightarrow> x = Fin (of_int (sint i))" for i
    using assms(1) by (auto simp: scalar_laws_def Let_def)
  show ?thesis
  proof (cases "boa_as_i32 b (boa_f64 b x)")
    case None
    with v(1-4) q show ?thesis by (simp add: as_double_def)
  next
    case (Some i)
    with v(1-4) as_doubles_ser_int [OF sint_i32, of i] v(5) [OF Some] q show ?thesis by simp
  qed
qed

text \<open>A conversion out of the engine that gives a value equal up to \<open>as_doubles\<close>.\<close>

definition leaves :: "('v \<Rightarrow> 's \<Rightarrow> (json result \<times> 's) option) \<Rightarrow> 's \<Rightarrow> json \<Rightarrow> 'v \<Rightarrow> bool" where
  "leaves conv s j v \<longleftrightarrow> (\<exists>j'. conv v s = Some (Inr j', s) \<and> as_doubles j' = as_doubles j)"

lemma elements_leave:
  assumes "list_all2 (leaves conv s) js vs" "\<forall>i < length vs. boa_array_get b a (off + i) s = (Inr (vs ! i), s)"
  shows "\<exists>js'. array_elements b conv a [off..<off + length vs] acc s = Some (Inr (JArray (acc @ js')), s)
    \<and> map as_doubles js' = map as_doubles js"
  using assms
proof (induction js vs arbitrary: off acc rule: list_all2_induct)
  case (Cons j js v vs)
  from Cons.hyps(1) obtain j' where j: "conv v s = Some (Inr j', s)" "as_doubles j' = as_doubles j" by (auto simp: leaves_def)
  have g: "boa_array_get b a off s = (Inr v, s)" using Cons.prems by force
  have "\<forall>i < length vs. boa_array_get b a (Suc off + i) s = (Inr (vs ! i), s)"
    using Cons.prems by (metis Suc_less_eq add_Suc_shift length_Cons nth_Cons_Suc)
  from Cons.IH [OF this, of "acc @ [j']"] obtain js' where
    "array_elements b conv a [Suc off..<Suc off + length vs] (acc @ [j']) s = Some (Inr (JArray (acc @ j' # js')), s)"
    "map as_doubles js' = map as_doubles js" by auto
  moreover have "[off..<off + length (v # vs)] = off # [Suc off..<Suc off + length vs]" by (simp add: upt_conv_Cons del: upt_Suc)
  ultimately show ?case using j g by (intro exI [of _ "j' # js'"]) (simp del: upt_Suc)
qed simp

lemma members_leave:
  assumes "list_all2 (\<lambda>k t. key_text b k = Some (Inr t) \<and> boa_get b a k s = (Inr (the (m t)), s)) ks ts"
    and "\<forall>t \<in> set ts. leaves conv s (the (map_of fs t)) (the (m t))" "set ts \<subseteq> set (map fst fs)" "key_sorted acc"
  shows "\<exists>acc'. object_members b conv a ks acc s = Some (Inr (JObject acc'), s) \<and> key_sorted acc'
    \<and> (\<forall>t. map_option as_doubles (map_of acc' t) = map_option as_doubles (if t \<in> set ts then map_of fs t else map_of acc t))"
  using assms
proof (induction ks ts arbitrary: acc rule: list_all2_induct)
  case (Cons k ks t ts)
  then obtain j' where j: "conv (the (m t)) s = Some (Inr j', s)" "as_doubles j' = as_doubles (the (map_of fs t))"
    by (auto simp: leaves_def)
  have "key_sorted (json_insert t j' acc)" using Cons.prems(3) by (rule key_sorted_insert)
  with Cons.IH [of "json_insert t j' acc"] Cons.prems(1,2) obtain acc' where
    r: "object_members b conv a ks (json_insert t j' acc) s = Some (Inr (JObject acc'), s)" "key_sorted acc'"
    "\<forall>t'. map_option as_doubles (map_of acc' t')
       = map_option as_doubles (if t' \<in> set ts then map_of fs t' else map_of (json_insert t j' acc) t')" by auto
  obtain j where "map_of fs t = Some j" using Cons.prems(2) by (cases "map_of fs t") (auto simp: map_of_eq_None_iff)
  with r(3) j(2) have "\<forall>t'. map_option as_doubles (map_of acc' t')
      = map_option as_doubles (if t' \<in> set (t # ts) then map_of fs t' else map_of acc t')" by simp
  with r(1,2) j(1) Cons.hyps(1) show ?case by auto
qed simp

lemma map_of_as_doubles: "map_of (map (\<lambda>(k, j). (k, as_doubles j)) fs) = map_option as_doubles \<circ> map_of fs"
  by (rule map_of_map)

lemma as_doubles_object:
  assumes "key_sorted fs" "key_sorted gs" "\<forall>t. map_option as_doubles (map_of fs t) = map_option as_doubles (map_of gs t)"
  shows "as_doubles (JObject fs) = as_doubles (JObject gs)"
proof -
  have e: "fst \<circ> (\<lambda>(k, j). (k, as_doubles j)) = fst" by auto
  have "map (\<lambda>(k, j). (k, as_doubles j)) fs = map (\<lambda>(k, j). (k, as_doubles j)) gs"
    using assms by (intro key_sorted_unique) (simp_all add: e map_of_as_doubles fun_eq_iff)
  then show ?thesis by simp
qed

lemma read_lawsD:
  assumes "read_laws b obj" "obj s a = Some c"
  shows "\<not> boa_is_undefined b a" "\<not> boa_is_null b a" "boa_as_boolean b a = None" "boa_as_i32 b a = None"
    "boa_as_number b a = None" "boa_as_string b a = None" "boa_is_object b a"
    "c = Elements vs \<Longrightarrow> reads_elements b s a vs" "c = Members m \<Longrightarrow> reads_members b s a m"
  using assms unfolding read_laws_def by fastforce+

lemma json_leaves:
  assumes laws: "engine_laws b valid obj"
  shows "represents b obj A s j v \<Longrightarrow> json_ok valid j \<Longrightarrow> size j < depth \<Longrightarrow> leaves (js_value_to_json b depth) s j v"
proof (induction depth arbitrary: j v)
  case (Suc depth)
  have scalar: "scalar_laws b valid" and reads: "read_laws b obj" using laws by (simp_all add: engine_laws_def)
  from Suc.prems(1) show ?case
  proof cases
    case nothing
    then show ?thesis using scalar by (auto simp: leaves_def scalar_laws_def)
  next
    case (bool x)
    then show ?thesis using scalar by (simp add: leaves_def scalar_laws_def Let_def)
  next
    case (number n x)
    then show ?thesis using number_leaves [OF scalar _ number(3)] Suc.prems(2) by (simp add: leaves_def)
  next
    case (chars t)
    then show ?thesis using scalar Suc.prems(2) by (simp add: leaves_def scalar_laws_def Let_def)
  next
    case (elements vs js)
    note o = read_lawsD [OF reads elements(2)]
    have l: "list_all2 (leaves (js_value_to_json b depth) s) js vs"
    proof (rule list.rel_mono_strong [OF elements(4)])
      fix j v assume j: "j \<in> set js" "represents b obj A s j v"
      show "leaves (js_value_to_json b depth) s j v"
        using Suc.IH [OF j(2)] Suc.prems(2,3) elements(1) size_element [OF j(1)] j(1) by simp
    qed
    from o(8) [OF refl] have r: "boa_is_array b v" "boa_array_from b v = Inr ()" "boa_array_length b v s = (Inr (length vs), s)"
      "\<forall>i < length vs. boa_array_get b v (0 + i) s = (Inr (vs ! i), s)" by (simp_all add: reads_elements_def)
    obtain js' where "array_elements b (js_value_to_json b depth) v [0..<length vs] [] s = Some (Inr (JArray js'), s)"
      "map as_doubles js' = map as_doubles js"
      using elements_leave [OF l r(4), of "[]"] by auto
    with r(1-3) o(1-7) show ?thesis by (simp add: leaves_def elements(1))
  next
    case (members m fs)
    note o = read_lawsD [OF reads members(2)]
    from o(9) [OF refl] obtain ks ts where k: "\<not> boa_is_array b v" "boa_own_keys b v s = (Inr ks, s)" "set ts = dom m"
      "list_all2 (\<lambda>k t. key_text b k = Some (Inr t) \<and> boa_get b v k s = (Inr (the (m t)), s)) ks ts"
      by (auto simp: reads_members_def)
    have fs: "key_sorted fs" "\<forall>(k, j) \<in> set fs. json_ok valid j" using Suc.prems(2) by (auto simp: members(1))
    have "leaves (js_value_to_json b depth) s (the (map_of fs t)) (the (m t))" if t: "t \<in> set ts" for t
    proof -
      have "map_of fs t \<noteq> None" using t k(3) members(4) by (simp add: map_of_eq_None_iff)
      then obtain j where j: "map_of fs t = Some j" by blast
      then have "(t, j) \<in> set fs" by (rule map_of_SomeD)
      note j = j this
      have "represents b obj A s j (the (m t))" "json_ok valid j" using j(2) members(5) fs(2) by auto
      moreover have "size j < depth" using size_member [OF j(2)] Suc.prems(3) by (simp only: members(1))
      ultimately show ?thesis using Suc.IH by (simp only: j(1) option.sel)
    qed
    with members_leave [OF k(4), of "js_value_to_json b depth" fs "[]"] k(3) members(4) obtain acc where
      r: "object_members b (js_value_to_json b depth) v ks [] s = Some (Inr (JObject acc), s)" "key_sorted acc"
      "\<forall>t. map_option as_doubles (map_of acc t) = map_option as_doubles (if t \<in> set ts then map_of fs t else map_of [] t)"
      by auto
    have "map_of fs t = None" if "t \<notin> set ts" for t using that k(3) members(4) by (simp add: map_of_eq_None_iff)
    with r(3) have "\<forall>t. map_option as_doubles (map_of acc t) = map_option as_doubles (map_of fs t)" by simp
    from as_doubles_object [OF r(2) fs(1) this] r(1) k(1,2) o(1-7) show ?thesis
      by (simp add: leaves_def members(1) as_object_def)
  qed
qed simp

text \<open>Integers up to \<open>2 ^ 53\<close> are exact; one that does not fit in 32 bits is read as a float.\<close>

lemma as_double_exact: "unat n \<le> 2 ^ 53 \<Longrightarrow> as_double (PosInt n) = Float (Fin (of_nat (unat n)))"
  by (simp add: as_double_def f_of_nat_small)

lemma large_integer_float:
  assumes "scalar_laws b valid" "2 ^ 31 \<le> unat n"
  shows "js_value_to_json b (Suc depth) (boa_f64 b (f_of_nat (unat n))) s = Some (Inr (JNumber (as_double (PosInt n))), s)"
proof -
  obtain q where q: "f_of_nat (unat n) = Fin q" "as_double (PosInt n) = Float (Fin q)"
    using number_f64 [of "PosInt n"] by auto
  have v: "\<not> boa_is_undefined b (boa_f64 b (Fin q))" "\<not> boa_is_null b (boa_f64 b (Fin q))" "boa_as_boolean b (boa_f64 b (Fin q)) = None"
    "boa_as_number b (boa_f64 b (Fin q)) = Some (Fin q)" "boa_as_i32 b (boa_f64 b (Fin q)) = Some i \<Longrightarrow> q = of_int (sint i)" for i
    using assms(1) by (auto simp: scalar_laws_def Let_def)
  have "(of_nat (2 ^ 31) :: rat) \<le> of_nat (unat n)" using assms(2) by (simp only: of_nat_le_iff)
  then have "f_le (Fin (of_nat (2 ^ 31))) (f_of_nat (unat n))" unfolding f_of_nat_def by (intro rnd_ge_nat) simp
  then have "2 ^ 31 \<le> q" by (simp add: q(1))
  have "boa_as_i32 b (boa_f64 b (Fin q)) = None"
  proof (cases "boa_as_i32 b (boa_f64 b (Fin q))")
    case (Some i)
    have "(of_int (sint i) :: rat) < of_int (2 ^ 31)" using sint_i32(2) by (simp only: of_int_less_iff)
    with \<open>2 ^ 31 \<le> q\<close> v(5) [OF Some] show ?thesis by simp
  qed simp
  with v(1-4) show ?thesis by (simp add: q)
qed

section \<open>An engine\<close>

text \<open>The laws hold of a store of arrays and objects that is extended at its end.\<close>

datatype store_value = SUndefined | SNull | SBool bool | SFloat f64 | SText string | SArray nat | SObject nat

type_synonym store = "(store_value list + (string \<times> store_value) list) list"

definition integral :: "f64 \<Rightarrow> 32 word option" where
  "integral x = (case x of Fin q \<Rightarrow>
       if of_int \<lfloor>q\<rfloor> = q \<and> - (2 ^ 31) \<le> \<lfloor>q\<rfloor> \<and> \<lfloor>q\<rfloor> < 2 ^ 31 then Some (of_int \<lfloor>q\<rfloor>) else None | _ \<Rightarrow> None)"

fun store_array :: "store \<Rightarrow> store_value \<Rightarrow> store_value list option" where
  "store_array s (SArray i) = (if i < length s then (case s ! i of Inl vs \<Rightarrow> Some vs | Inr fs \<Rightarrow> None) else None)"
| "store_array s v = None"

fun store_object :: "store \<Rightarrow> store_value \<Rightarrow> (string \<times> store_value) list option" where
  "store_object s (SObject i) = (if i < length s then (case s ! i of Inl vs \<Rightarrow> None
     | Inr fs \<Rightarrow> if distinct (map fst fs) then Some fs else None) else None)"
| "store_object s v = None"

definition store_obj :: "store \<Rightarrow> store_value \<Rightarrow> store_value js_object option" where
  "store_obj s v = (case store_array s v of Some vs \<Rightarrow> Some (Elements vs)
     | None \<Rightarrow> map_option (\<lambda>fs. Members (map_of fs)) (store_object s v))"

fun store_push :: "store_value \<Rightarrow> store_value \<Rightarrow> store \<Rightarrow> (string + unit) \<times> store" where
  "store_push (SArray i) v s = (case store_array s (SArray i) of Some vs \<Rightarrow> (Inr (), s[i := Inl (vs @ [v])])
     | None \<Rightarrow> (Inl ''not an array'', s))"
| "store_push a v s = (Inl ''not an array'', s)"

fun store_define :: "store_value \<Rightarrow> string \<Rightarrow> store_value \<Rightarrow> store \<Rightarrow> (string + unit) \<times> store" where
  "store_define (SObject i) k v s = (case store_object s (SObject i) of Some fs \<Rightarrow> (Inr (), s[i := Inr (AList.update k v fs)])
     | None \<Rightarrow> (Inl ''not an object'', s))"
| "store_define a k v s = (Inl ''not an object'', s)"

definition store_get :: "store_value \<Rightarrow> string property_key \<Rightarrow> store \<Rightarrow> (string + store_value) \<times> store" where
  "store_get a k s = (case (store_object s a, k) of
     (Some fs, StringKey t) \<Rightarrow> (Inr (case map_of fs t of Some v \<Rightarrow> v | None \<Rightarrow> SUndefined), s)
   | _ \<Rightarrow> (Inr SUndefined, s))"

definition store_boa :: "(store, store_value, string) boa" where
  "store_boa = \<lparr>boa_build = Inr [], boa_eval = (\<lambda>_ s. (Inr SUndefined, s)), boa_global = (\<lambda>_ s. (Inr SUndefined, s)),
     boa_set_global = (\<lambda>_ _ s. (Inr (), s)), boa_get = store_get, boa_set = (\<lambda>_ _ _ _ s. (Inr (), s)),
     boa_define = store_define, boa_call = (\<lambda>_ _ s. (Inr SUndefined, s)),
     boa_is_object = (\<lambda>v. case v of SArray i \<Rightarrow> True | SObject i \<Rightarrow> True | _ \<Rightarrow> False), boa_is_callable = (\<lambda>_. False),
     boa_is_promise = (\<lambda>_. False), boa_is_array = (\<lambda>v. case v of SArray i \<Rightarrow> True | _ \<Rightarrow> False),
     boa_is_undefined = (\<lambda>v. v = SUndefined), boa_is_null = (\<lambda>v. v = SNull),
     boa_as_boolean = (\<lambda>v. case v of SBool x \<Rightarrow> Some x | _ \<Rightarrow> None),
     boa_as_i32 = (\<lambda>v. case v of SFloat x \<Rightarrow> integral x | _ \<Rightarrow> None),
     boa_as_number = (\<lambda>v. case v of SFloat x \<Rightarrow> Some x | _ \<Rightarrow> None),
     boa_as_string = (\<lambda>v. case v of SText t \<Rightarrow> Some t | _ \<Rightarrow> None),
     boa_to_std = Inr, boa_js = (\<lambda>t. t), boa_undefined = SUndefined, boa_null = SNull, boa_bool = SBool, boa_f64 = SFloat,
     boa_i64 = (\<lambda>i. SFloat (rnd (of_int i))), boa_string = SText, boa_debug = (\<lambda>_. ''?''), boa_type_error = (\<lambda>t. t),
     boa_function = (\<lambda>_ s. (SUndefined, s)), boa_new_object = (\<lambda>s. (SObject (length s), s @ [Inr []])),
     boa_own_keys = (\<lambda>a s. (Inr (case store_object s a of Some fs \<Rightarrow> map (StringKey \<circ> fst) fs | None \<Rightarrow> []), s)),
     boa_new_array = (\<lambda>s. (SArray (length s), s @ [Inl []])), boa_push = store_push,
     boa_array_from = (\<lambda>v. case v of SArray i \<Rightarrow> Inr () | _ \<Rightarrow> Inl ''not an array''),
     boa_array_length = (\<lambda>a s. (Inr (case store_array s a of Some vs \<Rightarrow> length vs | None \<Rightarrow> 0), s)),
     boa_array_get = (\<lambda>a i s. (Inr (case store_array s a of Some vs \<Rightarrow> if i < length vs then vs ! i else SUndefined
        | None \<Rightarrow> SUndefined), s)),
     boa_new_promise = (\<lambda>s. ((SUndefined, SUndefined, SUndefined), s)), boa_state = (\<lambda>_ _. Pending)\<rparr>"

lemma integral_value: "integral x = Some i \<Longrightarrow> x = Fin (of_int (sint i))"
  by (auto simp: integral_def signed_of_int signed_take_bit_int_eq_self split: f64.splits if_splits)

lemma store_scalars: "scalar_laws store_boa (\<lambda>_. True)"
  using integral_value by (auto simp: scalar_laws_def store_boa_def Let_def)

lemma store_obj_append: "store_obj (s @ [c]) v = (case v of
     SArray i \<Rightarrow> if i = length s then (case c of Inl vs \<Rightarrow> Some (Elements vs) | Inr fs \<Rightarrow> None) else store_obj s v
   | SObject i \<Rightarrow> if i = length s then (case c of Inl vs \<Rightarrow> None
       | Inr fs \<Rightarrow> if distinct (map fst fs) then Some (Members (map_of fs)) else None) else store_obj s v
   | _ \<Rightarrow> store_obj s v)"
  by (cases v) (auto simp: store_obj_def nth_append split: sum.splits)

lemma store_obj_update: "i < length s \<Longrightarrow> store_obj (s[i := c]) v = (case v of
     SArray j \<Rightarrow> if j = i then (case c of Inl vs \<Rightarrow> Some (Elements vs) | Inr fs \<Rightarrow> None) else store_obj s v
   | SObject j \<Rightarrow> if j = i then (case c of Inl vs \<Rightarrow> None
       | Inr fs \<Rightarrow> if distinct (map fst fs) then Some (Members (map_of fs)) else None) else store_obj s v
   | _ \<Rightarrow> store_obj s v)"
  by (cases v) (auto simp: store_obj_def nth_list_update split: sum.splits)

lemma store_obj_fresh [simp]: "store_obj s (SArray (length s)) = None" "store_obj s (SObject (length s)) = None"
  by (simp_all add: store_obj_def)

lemma store_updates: "update_laws store_boa (\<lambda>_. True) store_obj"
proof -
  have "store_obj (s @ [Inl []]) = (store_obj s)(SArray (length s) \<mapsto> Elements [])"
    "store_obj (s @ [Inr []]) = (store_obj s)(SObject (length s) \<mapsto> Members Map.empty)" for s
    by (auto simp: fun_eq_iff store_obj_append split: store_value.split)
  moreover have "\<exists>s'. store_push a v s = (Inr (), s') \<and> store_obj s' = (store_obj s)(a \<mapsto> Elements (vs @ [v]))"
    if o: "store_obj s a = Some (Elements vs)" for s a vs v
  proof -
    obtain i where i: "a = SArray i" "i < length s" "s ! i = Inl vs"
      using o by (cases a) (auto simp: store_obj_def split: if_splits sum.splits)
    moreover from i have "store_obj s (SObject i) = None" by (simp add: store_obj_def)
    ultimately show ?thesis by (auto simp: fun_eq_iff store_obj_update split: store_value.split)
  qed
  moreover have "\<exists>s'. store_define a k v s = (Inr (), s') \<and> store_obj s' = (store_obj s)(a \<mapsto> Members (m(k \<mapsto> v)))"
    if o: "store_obj s a = Some (Members m)" for s a m k v
  proof -
    obtain i fs where i: "a = SObject i" "i < length s" "s ! i = Inr fs" "distinct (map fst fs)" "m = map_of fs"
      using o by (cases a) (auto simp: store_obj_def split: if_splits sum.splits)
    moreover from i have "store_obj s (SArray i) = None" by (simp add: store_obj_def)
    ultimately show ?thesis by (auto simp: fun_eq_iff store_obj_update update_conv' distinct_update split: store_value.split)
  qed
  ultimately show ?thesis by (auto simp: update_laws_def store_boa_def)
qed

lemma store_reads: "read_laws store_boa store_obj"
proof -
  have "reads_elements store_boa s a vs" if "store_obj s a = Some (Elements vs)" for s a vs
    using that by (cases a) (auto simp: store_obj_def reads_elements_def store_boa_def split: if_splits sum.splits)
  moreover have "reads_members store_boa s a m" if o: "store_obj s a = Some (Members m)" for s a m
  proof -
    obtain i fs where i: "a = SObject i" "store_object s a = Some fs" "distinct (map fst fs)" "m = map_of fs"
      using o by (cases a) (auto simp: store_obj_def split: if_splits sum.splits)
    have "list_all2 (\<lambda>k t. key_text store_boa k = Some (Inr t) \<and> boa_get store_boa a k s = (Inr (the (m t)), s))
        (map (StringKey \<circ> fst) fs) (map fst fs)"
      using i by (auto simp: list_all2_map1 list_all2_map2 store_boa_def store_get_def list_all2_same)
    moreover have "boa_own_keys store_boa a s = (Inr (map (StringKey \<circ> fst) fs), s)" "\<not> boa_is_array store_boa a"
      using i(1,2) by (simp_all add: store_boa_def)
    ultimately show ?thesis using i(3,4) unfolding reads_members_def
      by (intro conjI exI [of _ "map (StringKey \<circ> fst) fs"] exI [of _ "map fst fs"]) (auto simp: dom_map_of_conv_image_fst)
  qed
  ultimately have "case c of Elements vs \<Rightarrow> reads_elements store_boa s a vs | Members m \<Rightarrow> reads_members store_boa s a m"
    if "store_obj s a = Some c" for s a c using that by (cases c) auto
  moreover have "(\<exists>i. a = SArray i) \<or> (\<exists>i. a = SObject i)" if "store_obj s a = Some c" for s a c
    using that by (cases a) (auto simp: store_obj_def)
  ultimately show ?thesis unfolding read_laws_def by (fastforce simp: store_boa_def)
qed

lemma store_laws: "engine_laws store_boa (\<lambda>_. True) store_obj"
  by (simp add: engine_laws_def store_scalars store_updates store_reads)

section \<open>The round trip\<close>

text \<open>
  C26. A value that goes into a script as its argument and is returned unchanged comes back the same, except that its numbers
  are those of binary64: members, elements, their order, texts and keys are kept, both conversions succeed, and integers
  up to \<open>2 ^ 53\<close> keep their value. An unsigned integer from \<open>2 ^ 31\<close> on does not come back as an integer, though, but as a
  float.
\<close>

theorem conversion_round_trip:
  assumes "engine_laws b valid obj" "json_ok valid j" "size j < depth"
  shows "\<exists>v s' j'. json_to_js_value b j s = (Inr v, s') \<and> js_value_to_json b depth v s' = Some (Inr j', s')
    \<and> as_doubles j' = as_doubles j \<and> (\<forall>n. j = JNumber (PosInt n) \<longrightarrow> 2 ^ 31 \<le> unat n \<longrightarrow> j' = as_doubles j)"
proof -
  have laws: "update_laws b valid obj" "scalar_laws b valid" using assms(1) by (simp_all add: engine_laws_def)
  obtain v s' where v: "json_to_js_value b j s = (Inr v, s')" "represents b obj (dom (obj s)) s' j v"
    using json_enters [OF laws(1) assms(2), of s] by (auto simp: enters_def)
  obtain j' where j': "js_value_to_json b depth v s' = Some (Inr j', s')" "as_doubles j' = as_doubles j"
    using json_leaves [OF assms(1) v(2) assms(2,3)] by (auto simp: leaves_def)
  have "j' = as_doubles j" if "j = JNumber (PosInt n)" "2 ^ 31 \<le> unat n" for n
    using large_integer_float [OF laws(2) that(2), of "depth - 1" s'] v(1) j'(1) that assms(3) by (cases depth) auto
  with v(1) j' show ?thesis by blast
qed

theorem conversion_round_trip_witness:
  "(let j = JObject [(''a'', JArray [JNumber (PosInt 5), JNull]), (''b'', JString ''x'')] in
    \<exists>v s' j'. json_to_js_value store_boa j [] = (Inr v, s') \<and> js_value_to_json store_boa 100 v s' = Some (Inr j', s')
     \<and> as_doubles j' = as_doubles j)
   \<and> (\<exists>v s'. json_to_js_value store_boa (JNumber (PosInt 4294967296)) [] = (Inr v, s')
     \<and> js_value_to_json store_boa 100 v s' = Some (Inr (JNumber (Float (Fin 4294967296))), s'))"
proof
  let ?j = "JObject [(''a'', JArray [JNumber (PosInt 5), JNull]), (''b'', JString ''x'')]"
  have "json_ok (\<lambda>_. True) ?j" "size ?j < 100" by (simp_all add: of_char_def)
  from conversion_round_trip [OF store_laws this, of "[]"]
  show "let j = ?j in \<exists>v s' j'. json_to_js_value store_boa j [] = (Inr v, s')
     \<and> js_value_to_json store_boa 100 v s' = Some (Inr j', s') \<and> as_doubles j' = as_doubles j"
    unfolding Let_def by blast
  let ?n = "JNumber (PosInt 4294967296)"
  have "as_doubles ?n = JNumber (Float (Fin 4294967296))" using as_double_exact [of 4294967296] by simp
  moreover have "json_ok (\<lambda>_. True) ?n" "size ?n < 100" by simp_all
  note conversion_round_trip [OF store_laws this, of "[]"]
  ultimately show "\<exists>v s'. json_to_js_value store_boa ?n [] = (Inr v, s')
     \<and> js_value_to_json store_boa 100 v s' = Some (Inr (JNumber (Float (Fin 4294967296))), s')" by fastforce
qed

end
