(* ===== verification/Collector.thy ===== *)
theory Collector
  imports Registry
begin

text \<open>
  The collectors (\<open>madrpc-metrics/src/collector.rs\<close>): a node's and an orchestrator's collector
  are pointers (\<open>Arc\<close>) to a registry, and \<open>with_registry\<close> lets several collectors share one.
  The registries live in a store, so that what one collector records is seen through the others.
  The trait \<open>MetricsCollector\<close> is a locale, with the two implementations as its interpretations.
\<close>

section \<open>The store of registries\<close>

record metrics_store =
  st_registries :: "registry list"
  st_clock :: ts_clock

definition arc_new :: "registry \<Rightarrow> metrics_store \<Rightarrow> nat \<times> metrics_store" where
  "arc_new r h = (length (st_registries h), h\<lparr>st_registries := st_registries h @ [r]\<rparr>)"

definition arc_ok :: "nat \<Rightarrow> metrics_store \<Rightarrow> bool" where
  "arc_ok p h \<longleftrightarrow> p < length (st_registries h)"

definition at_arc :: "nat \<Rightarrow> (registry \<Rightarrow> ts_clock \<Rightarrow> registry \<times> ts_clock) \<Rightarrow> metrics_store \<Rightarrow> metrics_store" where
  "at_arc p f h = h\<lparr>st_registries := (st_registries h)[p := fst (f (st_registries h ! p) (st_clock h))],
     st_clock := snd (f (st_registries h ! p) (st_clock h))\<rparr>"

lemma at_arc_simps [simp]:
  "length (st_registries (at_arc p f h)) = length (st_registries h)"
  "arc_ok q (at_arc p f h) = arc_ok q h"
  "arc_ok p h \<Longrightarrow> st_registries (at_arc p f h) ! q
     = (if q = p then fst (f (st_registries h ! p) (st_clock h)) else st_registries h ! q)"
  by (simp_all add: at_arc_def arc_ok_def nth_list_update)

section \<open>The node's collector\<close>

record node_metrics_collector =
  nc_registry :: nat

definition nc_new :: "instant \<Rightarrow> metrics_store \<Rightarrow> node_metrics_collector \<times> metrics_store" where
  "nc_new t h = (let (p, h) = arc_new (registry_new t) h in (\<lparr>nc_registry = p\<rparr>, h))"

definition nc_with_config :: "instant \<Rightarrow> metrics_config \<Rightarrow> metrics_store \<Rightarrow> node_metrics_collector \<times> metrics_store" where
  "nc_with_config t cfg h = (let (p, h) = arc_new (registry_with_config t cfg) h in (\<lparr>nc_registry = p\<rparr>, h))"

definition nc_with_registry :: "nat \<Rightarrow> node_metrics_collector" where
  "nc_with_registry p = \<lparr>nc_registry = p\<rparr>"

definition nc_snapshot :: "instant \<Rightarrow> node_metrics_collector \<Rightarrow> metrics_store \<Rightarrow> metrics_snapshot" where
  "nc_snapshot now k h = registry_snapshot now False (st_registries h ! nc_registry k)"

definition nc_handle_metrics_request ::
  "string \<Rightarrow> instant \<Rightarrow> node_metrics_collector \<Rightarrow> metrics_store \<Rightarrow> string \<Rightarrow> u64 \<Rightarrow> response option" where
  "nc_handle_metrics_request version now k h meth i =
     handle_metrics_request ServerNode version now meth i (st_registries h ! nc_registry k)"

definition nc_record_call ::
  "node_metrics_collector \<Rightarrow> string \<Rightarrow> instant \<Rightarrow> instant \<Rightarrow> bool \<Rightarrow> metrics_store \<Rightarrow> metrics_store" where
  "nc_record_call k meth start now success = at_arc (nc_registry k) (record_call meth start now success)"

section \<open>The orchestrator's collector\<close>

record orchestrator_metrics_collector =
  oc_registry :: nat

definition oc_new :: "instant \<Rightarrow> metrics_store \<Rightarrow> orchestrator_metrics_collector \<times> metrics_store" where
  "oc_new t h = (let (p, h) = arc_new (registry_new t) h in (\<lparr>oc_registry = p\<rparr>, h))"

definition oc_with_config :: "instant \<Rightarrow> metrics_config \<Rightarrow> metrics_store \<Rightarrow> orchestrator_metrics_collector \<times> metrics_store" where
  "oc_with_config t cfg h = (let (p, h) = arc_new (registry_with_config t cfg) h in (\<lparr>oc_registry = p\<rparr>, h))"

definition oc_with_registry :: "nat \<Rightarrow> orchestrator_metrics_collector" where
  "oc_with_registry p = \<lparr>oc_registry = p\<rparr>"

definition oc_record_node_request :: "orchestrator_metrics_collector \<Rightarrow> string \<Rightarrow> metrics_store \<Rightarrow> metrics_store" where
  "oc_record_node_request k node_addr = at_arc (oc_registry k) (record_node_request node_addr)"

definition oc_is_metrics_request :: "string \<Rightarrow> bool" where
  "oc_is_metrics_request meth = (meth = ''_metrics'' \<or> meth = ''_info'')"

definition oc_snapshot :: "instant \<Rightarrow> orchestrator_metrics_collector \<Rightarrow> metrics_store \<Rightarrow> metrics_snapshot" where
  "oc_snapshot now k h = registry_snapshot now True (st_registries h ! oc_registry k)"

definition oc_handle_metrics_request ::
  "string \<Rightarrow> instant \<Rightarrow> orchestrator_metrics_collector \<Rightarrow> metrics_store \<Rightarrow> string \<Rightarrow> u64 \<Rightarrow> response option" where
  "oc_handle_metrics_request version now k h meth i =
     (if meth = ''_metrics'' then Some (response_success i (snapshot_to_json (oc_snapshot now k h)))
      else if meth = ''_info'' then Some (response_success i (server_base_to_json
        \<lparr>sb_server_type = ServerOrchestrator, sb_version = version,
          sb_uptime_ms = uptime_ms now (st_registries h ! oc_registry k)\<rparr>))
      else None)"

definition oc_record_call ::
  "orchestrator_metrics_collector \<Rightarrow> string \<Rightarrow> instant \<Rightarrow> instant \<Rightarrow> bool \<Rightarrow> metrics_store \<Rightarrow> metrics_store" where
  "oc_record_call k meth start now success = at_arc (oc_registry k) (record_call meth start now success)"

section \<open>The trait\<close>

text \<open>The three global counters of a registry and of a snapshot.\<close>

definition registry_counts :: "registry \<Rightarrow> u64 \<times> u64 \<times> u64" where
  "registry_counts r = (total_requests r, successful_requests r, failed_requests r)"

definition snapshot_counts :: "metrics_snapshot \<Rightarrow> u64 \<times> u64 \<times> u64" where
  "snapshot_counts s = (ms_total_requests s, ms_successful_requests s, ms_failed_requests s)"

fun count_call :: "bool \<Rightarrow> u64 \<times> u64 \<times> u64 \<Rightarrow> u64 \<times> u64 \<times> u64" where
  "count_call ok (t, s, f) = (t + 1, s + of_bool ok, f + of_bool (\<not> ok))"

locale metrics_collector =
  fixes arc :: "'k \<Rightarrow> nat"
    and is_request :: "string \<Rightarrow> bool"
    and handle :: "string \<Rightarrow> instant \<Rightarrow> 'k \<Rightarrow> metrics_store \<Rightarrow> string \<Rightarrow> u64 \<Rightarrow> response option"
    and report :: "'k \<Rightarrow> string \<Rightarrow> instant \<Rightarrow> instant \<Rightarrow> bool \<Rightarrow> metrics_store \<Rightarrow> metrics_store"
    and snap :: "instant \<Rightarrow> 'k \<Rightarrow> metrics_store \<Rightarrow> metrics_snapshot"
  assumes answers: "is_request m \<Longrightarrow> \<exists>r. handle version now k h m i = Some r \<and> rs_id r = i \<and> rs_success r"
    and metrics_answer: "handle version now k h ''_metrics'' i = Some (response_success i (snapshot_to_json (snap now k h)))"
    and snap_counts: "snapshot_counts (snap now k h) = registry_counts (st_registries h ! arc k)"
    and record_store: "report k m t0 t1 ok h = at_arc (arc k) (record_call m t0 t1 ok) h"
begin

lemma record_seen:
  "arc_ok (arc k) h \<Longrightarrow> registry_counts (st_registries (report k m t0 t1 ok h) ! q)
     = (if q = arc k then count_call ok (registry_counts (st_registries h ! q)) else registry_counts (st_registries h ! q))"
  by (simp add: record_store registry_counts_def record_call_def method_call_counts)

lemma record_ok [simp]: "arc_ok q (report k m t0 t1 ok h) = arc_ok q h"
  by (simp add: record_store)

end

interpretation node_collector: metrics_collector nc_registry is_metrics_request nc_handle_metrics_request
    nc_record_call nc_snapshot
  by unfold_locales (auto simp: is_metrics_request_def nc_handle_metrics_request_def handle_metrics_request_def
    nc_snapshot_def snapshot_counts_def registry_counts_def registry_snapshot_def nc_record_call_def response_success_def)

interpretation orchestrator_collector: metrics_collector oc_registry oc_is_metrics_request oc_handle_metrics_request
    oc_record_call oc_snapshot
  by unfold_locales (auto simp: oc_is_metrics_request_def oc_handle_metrics_request_def
    oc_snapshot_def snapshot_counts_def registry_counts_def registry_snapshot_def oc_record_call_def response_success_def)

section \<open>Collectors that share registries\<close>

text \<open>What happens at the collectors of a process, in order: the records of each, of either kind.\<close>

datatype collector_op =
    NodeCall node_metrics_collector string instant instant bool
  | OrchCall orchestrator_metrics_collector string instant instant bool
  | OrchNode orchestrator_metrics_collector string

fun collector_exec :: "collector_op \<Rightarrow> metrics_store \<Rightarrow> metrics_store" where
  "collector_exec (NodeCall k m t0 t1 ok) h = nc_record_call k m t0 t1 ok h"
| "collector_exec (OrchCall k m t0 t1 ok) h = oc_record_call k m t0 t1 ok h"
| "collector_exec (OrchNode k a) h = oc_record_node_request k a h"

fun op_arc :: "collector_op \<Rightarrow> nat" where
  "op_arc (NodeCall k m t0 t1 ok) = nc_registry k"
| "op_arc (OrchCall k m t0 t1 ok) = oc_registry k"
| "op_arc (OrchNode k a) = oc_registry k"

fun call_result :: "collector_op \<Rightarrow> bool option" where
  "call_result (NodeCall k m t0 t1 ok) = Some ok"
| "call_result (OrchCall k m t0 t1 ok) = Some ok"
| "call_result (OrchNode k a) = None"

text \<open>The calls recorded through registry \<open>p\<close>, with their results.\<close>

definition calls_at :: "nat \<Rightarrow> collector_op list \<Rightarrow> bool list" where
  "calls_at p ops = map (the \<circ> call_result) (filter (\<lambda>op. op_arc op = p \<and> call_result op \<noteq> None) ops)"

lemma calls_at_simps [simp]:
  "calls_at p [] = []"
  "calls_at p (op # ops) = (case call_result op of Some ok \<Rightarrow> if op_arc op = p then ok # calls_at p ops else calls_at p ops
     | None \<Rightarrow> calls_at p ops)"
  by (auto simp: calls_at_def split: option.split)

lemma node_request_counts: "registry_counts (fst (record_node_request a r c)) = registry_counts r"
  by (simp add: registry_counts_def node_request_fields)

lemma exec_counts:
  assumes "arc_ok (op_arc op) h"
  shows "registry_counts (st_registries (collector_exec op h) ! p) = (case call_result op of
      Some ok \<Rightarrow> if op_arc op = p then count_call ok (registry_counts (st_registries h ! p)) else registry_counts (st_registries h ! p)
    | None \<Rightarrow> registry_counts (st_registries h ! p))"
  using assms
  by (cases op) (auto simp: node_collector.record_seen orchestrator_collector.record_seen
      oc_record_node_request_def node_request_counts)

lemma exec_ok [simp]: "arc_ok p (collector_exec op h) = arc_ok p h"
  by (cases op) (simp_all add: oc_record_node_request_def)

lemma run_collector_counts:
  "\<forall>op \<in> set ops. arc_ok (op_arc op) h \<Longrightarrow>
   registry_counts (st_registries (fold collector_exec ops h) ! p) = fold count_call (calls_at p ops) (registry_counts (st_registries h ! p))"
  by (induction ops arbitrary: h) (auto simp: exec_counts split: option.split)

lemma fold_count_call:
  "fold count_call oks (t, s, f) = (t + of_nat (length oks), s + of_nat (length (filter id oks)), f + of_nat (length (filter Not oks)))"
  by (induction oks arbitrary: t s f) (simp_all add: add.assoc)

text \<open>
  Collectors are views of registries: after any calls recorded through any collectors of a process, of
  nodes or of orchestrators, a collector reports exactly the calls recorded through the
  collectors that share its registry, those that succeeded and those that failed, and a client that
  asks for \<open>_metrics\<close> is sent that snapshot.
\<close>

theorem collectors_share:
  assumes "list_all (\<lambda>op. arc_ok (op_arc op) h) ops" "registry_counts (st_registries h ! nc_registry k) = (0, 0, 0)"
    and "oc_registry k' = nc_registry k"
  shows "let h' = fold collector_exec ops h; oks = calls_at (nc_registry k) ops;
       counts = (of_nat (length oks), of_nat (length (filter id oks)), of_nat (length (filter Not oks)))
     in snapshot_counts (nc_snapshot now k h') = counts \<and> snapshot_counts (oc_snapshot now k' h') = counts
       \<and> nc_handle_metrics_request version now k h' ''_metrics'' i
           = Some (response_success i (snapshot_to_json (nc_snapshot now k h')))"
  using run_collector_counts [of ops h "nc_registry k"] assms
  by (simp add: Let_def list_all_iff node_collector.snap_counts orchestrator_collector.snap_counts
      node_collector.metrics_answer fold_count_call)

theorem collectors_share_witness:
  "let (k, h) = nc_new 0 \<lparr>st_registries = [], st_clock = clock_start (\<lambda>_. 0)\<rparr>; k' = oc_with_registry (nc_registry k);
       h' = fold collector_exec [NodeCall k ''f'' 0 5 True, OrchNode k' ''a'', OrchCall k' ''f'' 1 9 False] h
   in snapshot_counts (nc_snapshot 9 k h') = (2, 1, 1)"
  using collectors_share [of "snd (nc_new 0 \<lparr>st_registries = [], st_clock = clock_start (\<lambda>_. 0)\<rparr>)"
      "[NodeCall \<lparr>nc_registry = 0\<rparr> ''f'' 0 5 True, OrchNode \<lparr>oc_registry = 0\<rparr> ''a'', OrchCall \<lparr>oc_registry = 0\<rparr> ''f'' 1 9 False]"
      "\<lparr>nc_registry = 0\<rparr>" "\<lparr>oc_registry = 0\<rparr>" 9]
  by (simp add: nc_new_def arc_new_def arc_ok_def oc_with_registry_def registry_counts_def registry_new_def
      registry_with_config_def Let_def)

end
