(* ===== verification/BlockingRuntime.thy ===== *)
theory BlockingRuntime
  imports Transition Runtime
begin

text \<open>
  The runtime that synchronous calls block on (\<open>madrpc-server/src/runtime/bindings.rs\<close>,
  \<open>get_blocking_runtime\<close>): a \<open>OnceLock\<close> that the threads of the node fill together. Reading the
  cell, creating a runtime and filling the cell are separate steps, between which other threads
  act. A runtime is a value of the type \<open>'r\<close>; whether \<open>tokio\<close> can create one is up to the
  environment. The second part is \<open>madrpc.callSync\<close>, which locks the runtime and blocks on it.
\<close>

section \<open>Callers\<close>

text \<open>A call of the function: not started, past the first test, with a runtime of its own, or returned.\<close>

datatype 'r caller = Idle | Building | Built 'r | Got 'r | Failed string

record 'r once =
  once_cell :: "'r option"
  once_callers :: "nat \<Rightarrow> 'r caller"

definition once_new :: "'r once" where
  "once_new = \<lparr>once_cell = None, once_callers = (\<lambda>_. Idle)\<rparr>"

definition set_caller :: "nat \<Rightarrow> 'r caller \<Rightarrow> 'r once \<Rightarrow> 'r once" where
  "set_caller c p o' = o'\<lparr>once_callers := (once_callers o')(c := p)\<rparr>"

text \<open>\<open>OnceLock::get_or_init\<close>: the content of the cell, which is \<open>r\<close> if it was empty.\<close>

definition get_or_init :: "'r \<Rightarrow> 'r option \<Rightarrow> 'r" where
  "get_or_init r cell = (case cell of None \<Rightarrow> r | Some r' \<Rightarrow> r')"

datatype 'r once_label = Test nat | Create nat 'r | CreateFailed nat string | Fill nat

inductive once_step :: "'r once \<Rightarrow> 'r once_label \<Rightarrow> 'r once \<Rightarrow> bool" where
  test: "once_callers o' c = Idle
    \<Longrightarrow> once_step o' (Test c) (set_caller c (case once_cell o' of None \<Rightarrow> Building | Some r \<Rightarrow> Got r) o')"
| create: "once_callers o' c = Building \<Longrightarrow> once_step o' (Create c r) (set_caller c (Built r) o')"
| create_failed: "once_callers o' c = Building \<Longrightarrow> once_step o' (CreateFailed c e) (set_caller c (Failed e) o')"
| fill: "once_callers o' c = Built r \<Longrightarrow> once_step o' (Fill c) (set_caller c (Got (get_or_init r (once_cell o')))
      (o'\<lparr>once_cell := Some (get_or_init r (once_cell o'))\<rparr>))"

inductive_cases once_stepE: "once_step o' l o''"

text \<open>Whoever has returned a runtime has that of the cell.\<close>

definition once_ok :: "'r once \<Rightarrow> bool" where
  "once_ok o' \<longleftrightarrow> (\<forall>c r. once_callers o' c = Got r \<longrightarrow> once_cell o' = Some r)"

interpretation once: invariant_system once_step once_ok
proof
  fix o' o'' :: "'r once" and l assume ok: "once_ok o'" and step: "once_step o' l o''"
  from step show "once_ok o''"
  proof cases
    case (fill c r)
    have "once_cell o' = Some r' \<Longrightarrow> get_or_init r (once_cell o') = r'" for r' by (simp add: get_or_init_def)
    with fill ok show ?thesis by (auto simp: once_ok_def set_caller_def)
  qed (use ok in \<open>auto simp: once_ok_def set_caller_def split: option.splits\<close>)
qed

lemma cell_stays: "steps once_step o' ls o'' \<Longrightarrow> once_cell o' = Some r \<Longrightarrow> once_cell o'' = Some r"
proof (induction rule: steps.induct)
  case (then_ o' l o1 ls o'')
  then show ?case by (auto elim!: once_stepE simp: set_caller_def get_or_init_def)
qed simp

section \<open>Blocking on the shared runtime\<close>

text \<open>
  What the threads of a process share: whether the runtime exists, and whether its \<open>Mutex\<close> is
  poisoned, which it is from when a thread panics while it holds the lock.
\<close>

record blocking_runtime =
  br_created :: bool
  br_poisoned :: bool

definition br_new :: blocking_runtime where
  "br_new = \<lparr>br_created = False, br_poisoned = False\<rparr>"

text \<open>
  A call from \<open>get_blocking_runtime\<close> to its answer. \<open>create\<close> is the error of creating a runtime, if
  there is one. \<open>block_on\<close> is that of \<open>tokio\<close>: whether the thread already drives asynchronous
  tasks, and what the future would return; \<open>None\<close> is a panic, here and in the result. The guard is
  dropped on every way out, when the stack unwinds too.
\<close>

definition lock_and_block :: "string option \<Rightarrow> (bool \<Rightarrow> json result \<Rightarrow> json result option) \<Rightarrow> bool \<Rightarrow> json result
    \<Rightarrow> blocking_runtime \<Rightarrow> (string + json) option \<times> blocking_runtime" where
  "lock_and_block create block_on in_async answer br =
     (case (if br_created br then None else create) of
        Some e \<Rightarrow> (Some (Inl (''Failed to get blocking runtime: '' @ e)), br)
      | None \<Rightarrow>
          let br = br\<lparr>br_created := True\<rparr>
          in if br_poisoned br
             then (Some (Inl (''Failed to lock runtime: poisoned lock: another task failed inside'')), br)
             else case block_on in_async answer of
               None \<Rightarrow> (None, br\<lparr>br_poisoned := True\<rparr>)
             | Some (Inl e) \<Rightarrow> (Some (Inl (''RPC call failed: '' @ error_to_string e)), br)
             | Some (Inr j) \<Rightarrow> (Some (Inr j), br))"

text \<open>
  \<open>madrpc.callSync\<close>: \<open>answer\<close> is what the client's call returns for a method and its parameters. The
  first component of the result is a value or an exception for the script, or a panic.
\<close>

definition js_call_sync :: "('s, 'v, 'k) boa \<Rightarrow> nat \<Rightarrow> string option \<Rightarrow> (bool \<Rightarrow> json result \<Rightarrow> json result option) \<Rightarrow> bool
    \<Rightarrow> (string \<Rightarrow> json \<Rightarrow> json result) \<Rightarrow> 'v list \<Rightarrow> 's \<Rightarrow> blocking_runtime
    \<Rightarrow> ((string + 'v) option \<times> 's \<times> blocking_runtime) option" where
  "js_call_sync b depth create block_on in_async answer args s br = map_option (\<lambda>r. case r of
       (Inl e, s) \<Rightarrow> (Some (Inl (boa_type_error b e)), s, br)
     | (Inr (meth, params), s) \<Rightarrow> (case lock_and_block create block_on in_async (answer meth params) br of
         (None, br) \<Rightarrow> (None, s, br)
       | (Some (Inl e), br) \<Rightarrow> (Some (Inl (boa_type_error b e)), s, br)
       | (Some (Inr j), br) \<Rightarrow> (case map_err (\<lambda>e. boa_type_error b (''Failed to convert result to JS: '' @ error_to_string e))
             (json_to_js_value b j s) of (v, s) \<Rightarrow> (Some v, s, br))))
     (call_arguments b depth args s)"

text \<open>
  Where a served node runs JavaScript (\<open>Node::call_rpc\<close>): on a blocking thread the closure reads the script
  first, outside of any \<open>block_on\<close>, and then calls the function, and runs the jobs it leaves, inside the
  \<open>block_on\<close> of its runtime. So a \<open>callSync\<close> at the top level of the script and one in a function
  meet a thread that does not drive asynchronous tasks, and one that does.
\<close>

datatype call_site = Evaluating | Executing

fun in_async_at :: "call_site \<Rightarrow> bool" where
  "in_async_at Evaluating = False"
| "in_async_at Executing = True"

text \<open>The calls of a process in the order in which they take the lock.\<close>

primrec lock_calls :: "(bool \<Rightarrow> json result \<Rightarrow> json result option) \<Rightarrow> (string option \<times> call_site \<times> json result) list
    \<Rightarrow> blocking_runtime \<Rightarrow> (string + json) option list \<times> blocking_runtime" where
  "lock_calls block_on [] br = ([], br)"
| "lock_calls block_on (c # cs) br = (case c of (create, site, answer) \<Rightarrow>
     case lock_and_block create block_on (in_async_at site) answer br of (r, br) \<Rightarrow>
     case lock_calls block_on cs br of (rs, br) \<Rightarrow> (r # rs, br))"

definition lock_poisoned :: "string + json" where
  "lock_poisoned = Inl ''Failed to lock runtime: poisoned lock: another task failed inside''"

definition call_text :: "json result \<Rightarrow> string + json" where
  "call_text answer = map_sum (\<lambda>e. ''RPC call failed: '' @ error_to_string e) (\<lambda>j. j) answer"

text \<open>The three ways of a call, the runtime being there or not in the way.\<close>

lemma lock_poisoned_call:
  "br_poisoned br \<Longrightarrow> lock_and_block None block_on in_async answer br = (Some lock_poisoned, br\<lparr>br_created := True\<rparr>)"
  by (simp add: lock_and_block_def lock_poisoned_def)

lemma lock_top_level:
  "\<forall>r. block_on False r = Some r \<Longrightarrow> \<not> br_poisoned br
   \<Longrightarrow> lock_and_block None block_on False answer br = (Some (call_text answer), br\<lparr>br_created := True\<rparr>)"
  by (cases answer) (simp_all add: lock_and_block_def call_text_def Let_def)

lemma lock_in_function:
  "\<forall>r. block_on True r = None \<Longrightarrow> \<not> br_poisoned br
   \<Longrightarrow> lock_and_block None block_on True answer br = (None, br\<lparr>br_created := True, br_poisoned := True\<rparr>)"
  by (simp add: lock_and_block_def Let_def)

lemma in_function_no_value:
  "\<forall>r. block_on True r = None \<Longrightarrow> fst (lock_and_block create block_on True answer br) \<noteq> Some (Inr j)"
  by (simp add: lock_and_block_def Let_def split: option.split)

lemma calls_in_functions:
  assumes "\<forall>r. block_on True r = None"
  shows "list_all2 (\<lambda>c r. fst (snd c) = Executing \<longrightarrow> (\<forall>j. r \<noteq> Some (Inr j))) cs (fst (lock_calls block_on cs br))"
proof (induction cs arbitrary: br)
  case (Cons c cs)
  obtain create site answer where c: "c = (create, site, answer)" by (cases c)
  from Cons.IH show ?case using in_function_no_value [of block_on, OF assms] by (cases site) (auto simp: c split_beta)
qed simp

lemma calls_poisoned:
  "list_all (\<lambda>c. fst c = None) cs \<Longrightarrow> br_poisoned br
   \<Longrightarrow> fst (lock_calls block_on cs br) = map (\<lambda>_. Some lock_poisoned) cs"
proof (induction cs arbitrary: br)
  case (Cons c cs)
  obtain site answer where c: "c = (None, site, answer)" using Cons.prems(1) by (cases c) auto
  from Cons show ?case by (simp add: c lock_poisoned_call split_beta)
qed simp

lemma calls_in_order:
  assumes tokio: "\<forall>r. block_on True r = None" "\<forall>r. block_on False r = Some r"
  shows "list_all (\<lambda>c. fst c = None) cs \<Longrightarrow> \<not> br_poisoned br \<Longrightarrow> fst (lock_calls block_on cs br) =
      map (\<lambda>c. Some (call_text (snd (snd c)))) (takeWhile (\<lambda>c. fst (snd c) = Evaluating) cs)
      @ (case dropWhile (\<lambda>c. fst (snd c) = Evaluating) cs of [] \<Rightarrow> []
         | c # later \<Rightarrow> None # map (\<lambda>_. Some lock_poisoned) later)"
proof (induction cs arbitrary: br)
  case (Cons c cs)
  obtain site answer where c: "c = (None, site, answer)" using Cons.prems(1) by (cases c) auto
  show ?case
  proof (cases site)
    case Evaluating
    with Cons show ?thesis by (simp add: c lock_top_level [of block_on, OF tokio(2)] split_beta)
  next
    case Executing
    with Cons.prems show ?thesis by (simp add: c lock_in_function [of block_on, OF tokio(1)] calls_poisoned split_beta)
  qed
qed simp

section \<open>Properties\<close>

text \<open>
  One runtime for all: whatever the interleaving of the calls, all that return a runtime return
  the same one, and it is the content of the cell, which never changes again. (Several
  runtimes may be created on the way; all but one are thrown away.)
\<close>

theorem one_blocking_runtime:
  assumes "steps once_step once_new ls o'" "once_callers o' c = Got r" "steps once_step o' ls' o''" "once_callers o'' d = Got r'"
  shows "r' = r \<and> once_cell o'' = Some r"
proof -
  have ok: "once_ok (once_new :: 'a once)" by (simp add: once_ok_def once_new_def)
  have "once_ok o'" using once.steps_inv [OF assms(1) ok] .
  moreover from once.steps_inv [OF assms(3) this] have "once_ok o''" .
  ultimately show ?thesis using assms cell_stays [OF assms(3)] by (fastforce simp: once_ok_def)
qed

text \<open>Two threads that race both create a runtime; the second one is given the first one's.\<close>

definition racing :: "nat option \<Rightarrow> nat caller \<Rightarrow> nat caller \<Rightarrow> nat once" where
  "racing cell p q = \<lparr>once_cell = cell, once_callers = (\<lambda>c. if c = 0 then p else if c = 1 then q else Idle)\<rparr>"

lemma racing_step: "once_step (racing cell p q) l s \<Longrightarrow> s = racing cell' p' q' \<Longrightarrow> once_step (racing cell p q) l (racing cell' p' q')"
  by simp

lemma racing_steps:
  "once_step (racing None Idle Idle) (Test 0) (racing None Building Idle)"
  "once_step (racing None Building Idle) (Test 1) (racing None Building Building)"
  "once_step (racing None Building Building) (Create 0 10) (racing None (Built 10) Building)"
  "once_step (racing None (Built 10) Building) (Create 1 20) (racing None (Built 10) (Built 20))"
  "once_step (racing None (Built 10) (Built 20)) (Fill 0) (racing (Some 10) (Got 10) (Built 20))"
  "once_step (racing (Some 10) (Got 10) (Built 20)) (Fill 1) (racing (Some 10) (Got 10) (Got 10))"
  by (rule racing_step, rule once_step.intros; simp add: racing_def set_caller_def get_or_init_def fun_eq_iff)+

theorem one_blocking_runtime_witness:
  "\<exists>s s'. steps once_step once_new [Test 0, Test 1, Create 0 (10 :: nat), Create 1 20, Fill 0] s
     \<and> steps once_step s [Fill 1] s' \<and> once_cell s' = Some 10 \<and> once_callers s' 1 = Got 10"
proof -
  have new: "(once_new :: nat once) = racing None Idle Idle" by (simp add: once_new_def racing_def fun_eq_iff)
  have run: "steps once_step once_new [Test 0, Test 1, Create 0 (10 :: nat), Create 1 20, Fill 0] (racing (Some 10) (Got 10) (Built 20))"
    unfolding new by (rule steps.then_, rule racing_steps(1), rule steps.then_, rule racing_steps(2), rule steps.then_,
      rule racing_steps(3), rule steps.then_, rule racing_steps(4), rule steps.then_, rule racing_steps(5), rule steps.stop)
  have fill: "steps once_step (racing (Some 10) (Got 10) (Built 20)) [Fill 1] (racing (Some 10) (Got 10) (Got 10))"
    using racing_steps(6) by (simp add: steps_Cons)
  have got: "once_callers (racing (Some 10) (Got 10) (Built 20)) 0 = Got 10" "once_callers (racing (Some 10) (Got 10) (Got 10)) 1 = Got 10"
    by (simp_all add: racing_def)
  from one_blocking_runtime [OF run got(1) fill got(2)] run fill got(2) show ?thesis by blast
qed

text \<open>
  C20. Synchronous calls of a served node: one in a function never yields a value, because the node executes
  functions inside \<open>block_on\<close> and a second \<open>block_on\<close> panics there, as \<open>tokio\<close> documents for a thread that
  drives asynchronous tasks; and the panic poisons the lock of the shared runtime. When the runtime can be
  created, the answers of all calls of the process are these: the calls at the top level of scripts get what
  the client's call returns, up to the first call in a function, which panics; every call after it, wherever it
  is made, fails at the lock, until the process ends.
\<close>

theorem call_sync_poisons:
  assumes "\<forall>r. block_on True r = None" "\<forall>r. block_on False r = Some r"
  shows "list_all2 (\<lambda>c r. fst (snd c) = Executing \<longrightarrow> (\<forall>j. r \<noteq> Some (Inr j))) cs (fst (lock_calls block_on cs br_new))
    \<and> (list_all (\<lambda>c. fst c = None) cs \<longrightarrow> fst (lock_calls block_on cs br_new) =
        map (\<lambda>c. Some (call_text (snd (snd c)))) (takeWhile (\<lambda>c. fst (snd c) = Evaluating) cs)
        @ (case dropWhile (\<lambda>c. fst (snd c) = Evaluating) cs of [] \<Rightarrow> []
           | c # later \<Rightarrow> None # map (\<lambda>_. Some lock_poisoned) later))"
  using calls_in_functions [of block_on cs br_new, OF assms(1)] calls_in_order [of block_on cs br_new, OF assms] by (auto simp: br_new_def)

theorem call_sync_poisons_witness:
  "fst (lock_calls (\<lambda>in_async r. if in_async then None else Some r)
       [(None, Evaluating, Inr JNull), (None, Executing, Inr JNull), (None, Evaluating, Inr JNull)] br_new)
     = [Some (Inr JNull), None, Some (Inl ''Failed to lock runtime: poisoned lock: another task failed inside'')]"
  using call_sync_poisons [of "\<lambda>in_async r. if in_async then None else Some r"
      "[(None, Evaluating, Inr JNull), (None, Executing, Inr JNull), (None, Evaluating, Inr JNull)]"]
  by (simp add: call_text_def lock_poisoned_def)

text \<open>
  Where no asynchronous task is driven, the call returns what the client's call returns, and the
  lock stays usable.
\<close>

theorem call_sync_blocking:
  assumes "\<forall>r. block_on False r = Some r"
  shows "lock_and_block None block_on False answer br_new = (Some (map_sum (\<lambda>e. ''RPC call failed: '' @ error_to_string e) (\<lambda>j. j) answer),
    br_new\<lparr>br_created := True\<rparr>)"
  using assms by (cases answer) (simp_all add: lock_and_block_def br_new_def Let_def)

theorem call_sync_blocking_witness:
  "lock_and_block None (\<lambda>in_async r. if in_async then None else Some r) False (Inr JNull) br_new = (Some (Inr JNull), br_new\<lparr>br_created := True\<rparr>)"
  using call_sync_blocking [of "\<lambda>in_async r. if in_async then None else Some r" "Inr JNull"] by simp

end
