(* ===== verification/HealthSchedule.thy ===== *)
theory HealthSchedule
  imports HealthChecker Tasks
begin

text \<open>
  When the health checker runs (\<open>madrpc-orchestrator/src/health_checker.rs\<close>, \<open>spawn\<close> and \<open>run\<close>):
  the task ticks at the configured interval and makes a round at each tick. The ticks are those
  of \<open>tokio::time::interval\<close>: the first one at once, the others a period apart, and a tick that is
  late comes as soon as the task asks for it. A period of zero is refused with a panic.
\<close>

section \<open>The task\<close>

record health_checker =
  hk_config :: health_check_config

definition health_checker_new :: "health_check_config \<Rightarrow> health_checker result" where
  "health_checker_new cfg = Inr \<lparr>hk_config = cfg\<rparr>"

text \<open>
  The starts of the rounds, from their lengths: \<open>due\<close> is when the next tick is due and \<open>free\<close> when
  the last round is over.
\<close>

primrec round_starts :: "duration \<Rightarrow> instant \<Rightarrow> instant \<Rightarrow> duration list \<Rightarrow> instant list" where
  "round_starts period due free [] = []"
| "round_starts period due free (d # ds) =
     max due free # round_starts period (due + period) (max due free + d) ds"

text \<open>
  The task up to some round, started at \<open>t\<close>: the starts of its rounds, each of which takes \<open>fst\<close> of
  its entry and meets \<open>snd\<close> of it, and the pool they leave; \<open>None\<close> is the panic, which ends the
  task. The orchestrator does not wait for the task and goes on without it.
\<close>

definition health_task :: "health_checker \<Rightarrow> instant \<Rightarrow> (duration \<times> round_env) list \<Rightarrow> load_balancer
    \<Rightarrow> (instant list \<times> load_balancer) option" where
  "health_task k t rounds lb = (if check_interval (hk_config k) = 0 then None
     else Some (round_starts (check_interval (hk_config k)) t t (map fst rounds), health_run (hk_config k) (map snd rounds) lb))"

lemma length_round_starts [simp]: "length (round_starts period due free ds) = length ds"
  by (induction ds arbitrary: due free) simp_all

lemma round_starts_due:
  "i < length ds \<Longrightarrow> due + i * period \<le> round_starts period due free ds ! i"
proof (induction ds arbitrary: due free i)
  case (Cons d ds)
  then show ?case
  proof (cases i)
    case (Suc j)
    with Cons.IH [of j "due + period"] Cons.prems show ?thesis by (simp add: add.assoc)
  qed simp
qed simp

lemma round_starts_free:
  "Suc i < length ds \<Longrightarrow> round_starts period due free ds ! i + ds ! i \<le> round_starts period due free ds ! Suc i"
proof (induction ds arbitrary: due free i)
  case (Cons d ds)
  show ?case
  proof (cases i)
    case 0
    with Cons.prems show ?thesis by (cases ds) simp_all
  next
    case (Suc j)
    with Cons show ?thesis by simp
  qed
qed simp

lemma round_starts_steady:
  "\<forall>d \<in> set ds. d \<le> period \<Longrightarrow> free \<le> due \<Longrightarrow> i < length ds \<Longrightarrow> round_starts period due free ds ! i = due + i * period"
proof (induction ds arbitrary: due free i)
  case (Cons d ds)
  then show ?case
  proof (cases i)
    case (Suc j)
    with Cons.IH [of "max due free + d" "due + period" j] Cons.prems show ?thesis by (simp add: max_def add.assoc)
  qed (simp add: max_def)
qed simp


section \<open>Properties\<close>

text \<open>
  The rounds come in time: the checker makes no round at all when its interval is zero, which nothing
  refuses; otherwise round \<open>i\<close> starts no earlier than \<open>i\<close> intervals after the start, rounds never
  overlap, and as long as no round takes longer than the interval, every one starts exactly on time.
\<close>

theorem rounds_in_time:
  "case health_task k t rounds lb of
     None \<Rightarrow> check_interval (hk_config k) = 0
   | Some (starts, _) \<Rightarrow> length starts = length rounds
       \<and> (\<forall>i < length rounds. t + i * check_interval (hk_config k) \<le> starts ! i)
       \<and> (\<forall>i. Suc i < length rounds \<longrightarrow> starts ! i + fst (rounds ! i) \<le> starts ! Suc i)
       \<and> (list_all (\<lambda>r. fst r \<le> check_interval (hk_config k)) rounds
          \<longrightarrow> (\<forall>i < length rounds. starts ! i = t + i * check_interval (hk_config k)))"
proof -
  have "round_starts p t t (map fst rounds) ! i + fst (rounds ! i) \<le> round_starts p t t (map fst rounds) ! Suc i"
    if "Suc i < length rounds" for i p
    using round_starts_free [of i "map fst rounds" p t t] that by simp
  moreover have "t + i * p \<le> round_starts p t t (map fst rounds) ! i" if "i < length rounds" for i p
    using round_starts_due [of i "map fst rounds" t p t] that by simp
  moreover have "round_starts p t t (map fst rounds) ! i = t + i * p"
    if "list_all (\<lambda>r. fst r \<le> p) rounds" "i < length rounds" for i p
    using round_starts_steady [of "map fst rounds" p t t i] that by (auto simp: list_all_iff)
  ultimately show ?thesis by (simp add: health_task_def)
qed

theorem rounds_in_time_witness:
  "case health_task \<lparr>hk_config = default_health_config\<rparr> 3 [(from_secs 7, calm (\<lambda>_. Inr ())), (1, calm (\<lambda>_. Inr ()))] (lb_new [''a'']) of
     None \<Rightarrow> False | Some (starts, _) \<Rightarrow> length starts = 2 \<and> starts ! 0 + from_secs 7 \<le> starts ! Suc 0"
  using rounds_in_time [where k = "\<lparr>hk_config = default_health_config\<rparr>" and t = 3 and rounds = "[(from_secs 7, calm (\<lambda>_. Inr ())), (1, calm (\<lambda>_. Inr ()))]" and lb = "lb_new [''a'']"]
  by (simp add: health_task_def default_health_config_def)



end
