(* ===== verification/Terminal.thy ===== *)
theory Terminal
  imports CommandLine
begin

text \<open>
  The session of the live display (\<open>madrpc-cli/src/top.rs\<close>, \<open>run_top\<close> and \<open>TerminalGuard\<close>): setting the
  terminal up, the event loop with its errors, and the guard that restores the terminal, whatever
  way the loop ends. The calls of \<open>crossterm\<close> and \<open>ratatui\<close> are the state of the terminal and errors
  that the environment chooses. It also holds the entry point of the command line (\<open>main.rs\<close>).
\<close>

section \<open>The terminal\<close>

record terminal =
  tm_raw :: bool
  tm_alternate :: bool
  tm_mouse :: bool
  tm_cursor :: bool

definition plain_terminal :: terminal where
  "plain_terminal = \<lparr>tm_raw = False, tm_alternate = False, tm_mouse = False, tm_cursor = True\<rparr>"

text \<open>
  What the calls meet: the errors of \<open>enable_raw_mode\<close>, of the escape sequences that enter the
  alternate screen (with whether each had taken effect), of \<open>Terminal::new\<close> and of
  \<open>MadrpcClient::new\<close>, and the answer to the first request.
\<close>

record setup_env =
  se_raw :: "string option"
  se_enter :: "string option \<times> bool \<times> bool"
  se_terminal :: "string option"
  se_first :: "json result"

text \<open>\<open>TerminalGuard::drop\<close>: each step may fail, which is ignored; then its effect is missing.\<close>

record cleanup_env =
  ce_raw_fails :: bool
  ce_leave_fails :: bool
  ce_cursor_fails :: bool

definition guard_drop :: "cleanup_env \<Rightarrow> terminal \<Rightarrow> terminal" where
  "guard_drop ce t =
     (let t = (if ce_raw_fails ce then t else t\<lparr>tm_raw := False\<rparr>);
          t = (if ce_leave_fails ce then t else t\<lparr>tm_alternate := False, tm_mouse := False\<rparr>)
      in if ce_cursor_fails ce then t else t\<lparr>tm_cursor := True\<rparr>)"

section \<open>The event loop\<close>

text \<open>How a turn ends: a key event, another event or the time-out, an error of \<open>poll\<close> or \<open>read\<close>, or a panic.\<close>

datatype turn_end = KeyPressed char | OtherEvent | PollFailed string | ReadFailed string | TurnPanics

text \<open>A turn: the metrics if they are due, the wall clock, the error of \<open>draw\<close>, and how it ends.\<close>

type_synonym session_turn = "(json result \<times> instant) option \<times> u64 \<times> string option \<times> turn_end"

datatype session_result = Quit | SessionFailed string | SessionPanics | StillRunning

text \<open>\<open>draw\<close> hides the cursor.\<close>

primrec session_loop :: "(f64 \<Rightarrow> string) \<Rightarrow> (json \<Rightarrow> string + metrics_snapshot) \<Rightarrow> session_turn list \<Rightarrow> top_app \<Rightarrow> terminal
    \<Rightarrow> session_result \<times> frame list \<times> terminal" where
  "session_loop fixed1 metrics_of [] app t = (if ta_should_quit app then (Quit, [], t) else (StillRunning, [], t))"
| "session_loop fixed1 metrics_of (turn # turns) app t = (if ta_should_quit app then (Quit, [], t)
     else (case turn of (due, now_ms, draw_error, end) \<Rightarrow>
       let app = (case due of Some (answer, now) \<Rightarrow> update_metrics metrics_of now answer app | None \<Rightarrow> app)
       in (case draw_error of
         Some e \<Rightarrow> (SessionFailed e, [], t)
       | None \<Rightarrow>
           let frame = draw fixed1 now_ms app; t = t\<lparr>tm_cursor := False\<rparr>;
               go = (\<lambda>app. (case session_loop fixed1 metrics_of turns app t of (r, frames, t) \<Rightarrow> (r, frame # frames, t)))
           in (case end of
             KeyPressed k \<Rightarrow> go (handle_key_event k app)
           | OtherEvent \<Rightarrow> go app
           | PollFailed e \<Rightarrow> (SessionFailed e, [frame], t)
           | ReadFailed e \<Rightarrow> (SessionFailed e, [frame], t)
           | TurnPanics \<Rightarrow> (SessionPanics, [frame], t)))))"

text \<open>
  \<open>run_top\<close>: before the guard exists an error returns at once; afterwards the guard is dropped on every way
  out, also when the stack unwinds.
\<close>

definition top_session :: "(f64 \<Rightarrow> string) \<Rightarrow> (json \<Rightarrow> string + server_base) \<Rightarrow> (json \<Rightarrow> string + metrics_snapshot) \<Rightarrow> setup_env
    \<Rightarrow> cleanup_env \<Rightarrow> string \<Rightarrow> u64 \<Rightarrow> session_turn list \<Rightarrow> terminal \<Rightarrow> session_result \<times> frame list \<times> terminal" where
  "top_session fixed1 info_of metrics_of se ce server_address interval turns t = (case se_raw se of
     Some e \<Rightarrow> (SessionFailed e, [], t)
   | None \<Rightarrow>
       let t = t\<lparr>tm_raw := True\<rparr>;
           (error, alternate, mouse) = se_enter se;
           t = t\<lparr>tm_alternate := alternate \<or> error = None, tm_mouse := mouse \<or> error = None\<rparr>
       in (case error of
         Some e \<Rightarrow> (SessionFailed e, [], t)
       | None \<Rightarrow> (case se_terminal se of
           Some e \<Rightarrow> (SessionFailed e, [], t)
         | None \<Rightarrow> (case client_new server_address of
             Inl e \<Rightarrow> (SessionFailed (error_to_string e), [], guard_drop ce t)
           | Inr cl \<Rightarrow>
               let app = detect_server_type info_of (se_first se) (top_new server_address interval)
               in (case session_loop fixed1 metrics_of turns app t of
                 (r, frames, t) \<Rightarrow> (r, frames, if r = StillRunning then t else guard_drop ce t))))))"

section \<open>The entry point\<close>

record top_args =
  ta_args_server_address :: string
  ta_args_interval_ms :: u64

datatype commands = NodeCmd node_args | OrchestratorCmd orchestrator_args | TopCmd top_args | CallCmd call_args

text \<open>Whether \<open>main\<close> installs the logger, which writes to the standard output.\<close>

definition initialises_logging :: "string option \<Rightarrow> commands \<Rightarrow> bool" where
  "initialises_logging rust_log cmd = (case cmd of CallCmd a \<Rightarrow> False | TopCmd a \<Rightarrow> False | _ \<Rightarrow> rust_log \<noteq> Some ''off'')"

definition main_top :: "(f64 \<Rightarrow> string) \<Rightarrow> (json \<Rightarrow> string + server_base) \<Rightarrow> (json \<Rightarrow> string + metrics_snapshot) \<Rightarrow> setup_env
    \<Rightarrow> cleanup_env \<Rightarrow> top_args \<Rightarrow> session_turn list \<Rightarrow> terminal \<Rightarrow> session_result \<times> frame list \<times> terminal" where
  "main_top fixed1 info_of metrics_of se ce a turns t =
     (case validate_http_url (ta_args_server_address a) ''server address'' of
        Inl e \<Rightarrow> (SessionFailed e, [], t)
      | Inr _ \<Rightarrow> top_session fixed1 info_of metrics_of se ce (ta_args_server_address a) (ta_args_interval_ms a) turns t)"

section \<open>What the loop does to the terminal\<close>

lemma loop_terminal:
  "case session_loop fixed1 metrics_of turns app t of (r, frames, t') \<Rightarrow>
     tm_raw t' = tm_raw t \<and> tm_alternate t' = tm_alternate t \<and> tm_mouse t' = tm_mouse t"
proof (induction turns arbitrary: app t)
  case (Cons turn turns)
  obtain due now_ms draw_error end' where turn: "turn = (due, now_ms, draw_error, end')" by (cases turn)
  note IH = Cons.IH [unfolded case_prod_unfold]
  show ?case by (cases draw_error; cases end') (simp_all add: turn Let_def case_prod_unfold IH)
qed simp_all

text \<open>Without errors and panics, the session is the loop of \<open>CommandLine\<close>.\<close>

fun plain_turn :: "turn \<Rightarrow> session_turn" where
  "plain_turn (due, key, now_ms) = (due, now_ms, None, case key of Some k \<Rightarrow> KeyPressed k | None \<Rightarrow> OtherEvent)"

lemma session_is_top_loop:
  "fst (snd (session_loop fixed1 metrics_of (map plain_turn turns) app t)) = fst (top_loop fixed1 metrics_of turns app)"
proof (induction turns arbitrary: app t)
  case (Cons u us)
  obtain due key now_ms where u: "u = (due, key, now_ms)" by (cases u)
  show ?case by (cases key) (simp_all add: u Let_def split_beta Cons.IH)
qed simp

section \<open>Properties\<close>

text \<open>
  C37. The terminal is given back as it was: once the guard exists, whatever way the session ends, by the
  key, an error or a panic, the terminal is plain again (provided the calls that restore it work),
  and while it runs the terminal is not. Before that there is a gap: an error after raw mode was
  enabled leaves the terminal raw.
\<close>

theorem terminal_restored:
  assumes "top_session fixed1 info_of metrics_of se \<lparr>ce_raw_fails = False, ce_leave_fails = False, ce_cursor_fails = False\<rparr>
      server_address interval turns plain_terminal = (r, frames, t)"
  shows "case (se_raw se, fst (se_enter se), se_terminal se) of
      (Some e, _, _) \<Rightarrow> r = SessionFailed e \<and> t = plain_terminal
    | (None, Some e, _) \<Rightarrow> r = SessionFailed e \<and> tm_raw t
    | (None, None, Some e) \<Rightarrow> r = SessionFailed e \<and> tm_raw t \<and> tm_alternate t \<and> tm_mouse t
    | (None, None, None) \<Rightarrow> if r = StillRunning then tm_raw t \<and> tm_alternate t \<and> tm_mouse t else t = plain_terminal"
proof -
  have drop: "guard_drop \<lparr>ce_raw_fails = False, ce_leave_fails = False, ce_cursor_fails = False\<rparr> t' = plain_terminal" for t'
    by (simp add: guard_drop_def plain_terminal_def)
  show ?thesis
  proof (cases "se_raw se = None \<and> fst (se_enter se) = None \<and> se_terminal se = None")
    case True
    then have none: "se_raw se = None" "fst (se_enter se) = None" "se_terminal se = None" by auto
    obtain alternate mouse where enter: "se_enter se = (None, alternate, mouse)" using none(2) by (cases "se_enter se") auto
    let ?app = "detect_server_type info_of (se_first se) (top_new server_address interval)"
    let ?t = "plain_terminal\<lparr>tm_raw := True, tm_alternate := True, tm_mouse := True\<rparr>"
    obtain r' frames' t' where loop: "session_loop fixed1 metrics_of turns ?app ?t = (r', frames', t')"
      by (cases "session_loop fixed1 metrics_of turns ?app ?t")
    with loop_terminal [where ?fixed1.0 = fixed1 and metrics_of = metrics_of and turns = turns and app = ?app and t = ?t]
    have "tm_raw t'" "tm_alternate t'" "tm_mouse t'" by simp_all
    with assms loop none enter drop show ?thesis
      by (auto simp: top_session_def client_new_def with_configs_def split: session_result.splits)
  next
    case False
    with assms show ?thesis by (auto simp: top_session_def Let_def split_beta split: option.splits)
  qed
qed

theorem terminal_restored_witness:
  "let se = \<lparr>se_raw = None, se_enter = (None, True, True), se_terminal = None, se_first = Inl AllNodesFailed\<rparr>;
       ce = \<lparr>ce_raw_fails = False, ce_leave_fails = False, ce_cursor_fails = False\<rparr>
   in case top_session (\<lambda>_. ''0.0'') (\<lambda>_. Inl ''shape'') (\<lambda>_. Inl ''shape'') se ce ''http://o'' 250
        [(None, 7, None, OtherEvent), (None, 8, None, TurnPanics)] plain_terminal of
      (r, frames, t) \<Rightarrow> r = SessionPanics \<and> t = plain_terminal"
proof -
  let ?se = "\<lparr>se_raw = None, se_enter = (None, True, True), se_terminal = None, se_first = Inl AllNodesFailed :: json result\<rparr>"
  let ?ce = "\<lparr>ce_raw_fails = False, ce_leave_fails = False, ce_cursor_fails = False\<rparr>"
  let ?s = "top_session (\<lambda>_. ''0.0'') (\<lambda>_. Inl ''shape'') (\<lambda>_. Inl ''shape'') ?se ?ce ''http://o'' 250
      [(None, 7, None, OtherEvent), (None, 8, None, TurnPanics)] plain_terminal"
  obtain r frames t where s: "?s = (r, frames, t)" by (cases ?s)
  have "fst ?s = SessionPanics"
    by (simp add: top_session_def client_new_def with_configs_def top_new_def detect_server_type_def Let_def)
  with s terminal_restored [OF s] show ?thesis by (simp add: Let_def)
qed

end
