(* ===== verification/Spec2Isabelle.thy ===== *)
theory Spec2Isabelle
  imports OrchServe NodeServer CommandLine Tasks Atomics LimiterTasks Listener Conversions Collector BlockingRuntime HealthSchedule Terminal
begin

text \<open>
  \<^bold>\<open>MaDRPC\<close> is a distributed remote procedure call system in Rust. Compute nodes run JavaScript
  functions, an orchestrator spreads JSON-RPC 2.0 calls over the nodes, a client posts calls to either
  over HTTP, and a command line starts the servers, makes calls and shows live metrics.

  \<^bold>\<open>Parts and sources\<close> (all under \<open>src/crates\<close>; each theory keeps the names of the code where it can):
  \<^item> \<open>Prelude\<close>: machine types, durations, association lists as hash maps. \<open>F64\<close>: binary64 arithmetic
    with round-to-nearest-even over the rationals, as far as the code uses floats.
  \<^item> \<open>Transition\<close>: runs of labelled step relations, with locales for an invariant, for the view one
    component has of a run, and for participants whose steps are bounded. \<open>Gated\<close>: a locale for systems
    whose requests a rate limiter judges one after another.
  \<^item> \<open>Protocol\<close> (\<open>madrpc-common/src/protocol\<close>, \<open>transport/http.rs\<close>): JSON, errors, JSON-RPC messages with
    their serialized forms, request identifiers, size limits.
  \<^item> \<open>Auth\<close>, \<open>RateLimit\<close> (\<open>madrpc-common/src\<close>): the API key, and token buckets for each address.
    \<open>LimiterTasks\<close>: concurrent checks of the limiter, which read the clock before they queue for its locks, and
    a locale for systems whose steps contain the sections of such checks.
  \<^item> \<open>Histogram\<close>, \<open>Registry\<close> (\<open>madrpc-metrics/src\<close>): latencies in buckets, the counters with their
    cleanup and eviction, timestamps. \<open>Atomics\<close>: the same recordings step by step, as threads that interleave.
    \<open>Collector\<close>: the two collectors over registries they share.
  \<^item> \<open>Retry\<close>: the shape of a bounded retry and its facts, as a locale; \<open>Client\<close>, \<open>Orchestrator\<close> and
    \<open>NodeServer\<close> interpret it on the loops of the code.
  \<^item> \<open>Client\<close> (\<open>madrpc-client/src/client.rs\<close>): configuration, one attempt, the call with its retries.
  \<^item> \<open>OrchNode\<close>, \<open>LoadBalancer\<close>, \<open>HealthChecker\<close>, \<open>Orchestrator\<close> (\<open>madrpc-orchestrator/src\<close>: \<open>node.rs\<close>,
    \<open>load_balancer.rs\<close>, \<open>health_checker.rs\<close>, \<open>orchestrator.rs\<close>): circuit breakers, the pool and the
    rotation over it, the rounds of health checks, forwarding with failover and registration.
    \<open>Tasks\<close>: concurrent forwardings over one pool and one registry. \<open>HealthSchedule\<close>: the task that
    starts the rounds.
  \<^item> \<open>HttpFront\<close>: headers, replies and gates the two servers share. \<open>OrchHttp\<close>
    (\<open>madrpc-orchestrator/src/http_router.rs\<close>, \<open>http_server.rs\<close>): the orchestrator's requests. \<open>OrchServe\<close>: its
    routes and the run of the server.
  \<^item> \<open>JobExecutor\<close>, \<open>Runtime\<close> (\<open>madrpc-server/src/runtime\<close>): the job queues of the interpreter, the
    conversions, the functions scripts call, a call with its promise. \<open>Conversions\<close>: the way of a value into
    a script and back. \<open>BlockingRuntime\<close>: the runtime
    that synchronous calls share, its creation and its lock, for calls at the top level of a script and in
    functions. \<open>NodeServer\<close> (\<open>node.rs\<close>,
    \<open>resource_limits.rs\<close>, \<open>http_router.rs\<close>, \<open>http_server.rs\<close>): the node and its requests. \<open>Listener\<close>: its connections
    and their permits, with the checks of the limiter interleaved.
  \<^item> \<open>CommandLine\<close> (\<open>madrpc-cli/src\<close>): the commands' configuration and order, the live display.
    \<open>Terminal\<close>: the session of the display and what it does to the terminal.
  \<^item> This theory: what a call does on its way from a client through the orchestrator to a node.

  \<^bold>\<open>How the code is rendered.\<close> A struct is a record, an enum a datatype, \<open>u32\<close> and \<open>u64\<close> are words
  (sums wrap, as in a release build), \<open>usize\<close> is a natural number with its
  modulus written where it is reached, \<open>Result\<close> is a sum with the error on the left, and a panic is
  \<open>None\<close> or a constructor of an outcome. A \<open>HashMap\<close> is an association list with distinct keys; a theorem
  about every list is one about every iteration order. A \<open>String\<close> is the list of its UTF-8 bytes. Clock
  readings and random values are arguments. A method under one lock is one function; where a method
  releases its locks between steps, what other tasks do meanwhile is a list of operations, over which
  the theorems quantify; \<open>Tasks\<close>, \<open>Atomics\<close>, \<open>LimiterTasks\<close>, \<open>Listener\<close> and \<open>BlockingRuntime\<close> have the tasks themselves as participants of a
  step relation, and \<open>interleaving_is_sequential\<close> shows that the list of operations loses nothing. Members of an object are kept in the order of the struct's fields.

  \<^bold>\<open>Bounds and fuel.\<close> The loops of the code end by their counters, and their definitions recurse on these
  or have a termination proof, except three. The run of the job queues need not end and is given a
  number of turns: \<open>jobs_finish\<close> shows how many are enough when the work of the jobs is finite and their
  futures complete. The polling of a promise is given a number of
  polls: 602 (every 50 ms) and 3002 (every 10 ms) are enough for its 30 seconds, whatever the clock
  does, by \<open>one_run_decides\<close>. The conversion of a JavaScript value is given a depth, the code its stack.
  Having had too little is a value of its own, \<open>Unfinished\<close>, up to the handler of the node's server, and never an
  answer: the time limit of a node depends on the time its task takes alone.

  \<^bold>\<open>What the lemmas show.\<close> The invariant of the pool holds in every reachable state; selection is a fair
  rotation over the selectable nodes and refines its specification; circuits move along the documented
  edges; health rounds enable and disable as their thresholds say and respect manual disabling;
  forwarding is a bounded retry over the rotation with exact accounting; the limiter keeps its rate
  and addresses apart, and under concurrent checks exceeds the rate at most by what readings of the clock
  step back between its sections; the percentiles are right up to a factor of two; eviction removes the least
  recently used; the gates of both servers come in their order and let nothing else through; jobs are
  run once; a call is decided by one run of its jobs; concurrent calls share the rotation and the
  counters without losing an update, down to the atomic operations, and each ends after a bounded number of steps; the connections of a node
  are bounded, and together they keep to the limiter's bound for concurrent checks; an outage is noticed after so
  many rounds; the terminal is restored; a value survives its way through a script, for every engine with the laws of
  \<open>engine_laws\<close>; a registration reaches the pool; and a value or an error of a function reaches the
  client that called it, along the whole path. Some theorems state what goes wrong: an outage of the connection is not
  failed over, a call whose job hangs is not ended by its limit, one synchronous call in a function disables all that
  follow, and a node with an API key is of no use to its orchestrator.

  \<^bold>\<open>Not modelled.\<close> Sockets, TLS, CORS, the reading of bodies and the answers to unknown paths (\<open>hyper\<close>,
  \<open>axum\<close>); the interpreter (\<open>boa\<close>), whose functions are the fields of a record; the text parser and
  printer of \<open>serde_json\<close>, parameters too; the scheduler of \<open>tokio\<close>, any order of steps being
  possible; the parser of options, the formatting of logs, colours and widths of the display; tests,
  benchmarks and examples.
\<close>

section \<open>From the client to the node and back\<close>

text \<open>The headers of the client's requests (\<open>MadrpcClient::try_call\<close>).\<close>

definition client_headers :: headers where
  "client_headers = [(''content-type'', Some ''application/json''), (''accept'', Some ''application/json'')]"

text \<open>What a client reads of a node's answer, and of the orchestrator's answer that relays it.\<close>

definition read_at_node :: "json result \<Rightarrow> json result" where
  "read_at_node r = (case r of Inr v \<Rightarrow> Inr v
     | Inl (JavaScriptExecution msg) \<Rightarrow> Inl (JavaScriptExecution msg)
     | Inl _ \<Rightarrow> Inl (InvalidRequest ''Method not found: Method not found''))"

definition read_at_orchestrator :: "json result \<Rightarrow> json result" where
  "read_at_orchestrator r = map_sum (\<lambda>e. JavaScriptExecution (error_to_string e)) (\<lambda>v. v) (read_at_node r)"

definition relayed :: "json \<Rightarrow> json result \<Rightarrow> json_rpc_response" where
  "relayed i r = (case read_at_node r of Inr v \<Rightarrow> rpc_success i v
     | Inl e \<Rightarrow> rpc_error i (server_error (error_to_string e)))"

lemma read_conclusive: "conclusive (read_at_node r)" "settled (read_at_node r)" "conclusive (read_at_orchestrator r)"
  by (auto simp: read_at_orchestrator_def read_at_node_def conclusive_def settled_def
      split: sum.splits madrpc_error.splits)

lemma forward_first:
  assumes "\<not> is_metrics_request (req_method req)" "next_node (fe_now env 0) (orch_lb o') = (Some a, lb)"
    and "try_call lib (normalize_url a) (fe_net env 0 a 1) = r" "conclusive r" "settled r"
  shows "\<exists>o''. forward_request_jsonrpc lib env version req o' = Some (r, [SentTo a], o'')"
proof -
  have "send_http_request lib env 0 (req_method req) (req_params req) a = r"
    using call_first [of lib "\<lparr>base_url = normalize_url a, pool_config = default_connection, retry = default_retry\<rparr>"
        "fe_net env 0 a"] assms(3,4)
    by (simp add: send_http_request_def client_new_def with_configs_def default_retry_def)
  then show ?thesis using assms(1,2,5)
    by (cases r) (auto simp: forward_request_jsonrpc_def settled_def Let_def)
qed

lemma admitted_jsonrpc:
  assumes "check_rate_limit now created ip (os_limiter s) = (Some Allowed, limiter)"
    and "api_key (os_auth s) \<in> {None, Some (provided_key hs)}" "content_type_ok hs"
    and "parse_jsonrpc (parse_tree sd) (request_shape sd) body = Inr req"
    and "orch_handle_request sd lib env version req (os_router s) = Some (res, o'')"
  shows "handle_jsonrpc sd lib env version now created ip hs body s
    = Some (to_http_response sd res, s\<lparr>os_limiter := limiter, os_router := o''\<rparr>)"
proof -
  have "requires_auth (os_auth s) \<Longrightarrow> validate_api_key (provided_key hs) (os_auth s)"
    using auth_ok_iff [of "os_auth s" hs] assms(2) by (auto simp: auth_ok_def)
  with assms(1,3,4,5) show ?thesis by (auto simp: handle_jsonrpc_def allowed_iff Let_def to_http_response_def)
qed

text \<open>The node's part: its answer to the call, read by whoever posted it.\<close>

definition node_serves :: "serde \<Rightarrow> http_lib \<Rightarrow> ('j, 'c, 'v, 'k) exec_env \<Rightarrow> string \<Rightarrow> http_outcome \<Rightarrow> string \<Rightarrow> json
    \<Rightarrow> json result \<Rightarrow> bool" where
  "node_serves sd lib xe base outcome meth params r \<longleftrightarrow>
     (\<exists>debug version now created ip hs body s req result limiter reply s' n.
        check_rate_limit now created ip (sv_limiter s) = (Some result, limiter)
        \<and> node_admits sd result True hs body (sv_auth s) req \<and> req_method req = meth \<and> req_params req = params
        \<and> node_call_rpc xe meth params (sv_node s) = Finished (r, n)
        \<and> server_handle_request sd debug xe version now created ip True hs body s = Finished (reply, s')
        \<and> outcome = Answered (reply_status reply) (Inr (reply_body reply))
        \<and> uri_error lib base = None \<and> prints sd lib (response_to_json (answer_of (req_id req) r)))"

lemma node_served:
  assumes "node_serves sd lib xe base outcome meth params r" "\<not> built_in meth"
  shows "try_call lib base outcome = read_at_node r"
proof -
  obtain debug version now created ip hs body s req result limiter reply s' n where
    c: "check_rate_limit now created ip (sv_limiter s) = (Some result, limiter)"
    and a: "node_admits sd result True hs body (sv_auth s) req" "req_method req = meth" "req_params req = params"
    and r: "node_call_rpc xe meth params (sv_node s) = Finished (r, n)"
    and h: "server_handle_request sd debug xe version now created ip True hs body s = Finished (reply, s')"
      "outcome = Answered (reply_status reply) (Inr (reply_body reply))"
    and p: "uri_error lib base = None" "prints sd lib (response_to_json (answer_of (req_id req) r))"
    using assms(1) unfolding node_serves_def by blast
  have "reply = to_http_response sd (answer_of (req_id req) r)"
    using answered_reply [OF c a(1), where env = xe and debug = debug and version = version] assms(2) a(2,3) r h(1) by simp
  then show ?thesis using read_answered [OF p] by (simp add: h(2) read_answer read_at_node_def)
qed


section \<open>Properties\<close>

text \<open>
  C3. A call that a client posts to the orchestrator and that the selected node serves: the node is sent the
  call once, and no other node is tried. The client reads the value of the function. An error of the
  function is a JavaScript error, with the name of the error put before its text once more; the error of
  an unknown method has become a JavaScript error as well.
\<close>

theorem call_through_orchestrator:
  assumes "\<not> built_in meth" "meth \<noteq> ''_register''"
    and "next_node (fe_now env 0) (orch_lb (os_router s)) = (Some a, lb)"
    and "node_serves sd lib xe (normalize_url a) (fe_net env 0 a 1) meth params r"
    and "check_rate_limit now created ip (os_limiter s) = (Some Allowed, limiter)" "os_auth s = default_auth"
    and "parse_jsonrpc (parse_tree sd) (request_shape sd) body = Inr req" "req_method req = meth" "req_params req = params"
    and "handle_jsonrpc sd lib env version now created ip client_headers body s = Some (reply, s')"
    and "net 1 = Answered (reply_status reply) (Inr (reply_body reply))" "0 < unat (max_attempts (retry cl))"
    and "uri_error lib (base_url cl) = None"
    and "prints sd lib (response_to_json (relayed (req_id req) r))"
  shows "fst (call lib rand net cl meth params counter) = read_at_orchestrator r
    \<and> map_option (fst \<circ> snd) (forward_request_jsonrpc lib env version req (os_router s)) = Some [SentTo a]"
proof -
  have m: "\<not> is_metrics_request (req_method req)"
    using assms(1,8) by (auto simp: is_metrics_request_def built_in_def)
  have "try_call lib (normalize_url a) (fe_net env 0 a 1) = read_at_node r"
    using assms(4,1) by (rule node_served)
  from forward_first [OF m assms(3) this read_conclusive(1,2)] obtain o'' where
    f: "forward_request_jsonrpc lib env version req (os_router s) = Some (read_at_node r, [SentTo a], o'')" by blast
  define res where "res = relayed (req_id req) r"
  have h: "orch_handle_request sd lib env version req (os_router s) = Some (res, o'')"
    using assms(1,2,8) f by (auto simp: orch_handle_request_def forward_to_node_def built_in_def res_def relayed_def)
  have rd: "read_response res = read_at_orchestrator r"
    by (cases "read_at_node r") (simp_all add: res_def relayed_def read_at_orchestrator_def read_response_def rpc_success_def rpc_error_def
        classify_error_def server_error_def Let_def)
  have "reply = to_http_response sd res"
    using admitted_jsonrpc [OF assms(5) _ _ assms(7) h, of client_headers] assms(6,10)
    by (simp add: default_auth_def auth_disabled_def content_type_ok_def client_headers_def contains_def starts_with_def)
  then have "try_call lib (base_url cl) (net 1) = read_at_orchestrator r"
    using try_call_reply [OF assms(13) assms(14) [folded res_def]] rd assms(11)
    by (auto simp: to_http_response_def res_def relayed_def rpc_success_def rpc_error_def split: sum.splits)
  then show ?thesis using call_first [of lib cl net] read_conclusive(3) [of r] assms(12) f by simp
qed


lemma bare_node_serves: "node_serves open_serde echo_lib (bare_env (Some 0)) base echo_net ''f'' JNull (Inr JNull)"
proof -
  obtain n where n: "node_call_rpc (bare_env (Some 0)) ''f'' JNull bare_node = Finished (Inr JNull, n)"
    using small_execution by (simp add: node_call_rpc_def bare_env_def bare_node_def default_limits_def)
  have c: "check_rate_limit 5 5 (V4 1) (sv_limiter (server_new 0 bare_node)) = (Some Allowed, rl_disabled 0)"
    by (simp add: server_new_def)
  have p: "parse_jsonrpc (parse_tree open_serde) (request_shape open_serde) ''x'' = Inr some_request"
    by (simp add: parse_jsonrpc_def open_serde_def MAX_PAYLOAD_SIZE_def some_call_def request_roundtrip_json)
  then have a: "node_admits open_serde Allowed True [] (Inr ''x'') (sv_auth (server_new 0 bare_node)) some_request"
    by (simp add: node_admits_def server_new_def default_auth_def auth_disabled_def MAX_BODY_SIZE_def)
  have r: "req_method some_request = ''f''" "req_params some_request = JNull" "\<not> built_in ''f''"
    by (simp_all add: some_request_def built_in_def)
  have "sv_node (server_new 0 bare_node) = bare_node" by (simp add: server_new_def)
  with answered_reply [OF c a, of "bare_env (Some 0)" "Inr JNull" n err_message "''1''"] n r
  have "server_handle_request open_serde err_message (bare_env (Some 0)) ''1'' 5 5 (V4 1) True [] (Inr ''x'') (server_new 0 bare_node)
      = Finished (to_http_response open_serde (answer_of JNull (Inr JNull)), (server_new 0 bare_node)\<lparr>sv_limiter := rl_disabled 0, sv_node := n\<rparr>)"
    by (simp add: some_request_def)
  moreover have "echo_net = Answered (reply_status (to_http_response open_serde (answer_of JNull (Inr JNull))))
      (Inr (reply_body (to_http_response open_serde (answer_of JNull (Inr JNull)))))"
    by (simp add: echo_net_def to_http_response_def open_serde_def some_serde_def)
  moreover have "uri_error echo_lib base = None" "prints open_serde echo_lib (response_to_json (answer_of JNull (Inr JNull)))"
    by (simp_all add: echo_lib_def prints_def answer_of_def)
  moreover have "req_id some_request = JNull" by (simp add: some_request_def)
  ultimately show ?thesis unfolding node_serves_def using c a r n \<open>sv_node (server_new 0 bare_node) = bare_node\<close> by metis
qed

theorem call_through_orchestrator_witness:
  "\<exists>reply s'. handle_jsonrpc open_serde echo_lib (idle_env (\<lambda>_ _ _. echo_net)) ''1'' 5 5 (V4 1) client_headers ''x'' (orch_server_new 0 two_nodes)
      = Some (reply, s') \<and> fst (call echo_lib (\<lambda>_. (False, 0)) (\<lambda>_. Answered (reply_status reply) (Inr (reply_body reply)))
          \<lparr>base_url = ''o'', pool_config = default_connection, retry = default_retry\<rparr> ''f'' JNull 0) = Inr JNull"
proof -
  let ?env = "idle_env (\<lambda>_ _ _. echo_net)"
  let ?s = "orch_server_new 0 two_nodes"
  let ?cl = "\<lparr>base_url = ''o'', pool_config = default_connection, retry = default_retry\<rparr>"
  obtain a lb where n: "next_node (fe_now ?env 0) (orch_lb (os_router ?s)) = (Some a, lb)"
  proof (cases "next_node (fe_now ?env 0) (orch_lb two_nodes)")
    case (Pair node lb)
    then have "node \<noteq> None" using next_node_None(1) [of "orch_lb two_nodes" "fe_now ?env 0" lb] two_nodes_ok
      by (auto simp: lb_ok_def available_def)
    with Pair that show thesis by (auto simp: orch_server_new_def)
  qed
  have c: "check_rate_limit 5 5 (V4 1) (os_limiter ?s) = (Some Allowed, os_limiter ?s)" by (simp add: orch_server_new_def)
  have p: "parse_jsonrpc (parse_tree open_serde) (request_shape open_serde) ''x'' = Inr some_request"
    by (simp add: parse_jsonrpc_def open_serde_def MAX_PAYLOAD_SIZE_def some_call_def request_roundtrip_json)
  have q: "req_method some_request = ''f''" "req_params some_request = JNull" by (simp_all add: some_request_def)
  have s: "node_serves open_serde echo_lib (bare_env (Some 0)) (normalize_url a) (fe_net ?env 0 a 1) ''f'' JNull (Inr JNull)"
    using bare_node_serves [of "normalize_url a"] by (simp add: idle_env_def)
  obtain res o'' where "orch_handle_request open_serde echo_lib ?env ''1'' some_request (os_router ?s) = Some (res, o'')"
    using router_returns by blast
  from admitted_jsonrpc [OF c _ _ p this, of client_headers] obtain reply s' where
    h: "handle_jsonrpc open_serde echo_lib ?env ''1'' 5 5 (V4 1) client_headers ''x'' ?s = Some (reply, s')"
    by (simp add: orch_server_new_def default_auth_def auth_disabled_def content_type_ok_def client_headers_def contains_def starts_with_def)
  have "fst (call echo_lib (\<lambda>_. (False, 0)) (\<lambda>_. Answered (reply_status reply) (Inr (reply_body reply))) ?cl ''f'' JNull 0)
      = read_at_orchestrator (Inr JNull)"
    by (rule conjunct1 [OF call_through_orchestrator [OF _ _ n s c _ p q h]])
      (simp_all add: built_in_def orch_server_new_def default_retry_def echo_lib_def prints_def relayed_def read_at_node_def some_request_def)
  with h show ?thesis by (auto simp: read_at_orchestrator_def read_at_node_def)
qed


text \<open>
  C12. A node protected by an API key answers its orchestrator with 401, because neither the client nor the
  health checker can be given a key to send: every health check of the node fails, every call forwarded
  to it is refused, and the node's state stays as it is.
\<close>

theorem protected_node_unusable:
  assumes "sv_auth s = with_api_key k" "k \<noteq> ''''"
    and "fst (check_rate_limit now created ip (sv_limiter s)) = Some Allowed"
    and "server_handle_request sd debug xe version now created ip is_post client_headers body s = Finished (reply, s')"
  shows "sv_node s' = sv_node s
    \<and> \<not> is_ok (check_node_health show_json lib rand (\<lambda>_. Answered (reply_status reply) (Inr (reply_body reply))) counter elapsed timeout a)
    \<and> (next_node (fe_now env 0) (orch_lb o') = (Some a, lb) \<and> fe_net env 0 a 1 = Answered (reply_status reply) (Inr (reply_body reply))
        \<and> \<not> is_metrics_request (req_method req)
       \<longrightarrow> (\<exists>e o''. forward_request_jsonrpc lib env version' req o' = Some (Inl e, [SentTo a], o'')))"
proof -
  obtain limiter where c: "check_rate_limit now created ip (sv_limiter s) = (Some Allowed, limiter)"
    using assms(3) by (metis prod.collapse)
  have key: "requires_auth (sv_auth s)" "\<not> validate_api_key (provided_key client_headers) (sv_auth s)"
    using keyless_refused [OF _ assms(2), of client_headers] by (simp_all add: assms(1) auth_ok_def client_headers_def)
  then have r: "reply = node_unauthorized" "s' = s\<lparr>sv_limiter := limiter\<rparr>"
    using assms(4) by (simp_all add: server_handle_request_def server_judged_def c allowed_iff Let_def)
  let ?net = "\<lambda>_ :: nat. Answered (reply_status reply) (Inr (reply_body reply))"
  have refused: "\<exists>e. try_call lib base (?net i) = Inl e \<and> \<not> is_retryable e \<and> \<not> is_retryable_static e" for lib base and i :: nat
    by (simp add: try_call_def r(1) node_unauthorized_def is_success_def is_server_error_def split: option.split)
  have concl: "conclusive (try_call lib base (?net i))" "settled (try_call lib base (?net i))" for lib base i
    using refused [of lib base] by (auto simp: conclusive_def settled_def)
  have "fst (call lib rand ?net \<lparr>base_url = normalize_url a, pool_config = default_connection, retry = default_retry\<rparr>
      ''_health'' (JObject []) counter) = try_call lib (normalize_url a) (?net 1)"
    using call_first [of lib "\<lparr>base_url = normalize_url a, pool_config = default_connection, retry = default_retry\<rparr>" ?net] concl(1)
    by (simp add: default_retry_def)
  then have "\<not> is_ok (check_node_health show_json lib rand ?net counter elapsed timeout a)"
    using refused [of lib "normalize_url a"] by (auto simp: check_node_health_def client_new_def with_configs_def)
  moreover have "\<exists>e o''. forward_request_jsonrpc lib env version' req o' = Some (Inl e, [SentTo a], o'')"
    if n: "next_node (fe_now env 0) (orch_lb o') = (Some a, lb)" "fe_net env 0 a 1 = ?net 0" "\<not> is_metrics_request (req_method req)"
  proof -
    have "try_call lib (normalize_url a) (fe_net env 0 a 1) = try_call lib (normalize_url a) (?net 0)"
      by (simp only: n(2))
    from forward_first [OF n(3,1) this concl] refused [of lib "normalize_url a"] show ?thesis by metis
  qed
  ultimately show ?thesis by (simp add: r(2))
qed

theorem protected_node_unusable_witness:
  "\<exists>reply s'. server_handle_request mute_serde err_message (bare_env None) ''1'' 5 5 (V4 1) True client_headers (Inr ''x'')
      (server_with_auth (with_api_key ''k'') (server_new 0 bare_node)) = Finished (reply, s')
    \<and> \<not> is_ok (check_node_health (\<lambda>_. ''j'') echo_lib (\<lambda>_. (False, 0))
          (\<lambda>_. Answered (reply_status reply) (Inr (reply_body reply))) 0 False (from_secs 5) ''a'')"
proof -
  let ?s = "server_with_auth (with_api_key ''k'') (server_new 0 bare_node)"
  have a: "sv_auth ?s = with_api_key ''k''" by (simp add: server_with_auth_def)
  have c: "fst (check_rate_limit 5 5 (V4 1) (sv_limiter ?s)) = Some Allowed"
    by (simp add: server_with_auth_def server_new_def)
  have "server_handle_request mute_serde err_message (bare_env None) ''1'' 5 5 (V4 1) True client_headers (Inr ''x'') ?s
      = Finished (node_unauthorized, ?s)"
    using keyless_refused [of client_headers "''k''"]
    by (simp add: server_handle_request_def server_judged_def server_with_auth_def server_new_def allowed_iff Let_def auth_ok_def client_headers_def)
  with protected_node_unusable [OF a _ c this] show ?thesis by auto
qed

text \<open>
  C9. A registration works from end to end: the request a node posts for its URL, handled by an open
  orchestrator, is answered so that the node's registration returns after this one attempt; the
  URL is in the pool and in rotation, and if the pool did not hold it, it is among the nodes that the next
  selections, as many as there are nodes enabled, give out.
\<close>

theorem registration_reaches_pool:
  assumes "cn_client n = Some cl" "starts_with ''http://'' url \<or> starts_with ''https://'' url" "lb_inv (orch_lb (os_router s))"
    and "check_rate_limit now created ip (os_limiter s) = (Some Allowed, limiter)" "os_auth s = default_auth"
    and "parse_jsonrpc (parse_tree sd) (request_shape sd) body = Inr req"
    and "req_method req = ''_register''" "req_params req = JObject [(''node_url'', JString url)]"
    and "handle_jsonrpc sd lib env version now created ip client_headers body s = Some (reply, s')"
    and "net 1 1 = Answered (reply_status reply) (Inr (reply_body reply))" "0 < unat (max_attempts (retry cl))"
    and "uri_error lib (base_url cl) = None"
    and "prints sd lib (response_to_json (rpc_success (req_id req) (registration_to_json
        \<lparr>registered_url = url, is_new_registration = url \<notin> set (node_addresses (orch_lb (os_router s)))\<rparr>)))"
  shows "register_with_orchestrator lib rand net counter url n = (Inr (), [RegisterSent 1])
    \<and> url \<in> set (enabled_nodes (orch_lb (os_router s')))
    \<and> (url \<notin> set (node_addresses (orch_lb (os_router s))) \<and> lb_bounds (orch_lb (os_router s'))
        \<and> length (enabled_nodes (orch_lb (os_router s'))) \<le> length ts
       \<longrightarrow> Some url \<in> set (fst (select_run next_node ts (orch_lb (os_router s')))))"
proof -
  let ?lb = "orch_lb (os_router s)"
  obtain r o'' where reg: "register_node url (os_router s) = (r, o'')" by (cases "register_node url (os_router s)")
  from register_node_effect [OF assms(3) reg] assms(2) obtain reply' n' where r: "r = Inr reply'" "registered_url reply' = url"
    "is_new_registration reply' \<longleftrightarrow> url \<notin> set (node_addresses ?lb)" and inv: "lb_inv (orch_lb o'')"
    and en: "url \<in> set (enabled_nodes (orch_lb o''))" and n': "map_of (nodes (orch_lb o'')) url = Some n'"
    by (cases r) auto
  have reply': "reply' = \<lparr>registered_url = url, is_new_registration = url \<notin> set (node_addresses ?lb)\<rparr>"
    using r(2,3) by (cases reply') simp
  define res where "res = rpc_success (req_id req) (registration_to_json reply')"
  have "registration_from_json (req_params req) = Some url" by (simp add: assms(8) get_field_def)
  with reg r(1) assms(7) have h: "orch_handle_request sd lib env version req (os_router s) = Some (res, o'')"
    by (simp add: orch_handle_request_def handle_register_def res_def)
  have reply: "reply = to_http_response sd res" and s': "os_router s' = o''"
    using admitted_jsonrpc [OF assms(4) _ _ assms(6) h, of client_headers] assms(5,9)
    by (auto simp: default_auth_def auth_disabled_def content_type_ok_def client_headers_def contains_def starts_with_def)
  have "try_call lib (base_url cl) (net 1 1) = read_response res"
    using try_call_reply [OF assms(12), of sd res] assms(10,13) reply
    by (simp add: to_http_response_def res_def reply' rpc_success_def)
  moreover have "read_response res = Inr (registration_to_json reply')"
    by (simp add: res_def read_response_def rpc_success_def)
  ultimately have "register_call lib rand net counter cl url 1 = Inr (registration_to_json reply')"
    using call_first [of lib cl "net 1"] assms(11) by (simp add: register_call_def conclusive_def)
  then have node: "register_with_orchestrator lib rand net counter url n = (Inr (), [RegisterSent 1])"
    by (simp add: register_with_orchestrator_def assms(1) register_loop.simps [of _ 0])
  have "Some url \<in> set (fst (select_run next_node ts (orch_lb o'')))"
    if "url \<notin> set (node_addresses ?lb)" "lb_bounds (orch_lb o'')" "length (enabled_nodes (orch_lb o'')) \<le> length ts"
  proof -
    have "map_of (nodes ?lb) url = None" using that(1) by (auto simp: node_addresses_def map_of_eq_None_iff)
    with reg assms(2) have "selectable (orch_lb o'') url"
      by (auto simp: register_node_def Let_def add_node_def enable_node_def node_new_def selectable_def)
    moreover obtain d where d: "d < length (enabled_nodes (orch_lb o''))" "turn_addr (orch_lb o'') d = url"
      by (rule turn_addr_hits [OF en])
    ultimately have "Some (turn_addr (orch_lb o'') d) \<in> set (fst (select_run next_node ts (orch_lb o'')))"
      using that by (intro select_run_reaches) auto
    with d(2) show ?thesis by simp
  qed
  with node en show ?thesis by (simp add: s')
qed

definition registering_node :: compute_node where
  "registering_node = bare_node\<lparr>cn_client := Some \<lparr>base_url = ''o'', pool_config = default_connection, retry = default_retry\<rparr>\<rparr>"

definition register_request :: json_rpc_request where
  "register_request = \<lparr>req_jsonrpc = ''2.0'', req_method = ''_register'',
     req_params = JObject [(''node_url'', JString ''http://n'')], req_id = JNull\<rparr>"

definition register_answer :: json_rpc_response where
  "register_answer = rpc_success JNull (registration_to_json \<lparr>registered_url = ''http://n'', is_new_registration = True\<rparr>)"

theorem registration_reaches_pool_witness:
  "let sd = open_serde\<lparr>parse_tree := \<lambda>_. Inr (request_to_json register_request)\<rparr>;
       lib = echo_lib\<lparr>tree_of := \<lambda>_. Inr (response_to_json register_answer)\<rparr>
   in \<exists>reply s'. handle_jsonrpc sd lib (idle_env (\<lambda>_ _ _. echo_net)) ''1'' 5 5 (V4 1) client_headers ''x'' (orch_server_new 0 two_nodes) = Some (reply, s')
     \<and> ''http://n'' \<in> set (enabled_nodes (orch_lb (os_router s')))"
proof -
  let ?sd = "open_serde\<lparr>parse_tree := \<lambda>_. Inr (request_to_json register_request)\<rparr>"
  let ?lib = "echo_lib\<lparr>tree_of := \<lambda>_. Inr (response_to_json register_answer)\<rparr>"
  let ?s = "orch_server_new 0 two_nodes"
  have c: "check_rate_limit 5 5 (V4 1) (os_limiter ?s) = (Some Allowed, os_limiter ?s)" by (simp add: orch_server_new_def)
  have p: "parse_jsonrpc (parse_tree ?sd) (request_shape ?sd) ''x'' = Inr register_request"
    by (simp add: parse_jsonrpc_def MAX_PAYLOAD_SIZE_def request_roundtrip_json)
  obtain res o'' where "orch_handle_request ?sd ?lib (idle_env (\<lambda>_ _ _. echo_net)) ''1'' register_request (os_router ?s) = Some (res, o'')"
    using router_returns by blast
  from admitted_jsonrpc [OF c _ _ p this, of client_headers] obtain reply s' where
    h: "handle_jsonrpc ?sd ?lib (idle_env (\<lambda>_ _ _. echo_net)) ''1'' 5 5 (V4 1) client_headers ''x'' ?s = Some (reply, s')"
    by (simp add: orch_server_new_def default_auth_def auth_disabled_def content_type_ok_def client_headers_def contains_def starts_with_def)
  have "lb_inv (orch_lb (os_router ?s))" using two_nodes_ok by (simp add: lb_ok_def orch_server_new_def)
  from registration_reaches_pool [OF _ _ this c _ p _ _ h, of registering_node
      "\<lparr>base_url = ''o'', pool_config = default_connection, retry = default_retry\<rparr>" "''http://n''"
      "\<lambda>_ _. Answered (reply_status reply) (Inr (reply_body reply))"]
  have "''http://n'' \<in> set (enabled_nodes (orch_lb (os_router s')))"
    by (simp add: registering_node_def register_request_def starts_with_def orch_server_new_def default_retry_def echo_lib_def
        two_nodes_def lb_new_def node_addresses_def collect_nodes_def prints_def register_answer_def)
  with h show ?thesis unfolding Let_def by blast
qed

end
